(* ===== verification/Nexo_Prelude.thy ===== *)
theory Nexo_Prelude
  imports Main "HOL-Library.Word"
begin

text \<open>
  Shared vocabulary of the development: the machine integer types of the Rust sources, the
  result type of a fallible operation, the arithmetic operations of \<^verbatim>\<open>core\<close> that the code calls
  (\<^verbatim>\<open>checked_add\<close>, \<^verbatim>\<open>saturating_sub\<close>, \<^verbatim>\<open>div_ceil\<close>, \<^verbatim>\<open>trailing_ones\<close>), and the generic facts on
  words and lists that several components use.

  The release profiles of the repository do not turn overflow checks on, so unsigned
  arithmetic wraps: this is what \<open>+\<close>, \<open>-\<close> and \<open>*\<close> do on \<open>'n word\<close>.
\<close>

unbundle bit_operations_syntax

section \<open>Types\<close>

type_synonym u8 = "8 word"
type_synonym u16 = "16 word"
type_synonym u32 = "32 word"
type_synonym u64 = "64 word"

text \<open>A Rust \<^verbatim>\<open>Result<T, E>\<close>: \<open>Inl\<close> is \<^verbatim>\<open>Err\<close>, \<open>Inr\<close> is \<^verbatim>\<open>Ok\<close>.\<close>

type_synonym ('e, 'a) result = "'e + 'a"

abbreviation Err :: "'e \<Rightarrow> ('e, 'a) result" where
  "Err \<equiv> Inl"

abbreviation Ok :: "'a \<Rightarrow> ('e, 'a) result" where
  "Ok \<equiv> Inr"

text \<open>The operator \<^verbatim>\<open>?\<close>: continue with the value or return the error.\<close>

definition try_bind :: "('e, 'a) result \<Rightarrow> ('a \<Rightarrow> ('e, 'b) result) \<Rightarrow> ('e, 'b) result" where
  "try_bind r f = (case r of Inl e \<Rightarrow> Inl e | Inr a \<Rightarrow> f a)"

lemma try_bind_simps [simp]:
  "try_bind (Inl e) f = Inl e"
  "try_bind (Inr a) f = f a"
  by (simp_all add: try_bind_def)

lemma try_bind_Ok_iff: "try_bind r f = Inr b \<longleftrightarrow> (\<exists>a. r = Inr a \<and> f a = Inr b)"
  by (cases r) simp_all

definition is_ok :: "('e, 'a) result \<Rightarrow> bool" where
  "is_ok r = (case r of Inl _ \<Rightarrow> False | Inr _ \<Rightarrow> True)"

lemma is_ok_simps [simp]: "is_ok (Inl e) = False" "is_ok (Inr a) = True"
  by (simp_all add: is_ok_def)

section \<open>Collections of facts\<close>

named_theorems nexo_inv \<open>definitions of the component invariants\<close>
named_theorems nexo_const \<open>numeric constants of the sources\<close>
named_theorems nexo_word \<open>values of word operations as natural numbers\<close>

section \<open>Machine arithmetic\<close>

definition checked_add :: "'n::len word \<Rightarrow> 'n word \<Rightarrow> 'n word option" where
  "checked_add a b = (if unat a + unat b < 2 ^ LENGTH('n) then Some (a + b) else None)"

definition saturating_sub :: "'n::len word \<Rightarrow> 'n word \<Rightarrow> 'n word" where
  "saturating_sub a b = (if b \<le> a then a - b else 0)"

definition saturating_add :: "'n::len word \<Rightarrow> 'n word \<Rightarrow> 'n word" where
  "saturating_add a b = (if unat a + unat b < 2 ^ LENGTH('n) then a + b else - 1)"

definition div_ceil :: "nat \<Rightarrow> nat \<Rightarrow> nat" where
  "div_ceil a b = (a + b - 1) div b"

lemma checked_add_Some:
  "checked_add a b = Some c \<longleftrightarrow> unat a + unat b < 2 ^ LENGTH('n) \<and> c = a + b"
  for a b c :: "'n::len word"
  by (auto simp: checked_add_def)

text \<open>The check of the code on the wrapped sum, for evaluation.\<close>

lemma checked_add_code [code]: "checked_add a b = (if a + b < a then None else Some (a + b))"
  for a b :: "'n::len word"
proof -
  let ?N = "2 ^ LENGTH('n) :: nat"
  have b: "unat a < ?N" "unat b < ?N"
    using unsigned_less [of a, where ?'a = nat] unsigned_less [of b, where ?'a = nat] by simp_all
  have s: "unat (a + b) = (unat a + unat b) mod ?N" by (simp add: unat_word_ariths)
  have "a + b < a \<longleftrightarrow> \<not> unat a + unat b < ?N"
  proof (cases "unat a + unat b < ?N")
    case True
    then show ?thesis using s by (simp add: word_less_nat_alt)
  next
    case False
    have "unat a + unat b - ?N < ?N" using b by linarith
    then have "(unat a + unat b) mod ?N = unat a + unat b - ?N"
      using False by (simp add: le_mod_geq)
    then show ?thesis using False b s unfolding word_less_nat_alt by linarith
  qed
  then show ?thesis by (simp add: checked_add_def)
qed

lemma unat_add_no_overflow:
  "unat a + unat b < 2 ^ LENGTH('n) \<Longrightarrow> unat (a + b) = unat a + unat b"
  for a b :: "'n::len word"
  by (simp add: unat_word_ariths)

lemma unat_sub_le: "b \<le> a \<Longrightarrow> unat (a - b) = unat a - unat b"
  for a b :: "'n::len word"
  by (rule unat_sub)

lemma unat_saturating_sub: "unat (saturating_sub a b) = unat a - unat b"
  by (auto simp: saturating_sub_def unat_sub word_le_nat_alt)

lemma div_ceil_le_iff: "0 < b \<Longrightarrow> div_ceil a b \<le> n \<longleftrightarrow> a \<le> n * b"
  unfolding div_ceil_def
  by (subst less_Suc_eq_le [symmetric], subst div_less_iff_less_mult) auto

lemma less_div_ceil_iff: "0 < b \<Longrightarrow> n < div_ceil a b \<longleftrightarrow> n * b < a"
  using div_ceil_le_iff [of b a n] by linarith

text \<open>\<^verbatim>\<open>trailing_ones\<close>: the number of consecutive ones from bit 0.\<close>

definition trailing_ones :: "'n::len word \<Rightarrow> nat" where
  "trailing_ones w = length (takeWhile (bit w) [0..<LENGTH('n)])"

section \<open>Words seen as natural numbers\<close>

lemma unat_less_64 [simp]: "unat (w :: u64) < 18446744073709551616"
  using unsigned_less [of w, where ?'a = nat] by simp

lemma unat_word_of_nat_64: "n < 2 ^ 64 \<Longrightarrow> unat (word_of_nat n :: u64) = n"
  by (simp add: unat_of_nat)

lemma bit_word_unat: "bit w n \<longleftrightarrow> odd (unat w div 2 ^ n)"
  for w :: "'n::len word"
proof -
  have "bit (unat w) n \<longleftrightarrow> bit w n"
    by (simp add: bit_unsigned_iff)
  then show ?thesis by (simp add: bit_iff_odd)
qed

lemma unat_drop_bit: "unat (drop_bit k v) = unat v div 2 ^ k"
  for v :: "'n::len word"
  by (subst unat_drop_bit_eq) (rule drop_bit_eq_div)

lemma not_max_word_bit: "w \<noteq> - 1 \<Longrightarrow> \<exists>n<LENGTH('n). \<not> bit w n"
  for w :: "'n::len word"
  by (rule ccontr) (auto intro: bit_word_eqI)

text \<open>\<open>trailing_ones\<close> finds the lowest zero bit of a word that has one.\<close>

lemma trailing_ones_zero_bit:
  fixes w :: "'n::len word"
  assumes "w \<noteq> - 1"
  shows "trailing_ones w < LENGTH('n)" and "\<not> bit w (trailing_ones w)"
    and "i < trailing_ones w \<Longrightarrow> bit w i"
proof -
  let ?ns = "[0..<LENGTH('n)]"
  obtain n where "n < LENGTH('n)" "\<not> bit w n" using not_max_word_bit [OF assms] by blast
  then have "\<exists>x\<in>set ?ns. \<not> bit w x" by auto
  then have "takeWhile (bit w) ?ns \<noteq> ?ns" by (metis takeWhile_eq_all_conv)
  then have lt: "length (takeWhile (bit w) ?ns) < length ?ns"
    by (metis takeWhile_eq_take take_all not_less)
  then show "trailing_ones w < LENGTH('n)" by (simp add: trailing_ones_def)
  show "\<not> bit w (trailing_ones w)"
    using nth_length_takeWhile [OF lt] lt by (simp add: trailing_ones_def)
  show "bit w i" if "i < trailing_ones w"
  proof -
    from that lt have "takeWhile (bit w) ?ns ! i = i"
      by (simp add: trailing_ones_def takeWhile_nth)
    moreover have "bit w (takeWhile (bit w) ?ns ! i)"
      using that nth_mem set_takeWhileD unfolding trailing_ones_def by metis
    ultimately show ?thesis by simp
  qed
qed

text \<open>Clearing the low \<open>k\<close> bits, the mask idiom \<^verbatim>\<open>v & !(align - 1)\<close>.\<close>

lemma and_not_mask_unat: "unat (v AND NOT (mask k)) = unat v div 2 ^ k * 2 ^ k"
  for v :: "'n::len word"
proof -
  have "v AND NOT (mask k) = push_bit k (drop_bit k v)"
    by (rule bit_word_eqI) (auto simp: bit_simps)
  moreover have "unat (push_bit k (drop_bit k v)) = unat v div 2 ^ k * 2 ^ k"
  proof (cases "k < LENGTH('n)")
    case True
    have "unat v div 2 ^ k * 2 ^ k < 2 ^ LENGTH('n)"
      using unsigned_less [of v, where ?'a = nat] div_times_less_eq_dividend [of "unat v" "2 ^ k"] by linarith
    moreover have "unat (2 ^ k :: 'n word) = 2 ^ k"
      using True by (metis of_nat_inverse of_nat_numeral of_nat_power one_less_numeral_iff
          power_strict_increasing semiring_norm(76))
    ultimately show ?thesis
      using unat_drop_bit [of k v] by (simp add: push_bit_eq_mult unat_word_ariths)
  next
    case False
    then have "unat v div 2 ^ k = 0"
      using unsigned_less [of v, where ?'a = nat] by (metis div_less not_less order_less_le_trans power_increasing
          one_le_numeral)
    moreover have "drop_bit k v = 0"
      using False by (intro bit_word_eqI) (auto simp: bit_simps dest: bit_imp_le_length)
    ultimately show ?thesis by simp
  qed
  ultimately show ?thesis by simp
qed

lemma and_mask_unat: "unat (v AND mask k) = unat v mod 2 ^ k"
  for v :: "'n::len word"
  by (metis take_bit_eq_mask take_bit_eq_mod unsigned_take_bit_eq)

section \<open>Bitmaps stored in a list of words\<close>

text \<open>Bit \<open>f\<close> of a bitmap lives in word \<open>f div W\<close> at position \<open>f mod W\<close>.\<close>

definition bm_bit :: "'n::len word list \<Rightarrow> nat \<Rightarrow> bool" where
  "bm_bit bm f \<longleftrightarrow> bit (bm ! (f div LENGTH('n))) (f mod LENGTH('n))"

lemma div_mod_eq_iff: "g div W = f div W \<and> g mod W = f mod W \<longleftrightarrow> g = f"
  for f g W :: nat
  by (metis div_mult_mod_eq)

lemma bm_bit_or:
  fixes bm :: "'n::len word list"
  assumes "f div LENGTH('n) < length bm"
  shows "bm_bit (bm[f div LENGTH('n) := (bm ! (f div LENGTH('n))) OR push_bit (f mod LENGTH('n)) 1]) g
    \<longleftrightarrow> g = f \<or> bm_bit bm g"
  using assms
  by (cases "g div LENGTH('n) = f div LENGTH('n)")
     (auto simp: bm_bit_def bit_simps possible_bit_word div_mod_eq_iff [of g "LENGTH('n)" f, symmetric])

lemma bm_bit_and_not:
  fixes bm :: "'n::len word list"
  assumes "f div LENGTH('n) < length bm"
  shows "bm_bit (bm[f div LENGTH('n) := (bm ! (f div LENGTH('n))) AND NOT (push_bit (f mod LENGTH('n)) 1)]) g
    \<longleftrightarrow> g \<noteq> f \<and> bm_bit bm g"
  using assms
  by (cases "g div LENGTH('n) = f div LENGTH('n)")
     (auto simp: bm_bit_def bit_simps possible_bit_word div_mod_eq_iff [of g "LENGTH('n)" f, symmetric])

end
