(* ===== verification/Kernel_Heap.thy ===== *)
theory Kernel_Heap
  imports Nexo_Prelude
begin

text \<open>
  \<^verbatim>\<open>kernel/lib/heap/src/lib.rs\<close>: the kernel heap, a list of free blocks in address order that lives
  inside the free memory itself. Memory is a function from addresses to 64-bit words: a free node
  at \<open>a\<close> has its size at \<open>a\<close> and its next pointer at \<open>a + 8\<close>, the header of an allocation at \<open>a\<close>
  has block start, block size and marker at \<open>a\<close>, \<open>a + 8\<close> and \<open>a + 16\<close>. The null pointer \<open>0\<close> is the
  \<^verbatim>\<open>None\<close> of \<^verbatim>\<open>Option<NonNull<FreeNode>>\<close>. A \<^verbatim>\<open>usize\<close> is a \<open>nat\<close> with the wrap-around of the
  release build written out (\<open>wadd\<close>, \<open>wsub\<close>). Walks along the list are \<open>partial_function (option)\<close>:
  a cyclic list makes them undefined, and the theorems show that they return.

  The proofs relate the memory to a list of blocks (\<open>lseg\<close>), and the operations to what they do
  to that list and to the set of live allocations.
\<close>

section \<open>Machine arithmetic\<close>

definition wadd :: "nat \<Rightarrow> nat \<Rightarrow> nat" where
  "wadd a b = (a + b) mod 2 ^ 64"

definition wsub :: "nat \<Rightarrow> nat \<Rightarrow> nat" where
  "wsub a b = (a + 2 ^ 64 - b) mod 2 ^ 64"

text \<open>\<^verbatim>\<open>t & !(a - 1)\<close> for a power of two \<open>a\<close>.\<close>

definition heap_align_up :: "nat \<Rightarrow> nat \<Rightarrow> nat" where
  "heap_align_up v a = (let t = wsub (wadd v a) 1 in t - t mod a)"

section \<open>State\<close>

definition MIN_ALIGN :: nat where "MIN_ALIGN = 16"
definition HEADER_SIZE :: nat where "HEADER_SIZE = 32"
definition NODE_SIZE :: nat where "NODE_SIZE = 16"
definition MAGIC_LIVE :: nat where "MAGIC_LIVE = 0xA110C8ED00000001"
definition MAGIC_FREED :: nat where "MAGIC_FREED = 0xDEADF4EE00000002"

type_synonym heap_mem = "nat \<Rightarrow> nat"

record heap_stats =
  hs_total_bytes :: nat
  hs_used_bytes :: nat
  hs_peak_bytes :: nat
  hs_allocations :: nat
  hs_frees :: nat
  hs_failures :: nat
  hs_free_blocks :: nat

record heap =
  hp_mem :: heap_mem
  hp_head :: nat
  hp_stats :: heap_stats

definition heap_new :: "heap_mem \<Rightarrow> heap" where
  "heap_new m =
     \<lparr>hp_mem = m, hp_head = 0,
      hp_stats = \<lparr>hs_total_bytes = 0, hs_used_bytes = 0, hs_peak_bytes = 0, hs_allocations = 0,
                  hs_frees = 0, hs_failures = 0, hs_free_blocks = 0\<rparr>\<rparr>"

definition node_size :: "heap_mem \<Rightarrow> nat \<Rightarrow> nat" where
  "node_size m a = m a"

definition node_next :: "heap_mem \<Rightarrow> nat \<Rightarrow> nat" where
  "node_next m a = m (a + 8)"

definition write_node :: "nat \<Rightarrow> nat \<Rightarrow> nat \<Rightarrow> heap_mem \<Rightarrow> heap_mem" where
  "write_node a s n m = m(a := s, a + 8 := n)"

definition write_next :: "nat \<Rightarrow> nat \<Rightarrow> heap_mem \<Rightarrow> heap_mem" where
  "write_next a n m = m(a + 8 := n)"

definition write_header :: "nat \<Rightarrow> nat \<Rightarrow> heap_mem \<Rightarrow> heap_mem" where
  "write_header a s m = m(a := a, a + 8 := s, a + 16 := MAGIC_LIVE, a + 24 := 0)"

section \<open>Operations\<close>

text \<open>The loop of \<^verbatim>\<open>insert_free\<close>: the last node at or below \<open>start\<close> and the first node above it.\<close>

partial_function (option) insert_pos :: "heap_mem \<Rightarrow> nat \<Rightarrow> nat \<Rightarrow> nat \<Rightarrow> (nat \<times> nat) option" where
  "insert_pos m start prev cur =
     (if cur = 0 then Some (prev, cur)
      else if cur > start then Some (prev, cur)
      else insert_pos m start cur (node_next m cur))"

definition insert_free :: "nat \<Rightarrow> nat \<Rightarrow> heap \<Rightarrow> heap option" where
  "insert_free start size0 h =
     (case insert_pos (hp_mem h) start 0 (hp_head h) of
        None \<Rightarrow> None
      | Some (prev, cur) \<Rightarrow>
          let m = hp_mem h;
              joins = (cur \<noteq> 0 \<and> wadd start size0 = cur);
              sz = (if joins then wadd size0 (node_size m cur) else size0);
              nxt = (if joins then node_next m cur else cur);
              st = (if joins then (hp_stats h)\<lparr>hs_free_blocks := hs_free_blocks (hp_stats h) - 1\<rparr> else hp_stats h)
          in if prev \<noteq> 0 \<and> wadd prev (node_size m prev) = start then
               Some (h\<lparr>hp_mem := write_node prev (wadd sz (node_size m prev)) nxt m, hp_stats := st\<rparr>)
             else
               let m1 = write_node start sz nxt m;
                   st1 = st\<lparr>hs_free_blocks := hs_free_blocks st + 1\<rparr>
               in if prev \<noteq> 0 then Some (h\<lparr>hp_mem := write_next prev start m1, hp_stats := st1\<rparr>)
                  else Some (h\<lparr>hp_mem := m1, hp_head := start, hp_stats := st1\<rparr>))"

definition heap_extend :: "nat \<Rightarrow> nat \<Rightarrow> heap \<Rightarrow> heap option" where
  "heap_extend start size0 h =
     (let s = heap_align_up start MIN_ALIGN;
          e = wadd start size0 - wadd start size0 mod MIN_ALIGN
      in if e \<le> s \<or> e - s < NODE_SIZE then Some h
         else insert_free s (e - s)
                (h\<lparr>hp_stats := (hp_stats h)\<lparr>hs_total_bytes := hs_total_bytes (hp_stats h) + (e - s)\<rparr>\<rparr>))"

text \<open>Where \<^verbatim>\<open>allocate\<close> would place an allocation in the block at \<open>b\<close>: the pointer and the gap before it.\<close>

definition heap_place :: "nat \<Rightarrow> nat \<Rightarrow> nat \<times> nat" where
  "heap_place b align =
     (let ptr = heap_align_up (wadd b HEADER_SIZE) align;
          front_gap = wsub (wsub ptr HEADER_SIZE) b
      in if front_gap \<noteq> 0 \<and> front_gap < NODE_SIZE then
           let ptr = heap_align_up (wadd (wadd b NODE_SIZE) HEADER_SIZE) align
           in (ptr, wsub (wsub ptr HEADER_SIZE) b)
         else (ptr, front_gap))"

text \<open>The branch of \<^verbatim>\<open>allocate\<close> that takes the space out of the block at \<open>node\<close>.\<close>

definition heap_take :: "nat \<Rightarrow> nat \<Rightarrow> nat \<Rightarrow> nat \<Rightarrow> nat \<Rightarrow> heap \<Rightarrow> heap" where
  "heap_take prev node ptr front_gap alloc_size h =
     (let m = hp_mem h;
          next_node = node_next m node;
          block_end = wadd node (node_size m node);
          stop = wadd ptr alloc_size;
          tail0 = block_end - stop;
          alloc_end = (if tail0 < NODE_SIZE then block_end else stop);
          tail_size = (if tail0 < NODE_SIZE then 0 else tail0);
          alloc_start = wsub ptr HEADER_SIZE;
          m1 = (if tail_size \<noteq> 0 then write_node alloc_end tail_size next_node m else m);
          r1 = (if tail_size \<noteq> 0 then alloc_end else next_node);
          m2 = (if front_gap \<noteq> 0 then write_node node front_gap r1 m1 else m1);
          r2 = (if front_gap \<noteq> 0 then node else r1);
          m3 = (if prev \<noteq> 0 then write_next prev r2 m2 else m2);
          head = (if prev \<noteq> 0 then hp_head h else r2);
          m4 = write_header alloc_start (wsub alloc_end alloc_start) m3;
          st = hp_stats h;
          used = hs_used_bytes st + wsub alloc_end alloc_start
      in \<lparr>hp_mem = m4, hp_head = head,
          hp_stats = st\<lparr>hs_free_blocks := hs_free_blocks st + of_bool (tail_size \<noteq> 0) + of_bool (front_gap \<noteq> 0) - 1,
                        hs_used_bytes := used, hs_peak_bytes := max (hs_peak_bytes st) used,
                        hs_allocations := hs_allocations st + 1\<rparr>\<rparr>)"

partial_function (option) allocate_loop ::
  "heap \<Rightarrow> nat \<Rightarrow> nat \<Rightarrow> nat \<Rightarrow> nat \<Rightarrow> (nat option \<times> heap) option" where
  "allocate_loop h align alloc_size prev cur =
     (if cur = 0 then
        Some (None, h\<lparr>hp_stats := (hp_stats h)\<lparr>hs_failures := hs_failures (hp_stats h) + 1\<rparr>\<rparr>)
      else let (ptr, front_gap) = heap_place cur align in
        if wadd ptr alloc_size \<le> wadd cur (node_size (hp_mem h) cur)
        then Some (Some ptr, heap_take prev cur ptr front_gap alloc_size h)
        else allocate_loop h align alloc_size cur (node_next (hp_mem h) cur))"

definition heap_allocate :: "nat \<Rightarrow> nat \<Rightarrow> heap \<Rightarrow> (nat option \<times> heap) option" where
  "heap_allocate lsize lalign h =
     allocate_loop h (max lalign MIN_ALIGN) (heap_align_up (max lsize 1) MIN_ALIGN) 0 (hp_head h)"

text \<open>The failed assertion of \<^verbatim>\<open>deallocate\<close>: the pointer and the marker found.\<close>

datatype heap_panic = InvalidFree nat nat

definition heap_deallocate :: "nat \<Rightarrow> heap \<Rightarrow> (heap_panic, heap) result option" where
  "heap_deallocate ptr h =
     (let hdr = wsub ptr HEADER_SIZE; m = hp_mem h in
      if m (hdr + 16) \<noteq> MAGIC_LIVE then Some (Err (InvalidFree ptr (m (hdr + 16))))
      else let st = hp_stats h;
               h1 = h\<lparr>hp_mem := m(hdr + 16 := MAGIC_FREED),
                      hp_stats := st\<lparr>hs_used_bytes := hs_used_bytes st - m (hdr + 8), hs_frees := hs_frees st + 1\<rparr>\<rparr>
           in map_option Inr (insert_free (m hdr) (m (hdr + 8)) h1))"




section \<open>Arithmetic facts\<close>

lemmas heap_consts [nexo_const] = MIN_ALIGN_def HEADER_SIZE_def NODE_SIZE_def

lemma wadd_small: "a + b < 2 ^ 64 \<Longrightarrow> wadd a b = a + b"
  by (simp add: wadd_def)

lemma wsub_small: "b \<le> a \<Longrightarrow> a < 2 ^ 64 \<Longrightarrow> wsub a b = a - b"
proof -
  assume "b \<le> a" "a < 2 ^ 64"
  then have "a + 2 ^ 64 - b = (a - b) + 2 ^ 64" "a - b < 2 ^ 64" by simp_all
  then show ?thesis unfolding wsub_def by (metis mod_add_self2 mod_less)
qed

lemma heap_align_up_props:
  assumes "0 < a" and "v + a < 2 ^ 64"
  shows "a dvd heap_align_up v a" and "v \<le> heap_align_up v a" and "heap_align_up v a < v + a"
proof -
  let ?t = "v + a - 1"
  have "wsub (wadd v a) 1 = ?t"
    using assms by (simp add: wadd_small wsub_small)
  then have e: "heap_align_up v a = ?t - ?t mod a" by (simp add: heap_align_up_def Let_def)
  show "a dvd heap_align_up v a" unfolding e by (rule dvd_minus_mod)
  have "?t mod a < a" using assms by simp
  then show "v \<le> heap_align_up v a" "heap_align_up v a < v + a" using assms unfolding e by linarith+
qed

section \<open>Lists in memory\<close>

fun lseg :: "heap_mem \<Rightarrow> nat \<Rightarrow> (nat \<times> nat) list \<Rightarrow> nat \<Rightarrow> bool" where
  "lseg m p [] q \<longleftrightarrow> p = q"
| "lseg m p ((a, s) # bs) q \<longleftrightarrow> p = a \<and> a \<noteq> 0 \<and> node_size m a = s \<and> lseg m (node_next m a) bs q"

lemma lseg_append: "lseg m p (xs @ ys) q \<longleftrightarrow> (\<exists>r. lseg m p xs r \<and> lseg m r ys q)"
  by (induction m p xs q rule: lseg.induct) auto

lemma lseg_cong:
  assumes "\<And>a s. (a, s) \<in> set bs \<Longrightarrow> m' a = m a \<and> m' (a + 8) = m (a + 8)"
  shows "lseg m' p bs q = lseg m p bs q"
  using assms
proof (induction bs arbitrary: p)
  case (Cons b bs)
  obtain a s where b: "b = (a, s)" by fastforce
  have "m' a = m a" "m' (a + 8) = m (a + 8)" using Cons.prems [of a s] by (simp_all add: b)
  moreover have "lseg m' p bs q = lseg m p bs q" for p using Cons.prems by (intro Cons.IH) auto
  ultimately show ?case by (simp add: b node_size_def node_next_def)
qed simp

lemma lseg_head: "lseg m p bs 0 \<Longrightarrow> p = (case bs of [] \<Rightarrow> 0 | (a, s) # _ \<Rightarrow> a)"
  by (cases bs) auto

text \<open>The predecessor a walk has seen after a segment.\<close>

definition last_addr :: "nat \<Rightarrow> (nat \<times> nat) list \<Rightarrow> nat" where
  "last_addr pv bs = (if bs = [] then pv else fst (last bs))"

lemma last_addr_simps [simp]:
  "last_addr pv [] = pv" "last_addr pv ((a, s) # bs) = last_addr a bs"
  "last_addr pv (bs @ [(a, s)]) = a"
  by (simp_all add: last_addr_def)

text \<open>Blocks: the bytes they span, and when a list of free blocks is in order.\<close>

definition blk_bytes :: "nat \<times> nat \<Rightarrow> nat set" where
  "blk_bytes b = {fst b..<fst b + snd b}"

definition blk_ok :: "nat \<times> nat \<Rightarrow> bool" where
  "blk_ok b \<longleftrightarrow> 0 < fst b \<and> 16 dvd fst b \<and> 16 dvd snd b \<and> 16 \<le> snd b \<and> fst b + snd b < 2 ^ 64"

definition free_ok :: "(nat \<times> nat) list \<Rightarrow> bool" where
  "free_ok bs \<longleftrightarrow> sorted_wrt (\<lambda>x y. fst x + snd x < fst y) bs \<and> (\<forall>b\<in>set bs. blk_ok b)"

lemma free_ok_append:
  "free_ok (xs @ ys) \<longleftrightarrow> free_ok xs \<and> free_ok ys \<and> (\<forall>x\<in>set xs. \<forall>y\<in>set ys. fst x + snd x < fst y)"
  by (auto simp: free_ok_def sorted_wrt_append)

lemma free_ok_Cons:
  "free_ok (b # bs) \<longleftrightarrow> blk_ok b \<and> free_ok bs \<and> (\<forall>y\<in>set bs. fst b + snd b < fst y)"
  by (auto simp: free_ok_def)

lemma free_ok_Nil [simp]: "free_ok []"
  by (simp add: free_ok_def)

text \<open>Node words of two different aligned blocks never coincide.\<close>

lemma aligned_words:
  assumes "16 dvd (a::nat)" "16 dvd b" "a \<noteq> b"
  shows "a \<noteq> b + 8" "a + 8 \<noteq> b" "a + 8 \<noteq> b + 8"
  using assms by presburger+

lemma lseg_write_next_last:
  assumes "lseg m p (xs @ [(a, s)]) q" and "free_ok (xs @ [(a, s)])"
  shows "lseg (write_next a q' m) p (xs @ [(a, s)]) q'"
proof -
  have "lseg m p xs a" "a \<noteq> 0" "node_size m a = s" using assms(1) by (auto simp: lseg_append)
  moreover have "lseg (write_next a q' m) p xs a = lseg m p xs a"
  proof (rule lseg_cong)
    fix b t assume b: "(b, t) \<in> set xs"
    then have "b + t < a" "16 dvd b" "16 dvd a"
      using assms(2) by (auto simp: free_ok_def sorted_wrt_append blk_ok_def)
    then show "write_next a q' m b = m b \<and> write_next a q' m (b + 8) = m (b + 8)"
      using aligned_words [of b a] by (auto simp: write_next_def)
  qed
  ultimately show ?thesis by (auto simp: lseg_append write_next_def node_size_def node_next_def)
qed

lemma lseg_write_node:
  assumes "lseg m p xs q" "16 dvd a" "\<forall>(b, t)\<in>set xs. b \<noteq> a \<and> 16 dvd b"
  shows "lseg (write_node a s n m) p xs q"
proof -
  have "lseg (write_node a s n m) p xs q = lseg m p xs q"
  proof (rule lseg_cong)
    fix b t assume "(b, t) \<in> set xs"
    with assms have "b \<noteq> a" "16 dvd b" by auto
    then show "write_node a s n m b = m b \<and> write_node a s n m (b + 8) = m (b + 8)"
      using aligned_words [of b a] assms(2) by (auto simp: write_node_def)
  qed
  with assms(1) show ?thesis by simp
qed

section \<open>Inserting a free block\<close>

lemma insert_pos_lseg:
  assumes "lseg m p (xs @ ys) 0" "\<forall>x\<in>set xs. fst x \<le> start" "ys = [] \<or> start < fst (hd ys)"
  shows "insert_pos m start pv p = Some (last_addr pv xs, if ys = [] then 0 else fst (hd ys))"
  using assms
proof (induction xs arbitrary: p pv)
  case Nil
  then show ?case by (cases ys) (auto simp: insert_pos.simps [of m start pv])
next
  case (Cons x xs)
  obtain a s where x: "x = (a, s)" by fastforce
  have "p = a" "a \<noteq> 0" "a \<le> start" "lseg m (node_next m a) (xs @ ys) 0" using Cons.prems by (auto simp: x)
  then show ?case
    using Cons.IH [of "node_next m a" a] Cons.prems by (simp add: x insert_pos.simps [of m start pv a])
qed

text \<open>Joining a block with its right neighbour, if they touch.\<close>

definition join_right :: "nat \<times> nat \<Rightarrow> (nat \<times> nat) list \<Rightarrow> (nat \<times> nat) list" where
  "join_right b ys =
     (case ys of
        [] \<Rightarrow> [b]
      | y # zs \<Rightarrow> if fst b + snd b = fst y then (fst b, snd b + snd y) # zs else b # ys)"

text \<open>The whole insertion, on lists: \<open>xs\<close> are the blocks before, \<open>ys\<close> the blocks after.\<close>

definition insert_blk :: "nat \<times> nat \<Rightarrow> (nat \<times> nat) list \<Rightarrow> (nat \<times> nat) list \<Rightarrow> (nat \<times> nat) list" where
  "insert_blk b xs ys =
     (let zs = join_right b ys in
      if xs \<noteq> [] \<and> fst (last xs) + snd (last xs) = fst b
      then butlast xs @ (fst (last xs), snd (hd zs) + snd (last xs)) # tl zs
      else xs @ zs)"

lemma join_right_cases:
  obtains (join) y zs where "ys = y # zs" "fst b + snd b = fst y" "join_right b ys = (fst b, snd b + snd y) # zs"
  | (sep) "join_right b ys = b # ys" "ys = [] \<or> fst b + snd b \<noteq> fst (hd ys)"
  by (cases ys) (auto simp: join_right_def split: if_splits)

lemma blk_ok_join: "blk_ok b \<Longrightarrow> blk_ok c \<Longrightarrow> fst b + snd b = fst c \<Longrightarrow> blk_ok (fst b, snd b + snd c)"
  by (simp add: blk_ok_def)

lemma free_ok_join_right:
  assumes "blk_ok b" "free_ok ys" "\<forall>y\<in>set ys. fst b + snd b \<le> fst y"
  shows "free_ok (join_right b ys)"
proof (cases rule: join_right_cases [of ys b])
  case (join y zs)
  then show ?thesis
    using assms blk_ok_join [of b y] by (auto simp: free_ok_Cons)
next
  case sep
  have "fst b + snd b < fst y" if y: "y \<in> set ys" for y
  proof (cases ys)
    case (Cons z zs)
    then show ?thesis using assms sep(2) y by (fastforce simp: free_ok_Cons)
  qed (use y in simp)
  then show ?thesis using assms sep(1) by (simp add: free_ok_Cons)
qed

lemma blk_bytes_join: "fst x + snd x = a \<Longrightarrow> blk_bytes (fst x, n + snd x) = blk_bytes x \<union> blk_bytes (a, n)"
  by (auto simp: blk_bytes_def)

lemma join_right_shape:
  shows "fst (hd (join_right b ys)) = fst b" "join_right b ys \<noteq> []"
    "(\<Union>x\<in>set (join_right b ys). blk_bytes x) = blk_bytes b \<union> (\<Union>x\<in>set ys. blk_bytes x)"
    "sum_list (map snd (join_right b ys)) = snd b + sum_list (map snd ys)"
    "set (tl (join_right b ys)) \<subseteq> set ys"
proof -
  have j: "blk_bytes (fst b, snd b + snd y) = blk_bytes b \<union> blk_bytes y" if "fst b + snd b = fst y" for y
    using blk_bytes_join [OF that, of "snd y"] by (simp add: add.commute)
  show "(\<Union>x\<in>set (join_right b ys). blk_bytes x) = blk_bytes b \<union> (\<Union>x\<in>set ys. blk_bytes x)"
    by (cases rule: join_right_cases [of ys b]) (simp_all add: j Un_assoc)
qed (cases rule: join_right_cases [of ys b]; auto)+

lemma insert_blk_cases:
  obtains (join) xs' x where "xs = xs' @ [x]" "fst x + snd x = fst b"
      "insert_blk b xs ys = xs' @ (fst x, snd (hd (join_right b ys)) + snd x) # tl (join_right b ys)"
  | (sep) "insert_blk b xs ys = xs @ join_right b ys" "xs = [] \<or> fst (last xs) + snd (last xs) \<noteq> fst b"
proof (cases "xs \<noteq> [] \<and> fst (last xs) + snd (last xs) = fst b")
  case True
  then obtain xs' x where "xs = xs' @ [x]" "fst x + snd x = fst b" by (cases xs rule: rev_cases) auto
  then show thesis by (intro join [of xs' x]) (simp_all add: insert_blk_def Let_def)
next
  case False
  then show thesis by (intro sep) (auto simp: insert_blk_def Let_def)
qed

lemma free_ok_insert_blk:
  assumes b: "blk_ok b" and ok: "free_ok (xs @ ys)"
    and l: "\<forall>x\<in>set xs. fst x + snd x \<le> fst b" and r: "\<forall>y\<in>set ys. fst b + snd b \<le> fst y"
  shows "free_ok (insert_blk b xs ys)"
proof -
  note sh = join_right_shape [of b ys]
  have z: "free_ok (join_right b ys)" using free_ok_join_right b ok r by (auto simp: free_ok_append)
  have xz: "\<forall>x\<in>set xs. \<forall>y\<in>set (tl (join_right b ys)). fst x + snd x < fst y"
    using sh(5) ok by (auto simp: free_ok_append)
  obtain zs n where zs: "join_right b ys = (fst b, n) # zs"
    using sh(1,2) by (metis list.collapse prod.collapse)
  show ?thesis
  proof (cases rule: insert_blk_cases [of xs b ys])
    case (join xs' x)
    have n: "blk_ok (fst b, n)" "free_ok zs" "\<forall>y\<in>set zs. fst b + n < fst y" using z by (simp_all add: zs free_ok_Cons)
    have x: "blk_ok x" "free_ok xs'" "\<forall>y\<in>set xs'. fst y + snd y < fst x"
      using ok join(1) by (simp_all add: free_ok_append free_ok_Cons)
    have "blk_ok (fst x, n + snd x)"
      using blk_ok_join [of x "(fst b, n)"] n x join(2) by (simp add: add.commute)
    moreover have "\<forall>y\<in>set zs. fst x + (n + snd x) < fst y" using n(3) join(2) by auto
    moreover have "\<forall>x\<in>set xs'. \<forall>y\<in>set zs. fst x + snd x < fst y" using xz join(1) by (simp add: zs)
    ultimately show ?thesis
      using n(2) x by (simp add: join(3) zs free_ok_append free_ok_Cons)
  next
    case sep
    have lt: "\<forall>x\<in>set xs. fst x + snd x < fst b"
    proof (cases xs rule: rev_cases)
      case (snoc xs' y)
      then have "fst y + snd y < fst b" "\<forall>x\<in>set xs'. fst x + snd x < fst y"
        using sep(2) l ok by (auto simp: free_ok_append free_ok_Cons)
      then show ?thesis using snoc by fastforce
    qed simp
    have "free_ok xs" using ok by (simp add: free_ok_append)
    then show ?thesis
      using z xz lt by (simp add: sep(1) zs free_ok_append)
  qed
qed

lemma insert_blk_shape:
  shows "(\<Union>x\<in>set (insert_blk b xs ys). blk_bytes x) = blk_bytes b \<union> (\<Union>x\<in>set (xs @ ys). blk_bytes x)"
    "sum_list (map snd (insert_blk b xs ys)) = snd b + sum_list (map snd (xs @ ys))"
proof -
  note sh = join_right_shape [of b ys]
  obtain zs n where zs: "join_right b ys = (fst b, n) # zs"
    using sh(1,2) by (metis list.collapse prod.collapse)
  show "(\<Union>x\<in>set (insert_blk b xs ys). blk_bytes x) = blk_bytes b \<union> (\<Union>x\<in>set (xs @ ys). blk_bytes x)"
  proof (cases rule: insert_blk_cases [of xs b ys])
    case (join xs' x)
    then show ?thesis using sh(3) blk_bytes_join [OF join(2), of n] by (simp add: zs) blast
  next
    case sep
    then show ?thesis using sh(3) by (simp add: Un_left_commute)
  qed
  show "sum_list (map snd (insert_blk b xs ys)) = snd b + sum_list (map snd (xs @ ys))"
    using sh(4) by (cases rule: insert_blk_cases [of xs b ys]) (simp_all add: zs)
qed

lemma lseg_write_next_other:
  assumes "lseg m p xs q" "16 dvd a" "\<forall>(b, t)\<in>set xs. b \<noteq> a \<and> 16 dvd b"
  shows "lseg (write_next a n m) p xs q"
proof -
  have "lseg (write_next a n m) p xs q = lseg m p xs q"
  proof (rule lseg_cong)
    fix b t assume "(b, t) \<in> set xs"
    with assms have "b \<noteq> a" "16 dvd b" by auto
    then show "write_next a n m b = m b \<and> write_next a n m (b + 8) = m (b + 8)"
      using aligned_words [of b a] assms(2) by (auto simp: write_next_def)
  qed
  with assms(1) show ?thesis by simp
qed

lemma node_write [simp]:
  "node_size (write_node a s n m) a = s" "node_next (write_node a s n m) a = n"
  "node_size (write_next a n m) a = node_size m a" "node_next (write_next a n m) a = n"
  by (simp_all add: node_size_def node_next_def write_node_def write_next_def)

text \<open>What the loop finds at the insertion point, and the right half of the coalescing.\<close>

lemma join_right_mem:
  assumes "lseg m cur ys 0" "free_ok ys" "blk_ok (a, s)"
  defines "joins \<equiv> cur \<noteq> 0 \<and> wadd a s = cur"
  obtains zs where
    "join_right (a, s) ys = (a, if joins then wadd s (node_size m cur) else s) # zs"
    "lseg m (if joins then node_next m cur else cur) zs 0"
    "length ys = length zs + of_bool joins"
proof -
  have w: "wadd a s = a + s" using assms(3) by (simp add: blk_ok_def wadd_small)
  have cur: "cur = (if ys = [] then 0 else fst (hd ys))" "ys \<noteq> [] \<Longrightarrow> cur \<noteq> 0"
    using assms(1) by (cases ys; auto)+
  show thesis
  proof (cases rule: join_right_cases [of ys "(a, s)"])
    case (join y zs)
    have y: "node_size m cur = snd y" "lseg m (node_next m cur) zs 0" "blk_ok y"
      using assms(1,2) join(1) by (cases y; auto simp: free_ok_Cons)+
    have "wadd s (snd y) = s + snd y" using y(3) join(2) assms(3) by (auto simp: blk_ok_def wadd_small)
    moreover have joins using join cur w by (simp add: joins_def)
    ultimately show thesis using y join by (intro that [of zs]) simp_all
  next
    case sep
    then have "\<not> joins" using cur w by (auto simp: joins_def)
    then show thesis using sep assms(1) by (intro that [of ys]) simp_all
  qed
qed

text \<open>The three ways in which a node is linked into a list.\<close>

lemma link_front:
  assumes "lseg m nxt zs 0" "\<forall>(c, t)\<in>set zs. c \<noteq> a \<and> 16 dvd c" "16 dvd a" "a \<noteq> 0"
  shows "lseg (write_node a n nxt m) a ((a, n) # zs) 0"
  using lseg_write_node [OF assms(1,3,2)] assms(4) by simp

lemma link_join:
  assumes "lseg m p (xs @ [(c, u)]) cur" "free_ok (xs @ [(c, u)])"
    and zs: "lseg m nxt zs 0" "\<forall>(b, t)\<in>set zs. b \<noteq> c \<and> 16 dvd b"
  shows "lseg (write_node c n nxt m) p (xs @ (c, n) # zs) 0"
proof -
  have c: "16 dvd c" "c \<noteq> 0" "lseg m p xs c" using assms(1,2) by (auto simp: lseg_append free_ok_def blk_ok_def)
  have "\<forall>(b, t)\<in>set xs. b \<noteq> c \<and> 16 dvd b"
    using assms(2) by (fastforce simp: free_ok_def sorted_wrt_append blk_ok_def)
  then have "lseg (write_node c n nxt m) p xs c" using lseg_write_node c by blast
  then show ?thesis using link_front [OF zs c(1,2)] by (auto simp: lseg_append)
qed

lemma link_after:
  assumes "lseg m p (xs @ [(c, u)]) cur" "free_ok (xs @ [(c, u)])"
    and zs: "lseg m nxt zs 0" "\<forall>(b, t)\<in>set zs. b \<noteq> a \<and> b \<noteq> c \<and> 16 dvd b"
    and a: "\<forall>(b, t)\<in>set (xs @ [(c, u)]). b \<noteq> a \<and> 16 dvd b" "16 dvd a" "a \<noteq> 0"
  shows "lseg (write_next c a (write_node a n nxt m)) p ((xs @ [(c, u)]) @ (a, n) # zs) 0"
proof -
  have "lseg (write_node a n nxt m) p (xs @ [(c, u)]) cur" using lseg_write_node assms(1) a by blast
  then have 1: "lseg (write_next c a (write_node a n nxt m)) p (xs @ [(c, u)]) a"
    using lseg_write_next_last assms(2) by blast
  have "lseg (write_node a n nxt m) a ((a, n) # zs) 0"
    using zs a by (intro link_front) auto
  moreover have "\<forall>(b, t)\<in>set ((a, n) # zs). b \<noteq> c \<and> 16 dvd b" "16 dvd c" using zs(2) a by auto
  ultimately have "lseg (write_next c a (write_node a n nxt m)) a ((a, n) # zs) 0"
    using lseg_write_next_other by blast
  with 1 show ?thesis using lseg_append by blast
qed

lemma insert_free_refines:
  assumes l: "lseg (hp_mem h) (hp_head h) (xs @ ys) 0" and ok: "free_ok (xs @ ys)" and b: "blk_ok (a, s)"
    and xs: "\<forall>x\<in>set xs. fst x + snd x \<le> a" and ys: "\<forall>y\<in>set ys. a + s \<le> fst y"
    and fb: "hs_free_blocks (hp_stats h) = length (xs @ ys)"
  shows "\<exists>h'. insert_free a s h = Some h' \<and>
    lseg (hp_mem h') (hp_head h') (insert_blk (a, s) xs ys) 0 \<and>
    hp_stats h' = (hp_stats h)\<lparr>hs_free_blocks := length (insert_blk (a, s) xs ys)\<rparr> \<and>
    (\<forall>x. hp_mem h' x \<noteq> hp_mem h x \<longrightarrow> x = a \<or> x = a + 8 \<or> (\<exists>y\<in>set xs. x = fst y \<or> x = fst y + 8))"
proof -
  let ?m = "hp_mem h"
  obtain cur where lx: "lseg ?m (hp_head h) xs cur" and ly: "lseg ?m cur ys 0"
    using l by (auto simp: lseg_append)
  have cur: "cur = (if ys = [] then 0 else fst (hd ys))" using ly by (cases ys) auto
  have as: "16 \<le> s" "16 dvd a" "0 < a" "a + s < 2 ^ 64" using b by (simp_all add: blk_ok_def)
  have "ys = [] \<or> a < fst (hd ys)" using ys as by (cases ys) auto
  then have pos: "insert_pos ?m a 0 (hp_head h) = Some (last_addr 0 xs, cur)"
    using insert_pos_lseg [OF l, of a 0] xs cur le_trans [OF le_add1] by blast
  define joins where "joins = (cur \<noteq> 0 \<and> wadd a s = cur)"
  define sz where "sz = (if joins then wadd s (node_size ?m cur) else s)"
  define nxt where "nxt = (if joins then node_next ?m cur else cur)"
  define st where "st = (if joins then (hp_stats h)\<lparr>hs_free_blocks := hs_free_blocks (hp_stats h) - 1\<rparr> else hp_stats h)"
  obtain zs where zs: "join_right (a, s) ys = (a, sz) # zs" "lseg ?m nxt zs 0" "length ys = length zs + of_bool joins"
    using join_right_mem [OF ly _ b] ok unfolding free_ok_append joins_def sz_def nxt_def by metis
  have fbst: "hs_free_blocks st = length xs + length zs" using fb zs(3) by (auto simp: st_def)
  have zsy: "set zs \<subseteq> set ys" using join_right_shape(5) [of "(a, s)" ys] zs(1) by simp
  have blk: "blk_ok x" if "x \<in> set xs \<or> x \<in> set ys" for x using ok that by (auto simp: free_ok_def)
  have "c \<noteq> a \<and> 16 dvd c" if "(c, t) \<in> set zs" for c t
    using bspec [OF ys, of "(c, t)"] blk [of "(c, t)"] zsy that as by (auto simp: blk_ok_def)
  then have az: "\<forall>(c, t)\<in>set zs. c \<noteq> a \<and> 16 dvd c" by blast
  have "c \<noteq> a \<and> 16 dvd c" if "(c, t) \<in> set xs" for c t
    using bspec [OF xs, of "(c, t)"] blk [of "(c, t)"] that as by (auto simp: blk_ok_def)
  then have ax: "\<forall>(c, t)\<in>set xs. c \<noteq> a \<and> 16 dvd c" by blast
  have ins: "insert_free a s h =
      (if last_addr 0 xs \<noteq> 0 \<and> wadd (last_addr 0 xs) (node_size ?m (last_addr 0 xs)) = a then
         Some (h\<lparr>hp_mem := write_node (last_addr 0 xs) (wadd sz (node_size ?m (last_addr 0 xs))) nxt ?m, hp_stats := st\<rparr>)
       else if last_addr 0 xs \<noteq> 0 then
         Some (h\<lparr>hp_mem := write_next (last_addr 0 xs) a (write_node a sz nxt ?m),
                 hp_stats := st\<lparr>hs_free_blocks := hs_free_blocks st + 1\<rparr>\<rparr>)
       else Some (h\<lparr>hp_mem := write_node a sz nxt ?m, hp_head := a,
                    hp_stats := st\<lparr>hs_free_blocks := hs_free_blocks st + 1\<rparr>\<rparr>))"
    unfolding insert_free_def pos by (simp add: Let_def joins_def sz_def nxt_def st_def)
  have zlow: "\<forall>(e, t)\<in>set zs. a < e" using zsy ys as by fastforce
  show ?thesis
  proof (cases xs rule: rev_cases)
    case Nil
    have "lseg (write_node a sz nxt ?m) a ((a, sz) # zs) 0" using link_front zs(2) az as by blast
    then show ?thesis
      using zs(1) fbst by (simp add: ins Nil insert_blk_def st_def write_node_def)
  next
    case (snoc xs' x)
    obtain c u where x: "x = (c, u)" by fastforce
    have ch: "lseg ?m (hp_head h) (xs' @ [(c, u)]) cur" "free_ok (xs' @ [(c, u)])" "c + u \<le> a" "last_addr 0 xs = c"
      using lx ok xs by (simp_all add: snoc x free_ok_append free_ok_Cons)
    then have c: "c \<noteq> 0" "node_size ?m c = u" "wadd c u = c + u"
      using as by (simp_all add: lseg_append wadd_small)
    have zc: "\<forall>(e, t)\<in>set zs. e \<noteq> a \<and> e \<noteq> c \<and> 16 dvd e" using az zlow ch(3) by fastforce
    show ?thesis
    proof (cases "c + u = a")
      case True
      have "blk_ok (a, sz)"
        using free_ok_join_right [OF b, of ys] ok ys zs(1) by (simp add: free_ok_append free_ok_Cons)
      then have "wadd sz u = sz + u" using True by (auto simp: blk_ok_def wadd_small)
      moreover have "lseg (write_node c (sz + u) nxt ?m) (hp_head h) (xs' @ (c, sz + u) # zs) 0"
        using link_join [OF ch(1,2) zs(2)] zc by fastforce
      ultimately show ?thesis
        using True zs(1) fbst c ch(4)
        by (simp add: ins snoc x insert_blk_def st_def write_node_def)
    next
      case False
      have "lseg (write_next c a (write_node a sz nxt ?m)) (hp_head h) ((xs' @ [(c, u)]) @ (a, sz) # zs) 0"
        using link_after [OF ch(1,2) zs(2) zc] ax as by (simp add: snoc x)
      then show ?thesis
        using False zs(1) fbst c ch(4)
        by (simp add: ins snoc x insert_blk_def st_def write_node_def write_next_def)
    qed
  qed
qed

section \<open>Invariant\<close>

text \<open>
  \<open>bs\<close> are the free blocks in address order, \<open>L\<close> the live allocations with their headers. No two
  blocks overlap and no two free blocks touch; the counters agree with the blocks.
\<close>

definition live_ok :: "heap_mem \<Rightarrow> (nat \<times> nat) set \<Rightarrow> bool" where
  "live_ok m L \<longleftrightarrow> (\<forall>b\<in>L. blk_ok b \<and> 48 \<le> snd b \<and> m (fst b) = fst b \<and> m (fst b + 8) = snd b \<and>
     m (fst b + 16) = MAGIC_LIVE)"

definition blks_apart :: "(nat \<times> nat) set \<Rightarrow> (nat \<times> nat) set \<Rightarrow> bool" where
  "blks_apart L F \<longleftrightarrow> (\<forall>x\<in>L. \<forall>y\<in>L. x \<noteq> y \<longrightarrow> blk_bytes x \<inter> blk_bytes y = {}) \<and>
     (\<Union>x\<in>L. blk_bytes x) \<inter> (\<Union>y\<in>F. blk_bytes y) = {}"

definition heap_core :: "heap \<Rightarrow> (nat \<times> nat) list \<Rightarrow> (nat \<times> nat) set \<Rightarrow> bool" where
  "heap_core h bs L \<longleftrightarrow> lseg (hp_mem h) (hp_head h) bs 0 \<and> free_ok bs \<and> finite L \<and> live_ok (hp_mem h) L \<and>
     blks_apart L (set bs) \<and> hs_free_blocks (hp_stats h) = length bs"

definition heap_inv :: "heap \<Rightarrow> (nat \<times> nat) list \<Rightarrow> (nat \<times> nat) set \<Rightarrow> bool" where
  [nexo_inv]: "heap_inv h bs L \<longleftrightarrow> heap_core h bs L \<and> hs_used_bytes (hp_stats h) = sum snd L \<and>
     hs_total_bytes (hp_stats h) = sum snd L + sum_list (map snd bs)"

definition heap_bytes :: "(nat \<times> nat) list \<Rightarrow> (nat \<times> nat) set \<Rightarrow> nat set" where
  "heap_bytes bs L = (\<Union>x\<in>set bs. blk_bytes x) \<union> (\<Union>x\<in>L. blk_bytes x)"


text \<open>Writes outside the live blocks leave the headers alone.\<close>

lemma live_ok_frame:
  assumes "live_ok m L" and "\<And>x. m' x \<noteq> m x \<Longrightarrow> x \<notin> (\<Union>y\<in>L. blk_bytes y)"
  shows "live_ok m' L"
proof -
  have "m' (fst b + k) = m (fst b + k)" if "b \<in> L" "k < 48" for b k
  proof -
    have "48 \<le> snd b" using assms(1) that by (simp add: live_ok_def)
    then have "fst b + k \<in> blk_bytes b" using that by (simp add: blk_bytes_def)
    then show ?thesis using assms(2) that by blast
  qed
  from this [where k = 0] this [where k = 8] this [where k = 16] show ?thesis
    using assms(1) by (simp add: live_ok_def)
qed

lemma node_words_in_block: "blk_ok b \<Longrightarrow> fst b \<in> blk_bytes b \<and> fst b + 8 \<in> blk_bytes b"
  by (simp add: blk_ok_def blk_bytes_def)

text \<open>An address outside the free blocks splits the list.\<close>

lemma free_list_split:
  assumes "free_ok bs" "blk_ok b" "\<forall>y\<in>set bs. blk_bytes b \<inter> blk_bytes y = {}"
  obtains xs ys where "bs = xs @ ys" "\<forall>x\<in>set xs. fst x + snd x \<le> fst b" "\<forall>y\<in>set ys. fst b + snd b \<le> fst y"
  using assms(1,3)
proof (induction bs arbitrary: thesis)
  case (Cons c bs)
  have pos: "16 \<le> snd b" "16 \<le> snd c" using assms(2) Cons.prems(2) by (simp_all add: blk_ok_def free_ok_Cons)
  have "blk_bytes b \<inter> blk_bytes c = {}" using Cons.prems(3) by simp
  then have d: "fst c + snd c \<le> fst b \<or> fst b + snd b \<le> fst c"
    using pos unfolding blk_bytes_def by (auto simp: disjoint_iff not_less)
  show thesis
  proof (cases "fst c + snd c \<le> fst b")
    case True
    obtain xs ys where "bs = xs @ ys" "\<forall>x\<in>set xs. fst x + snd x \<le> fst b" "\<forall>y\<in>set ys. fst b + snd b \<le> fst y"
      using Cons.IH Cons.prems(2,3) by (auto simp: free_ok_Cons)
    with True show thesis by (intro Cons.prems(1) [of "c # xs" ys]) auto
  next
    case False
    with d have "fst b + snd b \<le> fst c" by simp
    moreover have "\<forall>y\<in>set bs. fst c < fst y" using Cons.prems(2) by (fastforce simp: free_ok_Cons)
    ultimately show thesis by (intro Cons.prems(1) [of "[]" "c # bs"]) auto
  qed
qed simp

lemma insert_free_core:
  assumes core: "heap_core h bs L" and b: "blk_ok b"
    and apart: "\<forall>y\<in>set bs. blk_bytes b \<inter> blk_bytes y = {}" "\<forall>y\<in>L. blk_bytes b \<inter> blk_bytes y = {}"
  obtains h' bs' where "insert_free (fst b) (snd b) h = Some h'" "heap_core h' bs' L"
    "(\<Union>x\<in>set bs'. blk_bytes x) = blk_bytes b \<union> (\<Union>x\<in>set bs. blk_bytes x)"
    "sum_list (map snd bs') = snd b + sum_list (map snd bs)"
    "hp_stats h' = (hp_stats h)\<lparr>hs_free_blocks := length bs'\<rparr>"
    "\<forall>x. hp_mem h' x \<noteq> hp_mem h x \<longrightarrow> x = fst b \<or> x = fst b + 8 \<or> x \<in> (\<Union>y\<in>set bs. blk_bytes y)"
proof -
  obtain xs ys where bs: "bs = xs @ ys" and xy: "\<forall>x\<in>set xs. fst x + snd x \<le> fst b" "\<forall>y\<in>set ys. fst b + snd b \<le> fst y"
    using free_list_split [of bs b] core b apart by (auto simp: heap_core_def)
  have c: "lseg (hp_mem h) (hp_head h) (xs @ ys) 0" "free_ok (xs @ ys)" "live_ok (hp_mem h) L" "finite L"
    "blks_apart L (set (xs @ ys))" "hs_free_blocks (hp_stats h) = length (xs @ ys)"
    using core by (simp_all add: heap_core_def bs)
  have b': "blk_ok (fst b, snd b)" using b by simp
  obtain h' where h': "insert_free (fst b) (snd b) h = Some h'"
    "lseg (hp_mem h') (hp_head h') (insert_blk b xs ys) 0"
    "hp_stats h' = (hp_stats h)\<lparr>hs_free_blocks := length (insert_blk b xs ys)\<rparr>"
    "\<And>x. hp_mem h' x \<noteq> hp_mem h x \<Longrightarrow> x = fst b \<or> x = fst b + 8 \<or> (\<exists>y\<in>set xs. x = fst y \<or> x = fst y + 8)"
    using insert_free_refines [OF c(1,2) b' xy c(6)] by auto
  have "blk_ok y" if "y \<in> set xs" for y using c(2) that by (simp add: free_ok_def)
  then have ch: "x = fst b \<or> x = fst b + 8 \<or> x \<in> (\<Union>y\<in>set bs. blk_bytes y)" if "hp_mem h' x \<noteq> hp_mem h x" for x
    using h'(4) [OF that] node_words_in_block bs by fastforce
  have live: "live_ok (hp_mem h') L"
  proof (rule live_ok_frame [OF c(3)])
    fix x assume "hp_mem h' x \<noteq> hp_mem h x"
    then have "x \<in> blk_bytes b \<or> x \<in> (\<Union>y\<in>set bs. blk_bytes y)" using ch node_words_in_block [OF b] by blast
    then show "x \<notin> (\<Union>y\<in>L. blk_bytes y)" using apart(2) c(5) bs by (auto simp: blks_apart_def)
  qed
  note sh = insert_blk_shape [of b xs ys]
  have "blks_apart L (set (insert_blk b xs ys))"
    using c(5) apart(2) unfolding blks_apart_def sh(1) by blast
  then have core': "heap_core h' (insert_blk b xs ys) L"
    using h' live free_ok_insert_blk [OF b c(2) xy] c(4) by (simp add: heap_core_def)
  show thesis by (rule that [OF h'(1) core']) (use sh h'(3) ch bs in auto)
qed

section \<open>Extending and freeing\<close>



lemma heap_deallocate_live:
  assumes inv: "heap_inv h bs L" and b: "b \<in> L"
  obtains h' bs' where "heap_deallocate (fst b + 32) h = Some (Ok h')" "heap_inv h' bs' (L - {b})"
    "heap_bytes bs' (L - {b}) = heap_bytes bs L"
    "(\<Union>x\<in>set bs'. blk_bytes x) = blk_bytes b \<union> (\<Union>x\<in>set bs. blk_bytes x)"
    "hp_mem h' (fst b + 16) = MAGIC_FREED"
proof -
  let ?m = "hp_mem h"
  have core: "heap_core h bs L" using inv by (simp add: heap_inv_def)
  then have ok: "blk_ok b" "48 \<le> snd b" "?m (fst b) = fst b" "?m (fst b + 8) = snd b" "?m (fst b + 16) = MAGIC_LIVE"
    using b by (simp_all add: heap_core_def live_ok_def)
  have ap: "\<forall>y\<in>set bs. blk_bytes b \<inter> blk_bytes y = {}" "\<forall>y\<in>L - {b}. blk_bytes b \<inter> blk_bytes y = {}"
    using core b unfolding heap_core_def blks_apart_def by blast+
  have in16: "fst b + 16 \<in> blk_bytes b" using ok by (simp add: blk_bytes_def)
  define st where "st = hp_stats h"
  define h1 where "h1 = h\<lparr>hp_mem := ?m(fst b + 16 := MAGIC_FREED),
      hp_stats := st\<lparr>hs_used_bytes := hs_used_bytes st - snd b, hs_frees := hs_frees st + 1\<rparr>\<rparr>"
  have m1: "hp_mem h1 = ?m(fst b + 16 := MAGIC_FREED)" "hp_head h1 = hp_head h" by (simp_all add: h1_def)
  have "lseg (hp_mem h1) (hp_head h) bs 0 = lseg ?m (hp_head h) bs 0"
    unfolding m1
  proof (rule lseg_cong)
    fix a s assume y: "(a, s) \<in> set bs"
    then have "blk_ok (a, s)" using core by (simp add: heap_core_def free_ok_def)
    then have "a \<in> blk_bytes (a, s)" "a + 8 \<in> blk_bytes (a, s)" using node_words_in_block [of "(a, s)"] by simp_all
    then have "a \<noteq> fst b + 16" "a + 8 \<noteq> fst b + 16" using ap(1) y in16 by (metis disjoint_iff)+
    then show "(?m(fst b + 16 := MAGIC_FREED)) a = ?m a \<and> (?m(fst b + 16 := MAGIC_FREED)) (a + 8) = ?m (a + 8)" by simp
  qed
  moreover have "live_ok (hp_mem h1) (L - {b})"
  proof (rule live_ok_frame [of ?m])
    show "live_ok ?m (L - {b})" using core by (simp add: heap_core_def live_ok_def)
    fix x assume "hp_mem h1 x \<noteq> ?m x"
    then have "x = fst b + 16" by (auto simp: h1_def split: if_splits)
    then show "x \<notin> (\<Union>y\<in>L - {b}. blk_bytes y)" using in16 ap(2) by blast
  qed
  moreover have "blks_apart (L - {b}) (set bs)" using core unfolding heap_core_def blks_apart_def by blast
  ultimately have core1: "heap_core h1 bs (L - {b})"
    using core by (simp add: heap_core_def h1_def st_def)
  obtain h' bs' where h': "insert_free (fst b) (snd b) h1 = Some h'" "heap_core h' bs' (L - {b})"
    "(\<Union>x\<in>set bs'. blk_bytes x) = blk_bytes b \<union> (\<Union>x\<in>set bs. blk_bytes x)"
    "sum_list (map snd bs') = snd b + sum_list (map snd bs)"
    "hp_stats h' = (hp_stats h1)\<lparr>hs_free_blocks := length bs'\<rparr>"
    "\<forall>x. hp_mem h' x \<noteq> hp_mem h1 x \<longrightarrow> x = fst b \<or> x = fst b + 8 \<or> x \<in> (\<Union>y\<in>set bs. blk_bytes y)"
    by (rule insert_free_core [OF core1 ok(1) ap])
  show thesis
  proof (rule that)
    show "heap_deallocate (fst b + 32) h = Some (Ok h')"
      using ok h'(1) by (simp add: heap_deallocate_def Let_def nexo_const wsub_small blk_ok_def h1_def st_def)
    have "finite L" using core by (simp add: heap_core_def)
    then have "sum snd L = snd b + sum snd (L - {b})" using b by (simp add: sum.remove)
    then show "heap_inv h' bs' (L - {b})"
      using inv h' by (simp add: heap_inv_def h1_def st_def)
    show "heap_bytes bs' (L - {b}) = heap_bytes bs L" unfolding heap_bytes_def h'(3) using b by blast
    have "hp_mem h' (fst b + 16) = hp_mem h1 (fst b + 16)" using h'(6) in16 ap(1) by fastforce
    then show "hp_mem h' (fst b + 16) = MAGIC_FREED" by (simp add: h1_def)
  qed (rule h'(3))
qed

section \<open>Allocating\<close>

lemma heap_place_eq:
  assumes "16 dvd b" "16 dvd align" "0 < align" "b + 32 + align < 2 ^ 64"
  obtains gap where "heap_place b align = (b + gap + 32, gap)" "align dvd b + gap + 32" "16 dvd gap" "gap < align"
proof -
  let ?p = "heap_align_up (b + 32) align"
  have p: "align dvd ?p" "b + 32 \<le> ?p" "?p < b + 32 + align"
    using heap_align_up_props [of align "b + 32"] assms by simp_all
  define gap where "gap = ?p - 32 - b"
  have pg: "?p = b + gap + 32" "gap < align" using p by (simp_all add: gap_def)
  have w: "wadd b 32 = b + 32" "wsub (wsub ?p 32) b = gap"
    using assms p by (simp_all add: wadd_small wsub_small gap_def)
  have "16 dvd ?p" using assms(2) p(1) by (rule dvd_trans)
  then have d: "16 dvd gap" using assms(1) by (simp add: pg(1) dvd_add_right_iff dvd_add_left_iff)
  then have "\<not> (gap \<noteq> 0 \<and> gap < 16)" by (auto dest: dvd_imp_le)
  then have "heap_place b align = (?p, gap)" by (auto simp add: heap_place_def w nexo_const Let_def)
  then show thesis using that [of gap] pg p(1) d by simp
qed

text \<open>Does the allocation fit into the block?\<close>

definition fits :: "nat \<Rightarrow> nat \<Rightarrow> nat \<times> nat \<Rightarrow> bool" where
  "fits align n b \<longleftrightarrow> wadd (fst (heap_place (fst b) align)) n \<le> wadd (fst b) (snd b)"

lemma allocate_loop_lseg:
  assumes "lseg (hp_mem h) cur bs 0"
  shows "allocate_loop h align n pv cur =
    (case dropWhile (\<lambda>b. \<not> fits align n b) bs of
       [] \<Rightarrow> Some (None, h\<lparr>hp_stats := (hp_stats h)\<lparr>hs_failures := hs_failures (hp_stats h) + 1\<rparr>\<rparr>)
     | b # _ \<Rightarrow> Some (Some (fst (heap_place (fst b) align)),
         heap_take (last_addr pv (takeWhile (\<lambda>b. \<not> fits align n b) bs)) (fst b)
           (fst (heap_place (fst b) align)) (snd (heap_place (fst b) align)) n h))"
  using assms
proof (induction bs arbitrary: cur pv)
  case Nil
  then show ?case by (simp add: allocate_loop.simps [of h align n pv 0])
next
  case (Cons b bs)
  obtain a s where b: "b = (a, s)" by fastforce
  have a: "cur = a" "a \<noteq> 0" "node_size (hp_mem h) a = s" "lseg (hp_mem h) (node_next (hp_mem h) a) bs 0"
    using Cons.prems by (auto simp: b)
  obtain p g where p: "heap_place a align = (p, g)" by fastforce
  have f: "fits align n (a, s) \<longleftrightarrow> wadd p n \<le> wadd a s" by (simp add: fits_def p)
  show ?case
    unfolding b a(1) using Cons.IH [OF a(4), of a] a
    by (cases "fits align n (a, s)"; cases "dropWhile (\<lambda>b. \<not> fits align n b) bs")
       (simp_all add: allocate_loop.simps [of h align n pv a] p f del: dropWhile_eq_Nil_conv)
qed

text \<open>The memory and the head after \<open>heap_take\<close>, when nothing wraps around.\<close>

definition take_mem :: "heap_mem \<Rightarrow> nat \<Rightarrow> nat \<Rightarrow> nat \<Rightarrow> nat \<Rightarrow> nat \<Rightarrow> nat \<times> heap_mem" where
  "take_mem m prev b gap n rest =
     (let e = b + gap + 32 + n;
          m1 = (if rest \<noteq> 0 then write_node e rest (node_next m b) m else m);
          r1 = (if rest \<noteq> 0 then e else node_next m b);
          m2 = (if gap \<noteq> 0 then write_node b gap r1 m1 else m1);
          r2 = (if gap \<noteq> 0 then b else r1);
          m3 = (if prev \<noteq> 0 then write_next prev r2 m2 else m2)
      in (r2, write_header (b + gap) (32 + n) m3))"

lemma heap_take_eq:
  assumes t: "node_size (hp_mem h) b = gap + 32 + n + rest" and d: "16 dvd rest"
    and sm: "b + gap + 32 + n + rest < 2 ^ 64"
  shows "heap_take prev b (b + gap + 32) gap n h =
    \<lparr>hp_mem = snd (take_mem (hp_mem h) prev b gap n rest),
     hp_head = (if prev \<noteq> 0 then hp_head h else fst (take_mem (hp_mem h) prev b gap n rest)),
     hp_stats = (hp_stats h)\<lparr>
       hs_free_blocks := hs_free_blocks (hp_stats h) + of_bool (rest \<noteq> 0) + of_bool (gap \<noteq> 0) - 1,
       hs_used_bytes := hs_used_bytes (hp_stats h) + (32 + n),
       hs_peak_bytes := max (hs_peak_bytes (hp_stats h)) (hs_used_bytes (hp_stats h) + (32 + n)),
       hs_allocations := hs_allocations (hp_stats h) + 1\<rparr>\<rparr>"
proof -
  have w: "wadd b (gap + 32 + n + rest) = b + gap + 32 + n + rest" "wadd (b + gap + 32) n = b + gap + 32 + n"
    "wsub (b + gap + 32) 32 = b + gap" "wsub (b + gap + 32 + n) (b + gap) = 32 + n"
    using sm by (simp_all add: wadd_small wsub_small)
  have r: "rest < 16 \<longleftrightarrow> rest = 0" using d by (auto dest: dvd_imp_le)
  have d: "b + gap + 32 + n + rest - (b + gap + 32 + n) = rest" by simp
  show ?thesis
    unfolding heap_take_def heap_consts Let_def t w d r by (cases "rest = 0") (simp_all add: take_mem_def Let_def w)
qed

text \<open>The pieces of a block that stay free.\<close>

definition remains :: "nat \<Rightarrow> nat \<Rightarrow> nat \<Rightarrow> nat \<Rightarrow> (nat \<times> nat) list" where
  "remains b gap n rest =
     (if gap \<noteq> 0 then [(b, gap)] else []) @ (if rest \<noteq> 0 then [(b + gap + 32 + n, rest)] else [])"

lemma free_ok_remains:
  assumes "free_ok (xs @ (b, gap + 32 + n + rest) # ys)" "16 dvd gap" "16 dvd n" "16 dvd rest"
  shows "free_ok (xs @ remains b gap n rest @ ys)"
proof -
  have "16 \<le> gap" if "gap \<noteq> 0" using that assms(2) by (auto dest: dvd_imp_le)
  moreover have "16 \<le> rest" if "rest \<noteq> 0" using that assms(4) by (auto dest: dvd_imp_le)
  ultimately show ?thesis
    using assms unfolding remains_def free_ok_append free_ok_Cons by (auto simp: blk_ok_def free_ok_Cons)
qed

lemma write_header_other: "x < a \<or> a + 32 \<le> x \<Longrightarrow> write_header a s m x = m x"
  by (auto simp: write_header_def)

lemma lseg_write_header:
  assumes "lseg m p xs q" "\<forall>(c, t)\<in>set xs. c + 16 \<le> a \<or> a + 32 \<le> c"
  shows "lseg (write_header a s m) p xs q"
proof -
  have "lseg (write_header a s m) p xs q = lseg m p xs q"
  proof (rule lseg_cong)
    fix c t assume "(c, t) \<in> set xs"
    then have "c + 16 \<le> a \<or> a + 32 \<le> c" using assms(2) by blast
    then show "write_header a s m c = m c \<and> write_header a s m (c + 8) = m (c + 8)"
      by (auto simp: write_header_other)
  qed
  with assms(1) show ?thesis by simp
qed

lemma take_mem_remains:
  assumes m: "lseg m (node_next m b) ys 0" and b: "16 dvd b" "b \<noteq> 0" "16 dvd gap" "16 dvd n" "16 dvd rest"
    and ys: "\<forall>(c, t)\<in>set ys. b + gap + 32 + n + rest < c \<and> 16 dvd c"
  defines "e \<equiv> b + gap + 32 + n"
  defines "m1 \<equiv> (if rest \<noteq> 0 then write_node e rest (node_next m b) m else m)"
  defines "r1 \<equiv> (if rest \<noteq> 0 then e else node_next m b)"
  shows "lseg (if gap \<noteq> 0 then write_node b gap r1 m1 else m1) (if gap \<noteq> 0 then b else r1)
    (remains b gap n rest @ ys) 0"
proof -
  have e: "16 dvd e" "e \<noteq> 0" using b by (simp_all add: e_def)
  have "\<forall>(c, t)\<in>set ys. c \<noteq> e \<and> 16 dvd c" using ys by (auto simp: e_def)
  then have 1: "lseg m1 r1 ((if rest \<noteq> 0 then [(e, rest)] else []) @ ys) 0"
    using link_front [OF m _ e] m by (simp add: m1_def r1_def)
  moreover have "\<forall>(c, t)\<in>set ((if rest \<noteq> 0 then [(e, rest)] else []) @ ys). c \<noteq> b \<and> 16 dvd c"
    using ys e by (auto simp: e_def)
  ultimately show ?thesis
    using link_front [OF 1 _ b(1,2), of gap] by (auto simp: remains_def e_def)
qed

lemma take_mem_lseg:
  assumes l: "lseg m head (xs @ (b, gap + 32 + n + rest) # ys) 0"
    and ok: "free_ok (xs @ (b, gap + 32 + n + rest) # ys)"
    and d: "16 dvd gap" "16 dvd n" "16 dvd rest"
  shows "lseg (snd (take_mem m (last_addr 0 xs) b gap n rest))
    (if last_addr 0 xs \<noteq> 0 then head else fst (take_mem m (last_addr 0 xs) b gap n rest))
    (xs @ remains b gap n rest @ ys) 0"
proof -
  define e where "e = b + gap + 32 + n"
  define m1 where "m1 = (if rest \<noteq> 0 then write_node e rest (node_next m b) m else m)"
  define r1 where "r1 = (if rest \<noteq> 0 then e else node_next m b)"
  define m2 where "m2 = (if gap \<noteq> 0 then write_node b gap r1 m1 else m1)"
  define r2 where "r2 = (if gap \<noteq> 0 then b else r1)"
  define m3 where "m3 = (if last_addr 0 xs \<noteq> 0 then write_next (last_addr 0 xs) r2 m2 else m2)"
  have tm: "take_mem m (last_addr 0 xs) b gap n rest = (r2, write_header (b + gap) (32 + n) m3)"
    by (simp add: take_mem_def Let_def e_def m1_def r1_def m2_def r2_def m3_def)
  have b: "16 dvd b" "b \<noteq> 0" "lseg m head xs b" "lseg m (node_next m b) ys 0" "16 dvd e" "b \<le> e"
    using l ok d by (auto simp: lseg_append free_ok_def blk_ok_def e_def)
  have ys: "b + gap + 32 + n + rest < fst c" "16 dvd fst c" if "c \<in> set ys" for c
    using ok that by (auto simp: free_ok_def sorted_wrt_append blk_ok_def)
  have xs: "fst c + 16 \<le> b" "16 dvd fst c" "fst c \<noteq> 0" if "c \<in> set xs" for c
  proof -
    have "blk_ok c" "fst c + snd c < b" using ok that by (auto simp: free_ok_def sorted_wrt_append)
    then show "fst c + 16 \<le> b" "16 dvd fst c" "fst c \<noteq> 0" by (auto simp: blk_ok_def)
  qed
  have R: "lseg m2 r2 (remains b gap n rest @ ys) 0"
    using take_mem_remains [OF b(4) b(1,2) d] ys unfolding m2_def r2_def r1_def m1_def e_def by fastforce
  have nx: "\<forall>(c, t)\<in>set xs. c \<noteq> e \<and> 16 dvd c" "\<forall>(c, t)\<in>set xs. c \<noteq> b \<and> 16 dvd c"
    using xs b(6) by fastforce+
  have "lseg m1 head xs b" using lseg_write_node [OF b(3,5) nx(1)] b(3) by (simp add: m1_def)
  then have X: "lseg m2 head xs b" using lseg_write_node [OF _ b(1) nx(2)] by (simp add: m2_def)
  have "gap \<noteq> 0 \<Longrightarrow> 16 \<le> gap" using d(1) by (auto dest: dvd_imp_le)
  then have rem: "fst c + 16 \<le> b + gap \<or> b + gap + 32 \<le> fst c" "b \<le> fst c" "16 dvd fst c"
    if "c \<in> set (remains b gap n rest @ ys)" for c
    using that ys [of c] b(1,5) by (auto simp: remains_def e_def split: if_splits)
  have "lseg m3 (if last_addr 0 xs \<noteq> 0 then head else r2) (xs @ remains b gap n rest @ ys) 0"
  proof (cases xs rule: rev_cases)
    case Nil
    then show ?thesis using R by (simp add: m3_def)
  next
    case (snoc xs' x)
    obtain c u where x: "x = (c, u)" by fastforce
    have c: "c + 16 \<le> b" "16 dvd c" "c \<noteq> 0" using xs [of x] by (simp_all add: snoc x)
    have "free_ok (xs' @ [(c, u)])" using ok by (simp add: snoc x free_ok_append free_ok_Cons)
    then have "lseg (write_next c r2 m2) head xs r2" using lseg_write_next_last X by (simp add: snoc x)
    moreover have "\<forall>(a, t)\<in>set (remains b gap n rest @ ys). a \<noteq> c \<and> 16 dvd a" using rem c by fastforce
    then have "lseg (write_next c r2 m2) r2 (remains b gap n rest @ ys) 0" using lseg_write_next_other R c(2) by blast
    ultimately show ?thesis using c(3) by (auto simp: m3_def snoc x lseg_append)
  qed
  moreover have "c + 16 \<le> b + gap \<or> b + gap + 32 \<le> c" if "(c, t) \<in> set (xs @ remains b gap n rest @ ys)" for c t
    using that xs(1) [of "(c, t)"] rem(1) [of "(c, t)"] by auto
  then have "\<forall>(c, t)\<in>set (xs @ remains b gap n rest @ ys). c + 16 \<le> b + gap \<or> b + gap + 32 \<le> c" by blast
  ultimately show ?thesis unfolding tm fst_conv snd_conv by (rule lseg_write_header)
qed

lemma take_mem_changes:
  assumes "snd (take_mem m prev b gap n rest) x \<noteq> m x" "gap = 0 \<or> 16 \<le> gap" "rest = 0 \<or> 16 \<le> rest"
  shows "x \<in> {b..<b + (gap + 32 + n + rest)} \<or> (prev \<noteq> 0 \<and> x = prev + 8)"
  using assms
  by (auto simp: take_mem_def Let_def write_header_def write_node_def write_next_def split: if_splits)

lemma take_mem_header:
  "snd (take_mem m prev b gap n rest) (b + gap) = b + gap"
  "snd (take_mem m prev b gap n rest) (b + gap + 8) = 32 + n"
  "snd (take_mem m prev b gap n rest) (b + gap + 16) = MAGIC_LIVE"
  by (simp_all add: take_mem_def Let_def write_header_def)

lemma remains_shape:
  "(\<Union>x\<in>set (remains b gap n rest). blk_bytes x) \<union> blk_bytes (b + gap, 32 + n) = blk_bytes (b, gap + 32 + n + rest)"
  "(\<Union>x\<in>set (remains b gap n rest). blk_bytes x) \<inter> blk_bytes (b + gap, 32 + n) = {}"
  "sum_list (map snd (remains b gap n rest)) = gap + rest"
  "length (remains b gap n rest) = of_bool (gap \<noteq> 0) + of_bool (rest \<noteq> 0)"
  by (auto simp: remains_def blk_bytes_def)

lemma free_ok_apart:
  assumes "free_ok (xs @ b # ys)" "x \<in> set xs \<union> set ys"
  shows "blk_bytes b \<inter> blk_bytes x = {}"
proof -
  have "fst x + snd x < fst b \<or> fst b + snd b < fst x" using assms by (auto simp: free_ok_append free_ok_Cons)
  then show ?thesis by (auto simp: blk_bytes_def)
qed

lemma take_mem_live:
  assumes live: "live_ok m L" and ok: "free_ok (xs @ (b, gap + 32 + n + rest) # ys)"
    and ap: "(\<Union>x\<in>L. blk_bytes x) \<inter> (\<Union>x\<in>set (xs @ (b, gap + 32 + n + rest) # ys). blk_bytes x) = {}"
    and d: "16 dvd gap" "16 dvd n" "16 dvd rest" and n: "16 \<le> n"
  shows "live_ok (snd (take_mem m (last_addr 0 xs) b gap n rest)) (insert (b + gap, 32 + n) L)"
proof -
  let ?F = "\<Union>x\<in>set (xs @ (b, gap + 32 + n + rest) # ys). blk_bytes x"
  have "live_ok (snd (take_mem m (last_addr 0 xs) b gap n rest)) L"
  proof (rule live_ok_frame [OF live])
    fix x assume c: "snd (take_mem m (last_addr 0 xs) b gap n rest) x \<noteq> m x"
    have "x \<in> {b..<b + (gap + 32 + n + rest)} \<or> (last_addr 0 xs \<noteq> 0 \<and> x = last_addr 0 xs + 8)"
      using d by (intro take_mem_changes [OF c]) (auto dest: dvd_imp_le)
    moreover have "last_addr 0 xs + 8 \<in> ?F" if "last_addr 0 xs \<noteq> 0"
      using that ok node_words_in_block by (cases xs rule: rev_cases) (fastforce simp: free_ok_def last_addr_def)+
    moreover have "{b..<b + (gap + 32 + n + rest)} \<subseteq> ?F"
      by (rule UN_upper [of "(b, gap + 32 + n + rest)" _ blk_bytes, unfolded blk_bytes_def fst_conv snd_conv, folded blk_bytes_def]) simp
    ultimately show "x \<notin> (\<Union>y\<in>L. blk_bytes y)" using ap by blast
  qed
  moreover have "blk_ok (b + gap, 32 + n)" using ok d n by (auto simp: free_ok_append free_ok_Cons blk_ok_def)
  ultimately show ?thesis
    using take_mem_header [of m "last_addr 0 xs" b gap n rest] n by (simp add: live_ok_def)
qed

lemma heap_take_inv:
  assumes inv: "heap_inv h (xs @ (b, gap + 32 + n + rest) # ys) L"
    and d: "16 dvd gap" "16 dvd n" "16 dvd rest" and n: "16 \<le> n"
  defines "new \<equiv> (b + gap, 32 + n)"
  shows "heap_inv (heap_take (last_addr 0 xs) b (b + gap + 32) gap n h) (xs @ remains b gap n rest @ ys) (insert new L)"
    and "heap_bytes (xs @ remains b gap n rest @ ys) (insert new L) = heap_bytes (xs @ (b, gap + 32 + n + rest) # ys) L"
    and "new \<notin> L" and "blk_bytes new \<subseteq> blk_bytes (b, gap + 32 + n + rest)"
proof -
  let ?bs = "xs @ (b, gap + 32 + n + rest) # ys" and ?rs = "xs @ remains b gap n rest @ ys"
  have core: "lseg (hp_mem h) (hp_head h) ?bs 0" "free_ok ?bs" "finite L" "live_ok (hp_mem h) L" "blks_apart L (set ?bs)"
    "hs_free_blocks (hp_stats h) = length ?bs"
    using inv by (simp_all add: heap_inv_def heap_core_def)
  have b: "blk_ok (b, gap + 32 + n + rest)" using core(2) by (simp add: free_ok_append free_ok_Cons)
  note rs = remains_shape [of b gap n rest]
  show sub: "blk_bytes new \<subseteq> blk_bytes (b, gap + 32 + n + rest)" using rs(1) by (auto simp: new_def)
  have ap: "(\<Union>x\<in>L. blk_bytes x) \<inter> (\<Union>x\<in>set ?bs. blk_bytes x) = {}" using core(5) by (simp add: blks_apart_def)
  then have apn: "blk_bytes new \<inter> (\<Union>x\<in>L. blk_bytes x) = {}" using sub by fastforce
  have "blk_bytes new \<noteq> {}" by (simp add: new_def blk_bytes_def)
  then show nl: "new \<notin> L" using apn by blast
  show eq: "heap_bytes ?rs (insert new L) = heap_bytes ?bs L"
    using rs(1) unfolding heap_bytes_def by (auto simp: new_def)
  have rsub: "(\<Union>x\<in>set ?rs. blk_bytes x) \<subseteq> (\<Union>x\<in>set ?bs. blk_bytes x)" using rs(1) by auto
  have "blk_bytes new \<inter> (\<Union>x\<in>set ?rs. blk_bytes x) = {}"
    using rs(2) sub free_ok_apart [OF core(2)] by (fastforce simp: new_def)
  moreover have "(\<Union>x\<in>L. blk_bytes x) \<inter> (\<Union>x\<in>set ?rs. blk_bytes x) = {}" using ap rsub by blast
  moreover have "\<forall>x\<in>L. blk_bytes new \<inter> blk_bytes x = {} \<and> blk_bytes x \<inter> blk_bytes new = {}" using apn by blast
  ultimately have apart: "blks_apart (insert new L) (set ?rs)"
    using core(5) unfolding blks_apart_def by (simp add: Int_Un_distrib2)
  have h': "heap_take (last_addr 0 xs) b (b + gap + 32) gap n h =
    \<lparr>hp_mem = snd (take_mem (hp_mem h) (last_addr 0 xs) b gap n rest),
     hp_head = (if last_addr 0 xs \<noteq> 0 then hp_head h else fst (take_mem (hp_mem h) (last_addr 0 xs) b gap n rest)),
     hp_stats = (hp_stats h)\<lparr>
       hs_free_blocks := hs_free_blocks (hp_stats h) + of_bool (rest \<noteq> 0) + of_bool (gap \<noteq> 0) - 1,
       hs_used_bytes := hs_used_bytes (hp_stats h) + (32 + n),
       hs_peak_bytes := max (hs_peak_bytes (hp_stats h)) (hs_used_bytes (hp_stats h) + (32 + n)),
       hs_allocations := hs_allocations (hp_stats h) + 1\<rparr>\<rparr>"
    using core(1) b d by (intro heap_take_eq) (auto simp: lseg_append blk_ok_def)
  have "sum snd (insert new L) = 32 + n + sum snd L" using core(3) nl by (simp add: new_def)
  then show "heap_inv (heap_take (last_addr 0 xs) b (b + gap + 32) gap n h) ?rs (insert new L)"
    using inv take_mem_lseg [OF core(1,2) d] take_mem_live [OF core(4,2) ap d n] free_ok_remains [OF core(2) d]
      apart core(3,6) rs(3,4)
    unfolding heap_inv_def heap_core_def h' by (simp add: new_def)
qed

lemma heap_take_at:
  assumes inv: "heap_inv h (xs @ b # ys) L" and d: "16 dvd gap" "16 dvd n" "16 \<le> n" and le: "gap + 32 + n \<le> snd b"
  defines "h' \<equiv> heap_take (last_addr 0 xs) (fst b) (fst b + gap + 32) gap n h" and "new \<equiv> (fst b + gap, 32 + n)"
  obtains bs' where "heap_inv h' bs' (insert new L)" "heap_bytes bs' (insert new L) = heap_bytes (xs @ b # ys) L" "new \<notin> L" "blk_bytes new \<subseteq> blk_bytes b"
proof -
  define rest where "rest = snd b - (gap + 32 + n)"
  have b: "b = (fst b, gap + 32 + n + rest)" using le by (simp add: rest_def prod_eq_iff)
  have "16 dvd snd b" using inv by (simp add: heap_inv_def heap_core_def free_ok_def blk_ok_def)
  then have "16 dvd rest" using d(1,2) by (simp add: rest_def)
  moreover have "heap_inv h (xs @ (fst b, gap + 32 + n + rest) # ys) L" using inv b by simp
  ultimately show thesis using that heap_take_inv [OF _ d(1,2) _ d(3)] b unfolding h'_def new_def by metis
qed

text \<open>Layout sizes and alignments as \<^verbatim>\<open>allocate\<close> rounds them.\<close>

lemma layout_rounding:
  assumes "lalign = 2 ^ k" "lsize + lalign + 64 < 2 ^ 64"
  shows "16 dvd max lalign MIN_ALIGN" "lalign dvd max lalign MIN_ALIGN" "0 < max lalign MIN_ALIGN"
    "16 dvd heap_align_up (max lsize 1) MIN_ALIGN" "16 \<le> heap_align_up (max lsize 1) MIN_ALIGN"
    "lsize \<le> heap_align_up (max lsize 1) MIN_ALIGN" "heap_align_up (max lsize 1) MIN_ALIGN \<le> lsize + 16"
proof -
  have "16 dvd lalign \<or> lalign dvd 16 \<and> lalign \<le> 16"
  proof (cases "4 \<le> k")
    case True
    then show ?thesis using le_imp_power_dvd [of 4 k "2::nat"] assms(1) by simp
  next
    case False
    then have "(2::nat) ^ k dvd 2 ^ 4" by (intro le_imp_power_dvd) simp
    then show ?thesis using assms(1) by (auto dest: dvd_imp_le)
  qed
  moreover have "0 < lalign" using assms(1) by simp
  ultimately show "16 dvd max lalign MIN_ALIGN" "lalign dvd max lalign MIN_ALIGN" "0 < max lalign MIN_ALIGN"
    by (auto simp: MIN_ALIGN_def max_def dest: dvd_imp_le)
  have "max lsize 1 + 16 < 2 ^ 64" using assms(2) by simp
  note p = heap_align_up_props [of 16 "max lsize 1", OF _ this]
  show d: "16 dvd heap_align_up (max lsize 1) MIN_ALIGN" using p(1) by (simp add: MIN_ALIGN_def)
  show "lsize \<le> heap_align_up (max lsize 1) MIN_ALIGN" "heap_align_up (max lsize 1) MIN_ALIGN \<le> lsize + 16"
    using p(2,3) by (simp_all add: MIN_ALIGN_def)
  have "heap_align_up (max lsize 1) MIN_ALIGN \<noteq> 0" using p(2) by (simp add: MIN_ALIGN_def)
  then show "16 \<le> heap_align_up (max lsize 1) MIN_ALIGN" using d by (auto dest: dvd_imp_le)
qed

lemma fits_iff:
  assumes "blk_ok b" "16 dvd align" "0 < align" "fst b + snd b + align + n + 32 < 2 ^ 64"
  shows "\<exists>gap. heap_place (fst b) align = (fst b + gap + 32, gap) \<and> align dvd fst b + gap + 32 \<and>
    16 dvd gap \<and> gap < align \<and> (fits align n b \<longleftrightarrow> gap + 32 + n \<le> snd b)"
proof -
  obtain gap where g: "heap_place (fst b) align = (fst b + gap + 32, gap)" "align dvd fst b + gap + 32" "16 dvd gap" "gap < align"
    by (rule heap_place_eq [of "fst b" align]) (use assms in \<open>auto simp: blk_ok_def\<close>)
  have "fits align n b \<longleftrightarrow> gap + 32 + n \<le> snd b"
    using assms g by (auto simp: fits_def wadd_small blk_ok_def)
  with g show ?thesis by blast
qed

text \<open>
  Where a request may go in a free block, said without the rounding of the code: at an aligned address that leaves room for the
  header before it and for the requested bytes, at least one, after it.
\<close>

definition places :: "nat \<Rightarrow> nat \<Rightarrow> nat \<times> nat \<Rightarrow> nat \<Rightarrow> bool" where
  "places lsize lalign b ptr \<longleftrightarrow>
     lalign dvd ptr \<and> MIN_ALIGN dvd ptr \<and> fst b + HEADER_SIZE \<le> ptr \<and> ptr + max lsize 1 \<le> fst b + snd b"

lemma dvd_between:
  fixes a p q :: nat
  assumes "a dvd p" "a dvd q" "p < q + a"
  shows "p \<le> q"
proof (rule ccontr)
  assume "\<not> p \<le> q"
  moreover have "a dvd p - q" using assms(1,2) by (rule dvd_diff_nat)
  ultimately have "a \<le> p - q" by (intro dvd_imp_le) simp_all
  then show False using assms(3) \<open>\<not> p \<le> q\<close> by linarith
qed

lemma max_align_dvd:
  assumes "lalign = 2 ^ k"
  shows "max lalign MIN_ALIGN dvd q \<longleftrightarrow> lalign dvd q \<and> MIN_ALIGN dvd q"
proof -
  have d: "lalign dvd 2 ^ 4 \<or> 2 ^ 4 dvd lalign" unfolding assms using le_imp_power_dvd [of _ _ "2 :: nat"] nat_le_linear by blast
  have "0 < lalign" using assms by simp
  then show ?thesis using d dvd_imp_le [of lalign 16] dvd_imp_le [of 16 lalign] by (auto simp: MIN_ALIGN_def max_def intro: dvd_trans)
qed

text \<open>The test of the walk decides whether there is a place, and the pointer it computes is the first one.\<close>

lemma fits_places:
  assumes b: "blk_ok b" and align: "lalign = 2 ^ k" and room: "fst b + snd b + lsize + lalign + 64 < 2 ^ 64"
  defines "a \<equiv> max lalign MIN_ALIGN" and "n \<equiv> heap_align_up (max lsize 1) MIN_ALIGN"
  shows "\<exists>gap. heap_place (fst b) a = (fst b + gap + 32, gap) \<and> 16 dvd gap \<and> (fits a n b \<longleftrightarrow> gap + 32 + n \<le> snd b) \<and>
    (\<forall>q. places lsize lalign b q \<longrightarrow> fst b + gap + 32 \<le> q \<and> fits a n b) \<and> (fits a n b \<longrightarrow> places lsize lalign b (fst b + gap + 32))"
proof -
  have sz: "lsize + lalign + 64 < 2 ^ 64" using room by simp
  have n: "16 dvd a" "0 < a" "16 dvd n" using layout_rounding [OF align sz] by (simp_all add: a_def n_def)
  have nn: "max lsize 1 \<le> n" "n < max lsize 1 + 16" using heap_align_up_props [of 16 "max lsize 1"] room by (simp_all add: n_def MIN_ALIGN_def)
  have an: "a \<le> lalign + 16" by (simp add: a_def MIN_ALIGN_def)
  have "fst b + snd b + a + n + 32 < 2 ^ 64" using room an nn(2) by simp
  then obtain gap where g: "heap_place (fst b) a = (fst b + gap + 32, gap)" "a dvd fst b + gap + 32" "16 dvd gap" "gap < a"
    "fits a n b \<longleftrightarrow> gap + 32 + n \<le> snd b" using fits_iff [OF b n(1,2)] by blast
  note dvd = max_align_dvd [OF align, folded a_def]
  have p16: "16 dvd fst b + gap + 32" "16 dvd fst b + snd b" using b g(3) by (auto simp: blk_ok_def)
  have least: "fst b + gap + 32 \<le> q \<and> gap + 32 + n \<le> snd b" if q: "places lsize lalign b q" for q
  proof
    show le: "fst b + gap + 32 \<le> q" using q dvd g(2,4) by (intro dvd_between [of a]) (auto simp: places_def nexo_const)
    have "fst b + gap + 32 + n \<le> fst b + snd b"
      by (rule dvd_between [of 16]) (use p16 n(3) q le nn(2) in \<open>auto simp: places_def\<close>)
    then show "gap + 32 + n \<le> snd b" by simp
  qed
  have "places lsize lalign b (fst b + gap + 32)" if "gap + 32 + n \<le> snd b" using that dvd g(2) nn(1) by (auto simp: places_def nexo_const)
  then show ?thesis using g(1,3,5) least by (intro exI [of _ gap]) auto
qed

section \<open>Fragmentation\<close>




lemma heap_allocate_total:
  assumes inv: "heap_inv h bs L" and align: "lalign = 2 ^ k" and room: "\<forall>b\<in>set bs. fst b + snd b + lsize + lalign + 64 < 2 ^ 64"
    and sz: "lsize + lalign + 64 < 2 ^ 64"
  shows "(\<exists>xs b ys ptr n h' bs'. heap_allocate lsize lalign h = Some (Some ptr, h') \<and>
      bs = xs @ b # ys \<and> (\<forall>x\<in>set xs. \<forall>q. \<not> places lsize lalign x q) \<and> places lsize lalign b ptr \<and> (\<forall>q<ptr. \<not> places lsize lalign b q) \<and>
      lsize + 32 \<le> n \<and> n \<le> lsize + 48 \<and> (ptr - 32, n) \<notin> L \<and> blk_bytes (ptr - 32, n) \<subseteq> blk_bytes b \<and>
      heap_inv h' bs' (insert (ptr - 32, n) L) \<and> heap_bytes bs' (insert (ptr - 32, n) L) = heap_bytes bs L) \<or>
    (\<exists>h'. heap_allocate lsize lalign h = Some (None, h') \<and> heap_inv h' bs L \<and> hp_mem h' = hp_mem h \<and> hp_head h' = hp_head h \<and>
      (\<forall>b\<in>set bs. \<forall>q. \<not> places lsize lalign b q))"
proof -
  define a where "a = max lalign MIN_ALIGN"
  define n where "n = heap_align_up (max lsize 1) MIN_ALIGN"
  have n: "16 dvd n" "16 \<le> n" "lsize \<le> n" "n \<le> lsize + 16" using layout_rounding [OF align sz] by (simp_all add: n_def)
  have l: "lseg (hp_mem h) (hp_head h) bs 0" and ok: "\<forall>b\<in>set bs. blk_ok b"
    using inv by (simp_all add: heap_inv_def heap_core_def free_ok_def)
  have fit: "\<exists>gap. heap_place (fst b) a = (fst b + gap + 32, gap) \<and> 16 dvd gap \<and> (fits a n b \<longleftrightarrow> gap + 32 + n \<le> snd b) \<and>
      (\<forall>q. places lsize lalign b q \<longrightarrow> fst b + gap + 32 \<le> q \<and> fits a n b) \<and> (fits a n b \<longrightarrow> places lsize lalign b (fst b + gap + 32))"
    if "b \<in> set bs" for b unfolding a_def n_def by (rule fits_places [OF bspec [OF ok that] align bspec [OF room that]])
  have none: "\<not> places lsize lalign b q" if "b \<in> set bs" "\<not> fits a n b" for b q using fit [OF that(1)] that(2) by blast
  have al: "heap_allocate lsize lalign h = allocate_loop h a n 0 (hp_head h)" by (simp add: heap_allocate_def a_def n_def)
  show ?thesis
  proof (cases "dropWhile (\<lambda>b. \<not> fits a n b) bs")
    case Nil
    have "heap_inv (h\<lparr>hp_stats := (hp_stats h)\<lparr>hs_failures := hs_failures (hp_stats h) + 1\<rparr>\<rparr>) bs L"
      using inv by (simp add: heap_inv_def heap_core_def)
    moreover have "\<forall>b\<in>set bs. \<forall>q. \<not> places lsize lalign b q" using none Nil by simp
    ultimately show ?thesis using allocate_loop_lseg [OF l, of a n 0] by (simp add: al Nil del: dropWhile_eq_Nil_conv)
  next
    case (Cons b ys)
    define xs where "xs = takeWhile (\<lambda>b. \<not> fits a n b) bs"
    have bs: "bs = xs @ b # ys" using takeWhile_dropWhile_id [of "\<lambda>b. \<not> fits a n b" bs] by (simp add: xs_def Cons)
    have first: "\<forall>x\<in>set xs. \<forall>q. \<not> places lsize lalign x q" 
      using set_takeWhileD [of _ "\<lambda>b. \<not> fits a n b" bs] none unfolding xs_def by blast
    have "fits a n b" using hd_dropWhile [of "\<lambda>b. \<not> fits a n b" bs] Cons by simp
    moreover have "b \<in> set bs" using bs by simp
    ultimately obtain gap where g: "heap_place (fst b) a = (fst b + gap + 32, gap)" "16 dvd gap" "gap + 32 + n \<le> snd b"
      "places lsize lalign b (fst b + gap + 32)" "\<forall>q. places lsize lalign b q \<longrightarrow> fst b + gap + 32 \<le> q"
      using fit by blast
    obtain bs' where t: "heap_inv (heap_take (last_addr 0 xs) (fst b) (fst b + gap + 32) gap n h) bs' (insert (fst b + gap, 32 + n) L)"
      "heap_bytes bs' (insert (fst b + gap, 32 + n) L) = heap_bytes bs L" "(fst b + gap, 32 + n) \<notin> L" "blk_bytes (fst b + gap, 32 + n) \<subseteq> blk_bytes b"
      by (rule heap_take_at [OF inv [unfolded bs] g(2) n(1,2) g(3)]) (use bs in simp)
    have p: "fst b + gap + 32 - 32 = fst b + gap" by simp
    have r: "heap_allocate lsize lalign h = Some (Some (fst b + gap + 32), heap_take (last_addr 0 xs) (fst b) (fst b + gap + 32) gap n h)"
      using allocate_loop_lseg [OF l, of a n 0] by (simp add: al Cons g(1) xs_def)
    show ?thesis
    proof (intro disjI1 exI conjI)
      show "\<forall>q<fst b + gap + 32. \<not> places lsize lalign b q" using g(5) leD by blast
    qed (use r bs first g(4) n(3,4) t in \<open>simp_all add: p\<close>)
  qed
qed



section \<open>Properties\<close>

text \<open>
  C5: on a well-formed heap \<^verbatim>\<open>allocate\<close> always returns, and it is first fit. Either it returns the first place for the request in the
  first free block that has one, as an allocation disjoint from every live one and at most 48 bytes larger than the request
  (header and rounding), with the invariant kept and no byte lost; or no free block has a place for the request, and memory
  and list stay as they are. The bound says that the heap is far enough below the end of the address space for the size and
  alignment asked for.
\<close>

theorem heap_allocate_correct:
  assumes "heap_inv h bs L" "lalign = 2 ^ k" "\<forall>b\<in>set bs. fst b + snd b + lsize + lalign + 64 < 2 ^ 64" "lsize + lalign + 64 < 2 ^ 64"
  shows "(\<exists>xs b ys ptr n h' bs'. heap_allocate lsize lalign h = Some (Some ptr, h') \<and>
      bs = xs @ b # ys \<and> (\<forall>x\<in>set xs. \<forall>q. \<not> places lsize lalign x q) \<and> places lsize lalign b ptr \<and> (\<forall>q<ptr. \<not> places lsize lalign b q) \<and>
      lsize + 32 \<le> n \<and> n \<le> lsize + 48 \<and> (ptr - 32, n) \<notin> L \<and> blk_bytes (ptr - 32, n) \<subseteq> blk_bytes b \<and>
      heap_inv h' bs' (insert (ptr - 32, n) L) \<and> heap_bytes bs' (insert (ptr - 32, n) L) = heap_bytes bs L) \<or>
    (\<exists>h'. heap_allocate lsize lalign h = Some (None, h') \<and> heap_inv h' bs L \<and> hp_mem h' = hp_mem h \<and> hp_head h' = hp_head h \<and>
      (\<forall>b\<in>set bs. \<forall>q. \<not> places lsize lalign b q))"
  by (rule heap_allocate_total [OF assms])

text \<open>A heap with a single free block of 256 bytes.\<close>

definition sample_heap :: heap where
  "sample_heap =
     \<lparr>hp_mem = (\<lambda>_. 0)(64 := 256), hp_head = 64,
      hp_stats = \<lparr>hs_total_bytes = 256, hs_used_bytes = 0, hs_peak_bytes = 0, hs_allocations = 0,
                  hs_frees = 0, hs_failures = 0, hs_free_blocks = 1\<rparr>\<rparr>"

lemma sample_heap_inv: "heap_inv sample_heap [(64, 256)] {}"
  by (simp add: heap_inv_def heap_core_def sample_heap_def node_size_def node_next_def free_ok_def blk_ok_def
      live_ok_def blks_apart_def)

text \<open>A request that fills the block to its last byte is granted.\<close>

theorem heap_allocate_correct_witness:
  "\<exists>h' bs' n. heap_allocate 224 8 sample_heap = Some (Some 96, h') \<and> 256 \<le> n \<and> heap_inv h' bs' {(64, n)}"
proof -
  have a: "(8::nat) = 2 ^ 3" "\<forall>b\<in>set [(64, 256)]. fst b + snd b + 224 + 8 + 64 < (2::nat) ^ 64" "224 + 8 + 64 < (2::nat) ^ 64" by simp_all
  have p: "places 224 8 (64, 256) 96" by (simp add: places_def nexo_const)
  from heap_allocate_correct [OF sample_heap_inv a] p obtain ptr n h' bs' where
    r: "heap_allocate 224 8 sample_heap = Some (Some ptr, h')" "places 224 8 (64, 256) ptr" "256 \<le> n" "heap_inv h' bs' {(ptr - 32, n)}"
    by (fastforce simp: Cons_eq_append_conv)
  have "ptr = 96" using r(2) by (auto simp: places_def nexo_const)
  then show ?thesis using r by auto
qed

text \<open>
  C17: releasing a live allocation succeeds, keeps the invariant and every other allocation, and makes
  exactly its bytes free; releasing the same pointer again right away is caught by the marker.
\<close>

theorem heap_deallocate_correct:
  assumes "heap_inv h bs L" and "b \<in> L"
  shows "\<exists>h' bs'. heap_deallocate (fst b + 32) h = Some (Ok h') \<and> heap_inv h' bs' (L - {b}) \<and>
    (\<Union>x\<in>set bs'. blk_bytes x) = blk_bytes b \<union> (\<Union>x\<in>set bs. blk_bytes x) \<and>
    heap_deallocate (fst b + 32) h' = Some (Err (InvalidFree (fst b + 32) MAGIC_FREED))"
proof -
  obtain h' bs' where h': "heap_deallocate (fst b + 32) h = Some (Ok h')" "heap_inv h' bs' (L - {b})"
    "heap_bytes bs' (L - {b}) = heap_bytes bs L"
    "(\<Union>x\<in>set bs'. blk_bytes x) = blk_bytes b \<union> (\<Union>x\<in>set bs. blk_bytes x)"
    "hp_mem h' (fst b + 16) = MAGIC_FREED"
    using assms by (rule heap_deallocate_live)
  have "blk_ok b" "48 \<le> snd b" using assms by (simp_all add: heap_inv_def heap_core_def live_ok_def)
  then have "wsub (fst b + 32) 32 = fst b" by (simp add: wsub_small blk_ok_def)
  then have "heap_deallocate (fst b + 32) h' = Some (Err (InvalidFree (fst b + 32) MAGIC_FREED))"
    using h'(5) by (simp add: heap_deallocate_def nexo_const MAGIC_FREED_def MAGIC_LIVE_def)
  with h' show ?thesis by blast
qed

definition sample_used :: heap where
  "sample_used =
     \<lparr>hp_mem = (\<lambda>_. 0)(64 := 64, 72 := 48, 80 := MAGIC_LIVE, 112 := 208), hp_head = 112,
      hp_stats = \<lparr>hs_total_bytes = 256, hs_used_bytes = 48, hs_peak_bytes = 48, hs_allocations = 1,
                  hs_frees = 0, hs_failures = 0, hs_free_blocks = 1\<rparr>\<rparr>"

lemma sample_used_inv: "heap_inv sample_used [(112, 208)] {(64, 48)}"
  by (simp add: heap_inv_def heap_core_def sample_used_def node_size_def node_next_def free_ok_def blk_ok_def
      live_ok_def blks_apart_def blk_bytes_def)

theorem heap_deallocate_correct_witness:
  "\<exists>h' bs'. heap_deallocate 96 sample_used = Some (Ok h') \<and> heap_inv h' bs' {} \<and>
     heap_deallocate 96 h' = Some (Err (InvalidFree 96 MAGIC_FREED))"
  using heap_deallocate_correct [OF sample_used_inv, of "(64, 48)"] by auto





text \<open>The heap the kernel starts with: one free MiB at \<^verbatim>\<open>KERNEL_HEAP_BASE\<close>, 1 GiB below the top.\<close>

definition KERNEL_HEAP_BASE :: nat where "KERNEL_HEAP_BASE = 0xffffffffc0000000"
definition INITIAL_SIZE :: nat where "INITIAL_SIZE = 1024 * 1024"

definition kernel_heap0 :: "heap option" where
  "kernel_heap0 = heap_extend KERNEL_HEAP_BASE INITIAL_SIZE (heap_new (\<lambda>_. 0))"

lemma kernel_heap0_eq:
  "kernel_heap0 = Some
     \<lparr>hp_mem = (\<lambda>_. 0)(KERNEL_HEAP_BASE := INITIAL_SIZE), hp_head = KERNEL_HEAP_BASE,
      hp_stats = \<lparr>hs_total_bytes = INITIAL_SIZE, hs_used_bytes = 0, hs_peak_bytes = 0, hs_allocations = 0,
                  hs_frees = 0, hs_failures = 0, hs_free_blocks = 1\<rparr>\<rparr>"
proof -
  have "insert_pos (\<lambda>_. 0) KERNEL_HEAP_BASE 0 0 = Some (0, 0)" by (subst insert_pos.simps) simp
  then show ?thesis
    by (simp add: kernel_heap0_def heap_extend_def heap_new_def insert_free_def KERNEL_HEAP_BASE_def INITIAL_SIZE_def
        heap_align_up_def wadd_def wsub_def nexo_const Let_def write_node_def fun_eq_iff)
qed

text \<open>
  Without the bound of the allocation theorem the code goes wrong: on the kernel's initial heap a request of 1 GiB, far more
  than the one free MiB, is granted, because the end of the allocation wraps around to a small address, and a free node is
  written outside of the heap, at address 32.
\<close>

lemma heap_allocate_wraps:
  "map_option (\<lambda>(r, h). (r, hp_head h, node_size (hp_mem h) 32)) (Option.bind kernel_heap0 (heap_allocate (2 ^ 30) 16)) =
     Some (Some (KERNEL_HEAP_BASE + 32), 32, KERNEL_HEAP_BASE + INITIAL_SIZE - 32)"
  by (simp add: kernel_heap0_eq heap_allocate_def allocate_loop.simps [of _ _ _ 0] heap_place_def heap_take_def
      KERNEL_HEAP_BASE_def INITIAL_SIZE_def heap_align_up_def wadd_def wsub_def nexo_const Let_def node_size_def
      node_next_def write_node_def write_header_def)

end
