(* ===== verification/Syscall_Abi.thy ===== *)
theory Syscall_Abi
  imports Nexo_Prelude
begin

text \<open>
  \<^verbatim>\<open>abi/syscall/src/lib.rs\<close>: the numbers, rights, kinds, limits and status codes that the kernel and the
  programs share, as far as the calls of this development use them. Sizes and counts of type \<^verbatim>\<open>usize\<close> are \<open>nat\<close>, the others keep their width.
\<close>

section \<open>Constants\<close>

definition SYS_EVENT_SIGNAL :: u64 where "SYS_EVENT_SIGNAL = 45"
definition SYS_EVENT_RESET :: u64 where "SYS_EVENT_RESET = 46"
definition SYS_MAX :: u64 where "SYS_MAX = 47"
abbreviation MEMORY_MAX_PAGES :: u64 where "MEMORY_MAX_PAGES \<equiv> 256"
definition SHM_PAGES_MAX_PER_PROCESS :: u64 where "SHM_PAGES_MAX_PER_PROCESS = 4096"
abbreviation KIND_MEMORY :: u32 where "KIND_MEMORY \<equiv> 4"
abbreviation KIND_DEBUG :: u32 where "KIND_DEBUG \<equiv> 5"
abbreviation KIND_JOB :: u32 where "KIND_JOB \<equiv> 6"
abbreviation KIND_THREAD :: u32 where "KIND_THREAD \<equiv> 7"
abbreviation KIND_EVENT :: u32 where "KIND_EVENT \<equiv> 8"
definition RIGHT_READ :: u32 where "RIGHT_READ = 0x1"
definition RIGHT_SIGNAL :: u32 where "RIGHT_SIGNAL = 0x10"
definition RIGHT_TRANSFER :: u32 where "RIGHT_TRANSFER = 0x4"
definition RIGHT_DUPLICATE :: u32 where "RIGHT_DUPLICATE = 0x8"
definition RIGHTS_EVENT_DEFAULT :: u32 where "RIGHTS_EVENT_DEFAULT = RIGHT_READ OR RIGHT_SIGNAL OR RIGHT_TRANSFER OR RIGHT_DUPLICATE"
definition RIGHT_WRITE :: u32 where "RIGHT_WRITE = 0x2"
definition RIGHT_MAP :: u32 where "RIGHT_MAP = 0x20"
definition RIGHTS_MEMORY_DEFAULT :: u32 where "RIGHTS_MEMORY_DEFAULT = RIGHT_READ OR RIGHT_WRITE OR RIGHT_MAP OR RIGHT_TRANSFER OR RIGHT_DUPLICATE"
abbreviation KIND_DEVICE :: u32 where "KIND_DEVICE \<equiv> 3"
abbreviation MSG_MAX :: nat where "MSG_MAX \<equiv> 4096"
abbreviation MSG_HANDLES_MAX :: nat where "MSG_HANDLES_MAX \<equiv> 8"
definition CHANNEL_QUEUE_MAX :: nat where "CHANNEL_QUEUE_MAX = 64"
definition HANDLES_MAX :: nat where "HANDLES_MAX = 256"
definition RIGHTS_CHANNEL_DEFAULT :: u32 where "RIGHTS_CHANNEL_DEFAULT = RIGHT_READ OR RIGHT_WRITE OR RIGHT_TRANSFER OR RIGHT_DUPLICATE"
abbreviation KIND_CHANNEL :: u32 where "KIND_CHANNEL \<equiv> 1"
abbreviation KIND_PROCESS :: u32 where "KIND_PROCESS \<equiv> 2"
abbreviation USER_DEVICE_REGION :: u64 where "USER_DEVICE_REGION \<equiv> 0x0000600000000000"
definition USER_ADDRESS_LIMIT :: u64 where "USER_ADDRESS_LIMIT = 0x0000800000000000"

section \<open>Status codes\<close>

datatype status =
    StOk | InvalidArgs | BadAddress | NotSupported | NoMemory | NotFound | Denied | PeerClosed | BadHandle | WouldBlock | TooBig | QueueFull | TimedOut | StUnknown

definition status_code :: "status \<Rightarrow> u64" where
  "status_code s = (case s of
     StOk \<Rightarrow> 0
   | InvalidArgs \<Rightarrow> 1
   | BadAddress \<Rightarrow> 2
   | NotSupported \<Rightarrow> 3
   | NoMemory \<Rightarrow> 4
   | NotFound \<Rightarrow> 5
   | Denied \<Rightarrow> 6
   | PeerClosed \<Rightarrow> 7
   | BadHandle \<Rightarrow> 8
   | WouldBlock \<Rightarrow> 9
   | TooBig \<Rightarrow> 10
   | QueueFull \<Rightarrow> 11
   | TimedOut \<Rightarrow> 12
   | StUnknown \<Rightarrow> - 1)"

definition status_from_u64 :: "u64 \<Rightarrow> status" where
  "status_from_u64 v =
     (if v = 0 then StOk else
      if v = 1 then InvalidArgs else
      if v = 2 then BadAddress else
      if v = 3 then NotSupported else
      if v = 4 then NoMemory else
      if v = 5 then NotFound else
      if v = 6 then Denied else
      if v = 7 then PeerClosed else
      if v = 8 then BadHandle else
      if v = 9 then WouldBlock else
      if v = 10 then TooBig else
      if v = 11 then QueueFull else
      if v = 12 then TimedOut else StUnknown)"

definition status_is_ok :: "status \<Rightarrow> bool" where
  "status_is_ok s \<longleftrightarrow> s = StOk"

definition status_name :: "status \<Rightarrow> string" where
  "status_name s = (case s of
     StOk \<Rightarrow> ''ok''
   | InvalidArgs \<Rightarrow> ''invalid-args''
   | BadAddress \<Rightarrow> ''bad-address''
   | NotSupported \<Rightarrow> ''not-supported''
   | NoMemory \<Rightarrow> ''no-memory''
   | NotFound \<Rightarrow> ''not-found''
   | Denied \<Rightarrow> ''denied''
   | PeerClosed \<Rightarrow> ''peer-closed''
   | BadHandle \<Rightarrow> ''bad-handle''
   | WouldBlock \<Rightarrow> ''would-block''
   | TooBig \<Rightarrow> ''too-big''
   | QueueFull \<Rightarrow> ''queue-full''
   | TimedOut \<Rightarrow> ''timed-out''
   | StUnknown \<Rightarrow> ''unknown'')"

section \<open>The system calls\<close>

text \<open>The constants that number the calls, by their names, and the names that the trace shows.\<close>

definition SYSCALLS :: "(string \<times> u64) list" where
  "SYSCALLS =
    [(''SYS_EXIT'', 0), (''SYS_LOG'', 1), (''SYS_TIME_NOW'', 2), (''SYS_YIELD'', 3), (''SYS_SLEEP'', 4),
      (''SYS_GET_PID'', 5), (''SYS_ABI_VERSION'', 6), (''SYS_DEBUG_INFO'', 7), (''SYS_HANDLE_CLOSE'', 8),
      (''SYS_HANDLE_DUPLICATE'', 9), (''SYS_CHANNEL_CREATE'', 10), (''SYS_CHANNEL_SEND'', 11),
      (''SYS_CHANNEL_RECV'', 12), (''SYS_HANDLE_INFO'', 13), (''SYS_PROCESS_SPAWN'', 14), (''SYS_PROCESS_WAIT'', 15),
      (''SYS_PROCESS_INFO'', 16), (''SYS_PCI_ENUM'', 17), (''SYS_PCI_CFG_READ'', 18), (''SYS_PCI_CFG_WRITE'', 19),
      (''SYS_MMIO_MAP'', 20), (''SYS_DMA_ALLOC'', 21), (''SYS_IRQ_ALLOC'', 22), (''SYS_IRQ_WAIT'', 23),
      (''SYS_DEVICE_OPEN'', 24), (''SYS_CHANNEL_TRY_RECV'', 25), (''SYS_CHANNEL_WAIT_ANY'', 26),
      (''SYS_MEMORY_CREATE'', 28), (''SYS_MEMORY_MAP'', 29), (''SYS_IRQ_CHANNEL'', 27), (''SYS_MEMORY_UNMAP'', 30),
      (''SYS_FB_INFO'', 31), (''SYS_PROCESS_SPAWN_MEM'', 32), (''SYS_TRACE'', 33),
      (''SYS_CHANNEL_WAIT_ANY_TIMEOUT'', 34), (''SYS_SET_PRIORITY'', 35), (''SYS_JOB_CREATE'', 36),
      (''SYS_JOB_ATTACH'', 37), (''SYS_JOB_KILL'', 38), (''SYS_THREAD_CREATE'', 39), (''SYS_THREAD_EXIT'', 40),
      (''SYS_THREAD_JOIN'', 41), (''SYS_JOB_SET_CPU_LIMIT'', 42), (''SYS_PROCESS_LIST'', 43),
      (''SYS_EVENT_CREATE'', 44), (''SYS_EVENT_SIGNAL'', 45), (''SYS_EVENT_RESET'', 46),
      (''SYS_THREAD_SET_AFFINITY'', 47)]"

definition SYSCALL_NAMES :: "(u64 \<times> string) list" where
  "SYSCALL_NAMES =
    [(0, ''exit''), (1, ''log''), (2, ''time_now''), (3, ''yield''), (4, ''sleep''), (5, ''get_pid''),
      (6, ''abi_version''), (7, ''debug_info''), (8, ''handle_close''), (9, ''handle_duplicate''),
      (10, ''channel_create''), (11, ''channel_send''), (12, ''channel_recv''), (13, ''handle_info''),
      (14, ''process_spawn''), (15, ''process_wait''), (16, ''process_info''), (17, ''pci_enum''),
      (18, ''pci_cfg_read''), (19, ''pci_cfg_write''), (20, ''mmio_map''), (21, ''dma_alloc''), (22, ''irq_alloc''),
      (23, ''irq_wait''), (24, ''device_open''), (25, ''channel_try_recv''), (26, ''channel_wait_any''),
      (27, ''irq_channel''), (28, ''memory_create''), (29, ''memory_map''), (30, ''memory_unmap''),
      (31, ''fb_info''), (32, ''process_spawn_mem''), (33, ''trace''), (34, ''channel_wait_any_timeout''),
      (35, ''set_priority''), (36, ''job_create''), (37, ''job_attach''), (38, ''job_kill''),
      (39, ''thread_create''), (40, ''thread_exit''), (41, ''thread_join''), (42, ''job_set_cpu_limit''),
      (43, ''process_list''), (44, ''event_create''), (45, ''event_signal''), (46, ''event_reset''),
      (47, ''thread_set_affinity'')]"

definition syscall_name :: "u64 \<Rightarrow> string" where
  "syscall_name n = (case map_of SYSCALL_NAMES n of Some s \<Rightarrow> s | None \<Rightarrow> ''?'')"

section \<open>Properties\<close>

lemma word_le_numeral_set:
  assumes "(n :: u64) \<le> word_of_nat k" "k < 2 ^ 64"
  shows "n \<in> set (map word_of_nat [0..<Suc k])"
proof -
  have "unat n \<le> k" using assms by (simp add: word_le_nat_alt unat_of_nat)
  then have "unat n \<in> set [0..<Suc k]" by auto
  then have "(word_of_nat (unat n) :: u64) \<in> word_of_nat ` set [0..<Suc k]" by (rule imageI)
  then show ?thesis by simp
qed

text \<open>
  C27: a status survives the trip through the return register and every other value reads as unknown. The
  system calls have distinct numbers, which are exactly the ones up to the last, and exactly these have a name, each its own.
\<close>

theorem abi_roundtrip:
  "status_from_u64 (status_code s) = s \<and> (status_from_u64 v \<noteq> StUnknown \<longleftrightarrow> v \<le> status_code TimedOut) \<and> inj status_name \<and>
   distinct (map fst SYSCALLS) \<and> distinct (map snd SYSCALLS) \<and> (n \<in> snd ` set SYSCALLS \<longleftrightarrow> n \<le> SYS_MAX) \<and>
   (syscall_name n \<noteq> ''?'' \<longleftrightarrow> n \<le> SYS_MAX) \<and> inj_on syscall_name {n. n \<le> SYS_MAX}"
proof (intro conjI)
  show "status_from_u64 (status_code s) = s"
    by (cases s) (simp_all add: status_code_def status_from_u64_def)
  have "\<forall>s t. status_name s = status_name t \<longrightarrow> s = t"
    by (intro allI, case_tac s; case_tac t; simp add: status_name_def)
  then show "inj status_name" by (simp add: inj_def)
  let ?N = "map word_of_nat [0..<48] :: u64 list" and ?V = "map word_of_nat [0..<13] :: u64 list"
  have N: "distinct (map syscall_name ?N)" "list_all (\<lambda>n. syscall_name n \<noteq> ''?'') ?N"
    "list_all (\<lambda>v. status_from_u64 v \<noteq> StUnknown) ?V" "list_all (\<lambda>x. fst x \<le> SYS_MAX) SYSCALL_NAMES"
    "list_all (\<lambda>x. snd x \<le> SYS_MAX) SYSCALLS" "list_all (\<lambda>n. n \<in> set (map snd SYSCALLS)) ?N"
    by code_simp+
  show "distinct (map fst SYSCALLS)" "distinct (map snd SYSCALLS)" by code_simp+
  have n: "n \<le> SYS_MAX \<Longrightarrow> n \<in> set ?N" for n :: u64
    using word_le_numeral_set [of n 47] by (simp add: SYS_MAX_def)
  show "n \<in> snd ` set SYSCALLS \<longleftrightarrow> n \<le> SYS_MAX"
  proof
    assume "n \<le> SYS_MAX"
    then have "n \<in> set (map snd SYSCALLS)" using N(6) n by (auto simp only: list_all_iff)
    then show "n \<in> snd ` set SYSCALLS" by (simp only: set_map)
  qed (use N(5) in \<open>auto simp: list_all_iff\<close>)
  have "inj_on syscall_name (set ?N)"
    using N(1) distinct_map [of syscall_name ?N] by (rule iffD1 [THEN conjunct2, rotated])
  then show "inj_on syscall_name {n. n \<le> SYS_MAX}"
    by (rule inj_on_subset) (use n in blast)
  have "v \<le> 12 \<Longrightarrow> v \<in> set ?V" for v :: u64 using word_le_numeral_set [of v 12] by simp
  then show "status_from_u64 v \<noteq> StUnknown \<longleftrightarrow> v \<le> status_code TimedOut"
    using N(3) by (auto simp: status_code_def status_from_u64_def list_all_iff simp del: set_map split: if_splits)
  show "syscall_name n \<noteq> ''?'' \<longleftrightarrow> n \<le> SYS_MAX"
  proof
    assume "syscall_name n \<noteq> ''?''"
    then obtain s where "map_of SYSCALL_NAMES n = Some s" by (auto simp: syscall_name_def split: option.splits)
    then have "(n, s) \<in> set SYSCALL_NAMES" by (rule map_of_SomeD)
    then show "n \<le> SYS_MAX" using N(4) by (auto simp: list_all_iff)
  qed (use n N(2) in \<open>simp add: list_all_iff del: set_map\<close>)
qed

end
