(* ===== verification/Ipc.thy ===== *)
theory Ipc
  imports Syscall_Abi "HOL-Library.Multiset"
begin

text \<open>
  \<^verbatim>\<open>kernel/src/ipc.rs\<close>: objects, handles with rights, handle tables, message payloads, channels and
  events. An \<^verbatim>\<open>Arc\<close> is a reference to an object, so objects are named by numbers here; what the
  numbers stand for is part of the kernel state of the theory that imports this one. A channel has
  two ends; the side of an end is a truth value, and \<^verbatim>\<open>1 - side\<close> is its negation.

  Waking a thread (\<^verbatim>\<open>sched::unpark\<close>) is a result of the operations: the list of threads they wake.
\<close>

section \<open>Rights, objects, handles\<close>

definition rights_contains :: "u32 \<Rightarrow> u32 \<Rightarrow> bool" where
  "rights_contains self r \<longleftrightarrow> self AND r = r"

definition is_superset_of :: "u32 \<Rightarrow> u32 \<Rightarrow> bool" where
  "is_superset_of self other \<longleftrightarrow> other AND NOT self = 0"

datatype object =
    ObjChannel nat bool
  | ObjProcess nat
  | ObjDevice nat
  | ObjMemory nat
  | ObjJob nat
  | ObjThread nat
  | ObjDebug
  | ObjEvent nat

definition object_kind :: "object \<Rightarrow> u32" where
  "object_kind ob = (case ob of
     ObjChannel _ _ \<Rightarrow> KIND_CHANNEL
   | ObjProcess _ \<Rightarrow> KIND_PROCESS
   | ObjDevice _ \<Rightarrow> KIND_DEVICE
   | ObjMemory _ \<Rightarrow> KIND_MEMORY
   | ObjJob _ \<Rightarrow> KIND_JOB
   | ObjThread _ \<Rightarrow> KIND_THREAD
   | ObjDebug \<Rightarrow> KIND_DEBUG
   | ObjEvent _ \<Rightarrow> KIND_EVENT)"

record handle =
  h_object :: object
  h_rights :: u32

section \<open>Handle tables\<close>

type_synonym handle_table = "handle option list"

text \<open>The position of the first free slot.\<close>

fun free_slot :: "handle_table \<Rightarrow> nat option" where
  "free_slot [] = None"
| "free_slot (None # t) = Some 0"
| "free_slot (Some h # t) = map_option Suc (free_slot t)"

definition ht_insert :: "handle \<Rightarrow> handle_table \<Rightarrow> (status, u32) result \<times> handle_table" where
  "ht_insert h t =
     (case free_slot t of
        Some i \<Rightarrow> (Ok (word_of_nat i), t[i := Some h])
      | None \<Rightarrow>
          if length t \<ge> HANDLES_MAX then (Err NoMemory, t)
          else (Ok (word_of_nat (length (t @ [Some h]) - 1)), t @ [Some h]))"

definition ht_get :: "handle_table \<Rightarrow> u32 \<Rightarrow> (status, handle) result" where
  "ht_get t i =
     (if unat i < length t then (case t ! unat i of Some h \<Rightarrow> Ok h | None \<Rightarrow> Err BadHandle) else Err BadHandle)"

definition ht_take :: "u32 \<Rightarrow> handle_table \<Rightarrow> (status, handle) result \<times> handle_table" where
  "ht_take i t =
     (if unat i < length t then
        (case t ! unat i of Some h \<Rightarrow> (Ok h, t[unat i := None]) | None \<Rightarrow> (Err BadHandle, t[unat i := None]))
      else (Err BadHandle, t))"

definition ht_len :: "handle_table \<Rightarrow> nat" where
  "ht_len t = length (filter (\<lambda>s. s \<noteq> None) t)"

text \<open>
  The loops of the system calls that move several handles. Inserting stops at the first handle that
  does not fit; it and the ones after it (the second component) are dropped by the caller.
\<close>

fun take_all :: "('i \<Rightarrow> 't \<Rightarrow> ('e, 'h) result \<times> 't) \<Rightarrow> 'i list \<Rightarrow> 't \<Rightarrow> ('e, 'h list) result \<times> 't" where
  "take_all tk [] t = (Ok [], t)"
| "take_all tk (i # ids) t =
     (case tk i t of
        (Inl e, t') \<Rightarrow> (Err e, t')
      | (Inr h, t') \<Rightarrow>
          (case take_all tk ids t' of
             (Inl e, t'') \<Rightarrow> (Err e, t'')
           | (Inr hs, t'') \<Rightarrow> (Ok (h # hs), t'')))"

fun insert_all :: "('h \<Rightarrow> 't \<Rightarrow> ('e, 'i) result \<times> 't) \<Rightarrow> 'h list \<Rightarrow> 't \<Rightarrow> ('e, 'i list) result \<times> 'h list \<times> 't" where
  "insert_all ins [] t = (Ok [], [], t)"
| "insert_all ins (h # hs) t =
     (case ins h t of
        (Inl e, t') \<Rightarrow> (Err e, h # hs, t')
      | (Inr i, t') \<Rightarrow>
          (case insert_all ins hs t' of
             (Inl e, rest, t'') \<Rightarrow> (Err e, rest, t'')
           | (Inr is, rest, t'') \<Rightarrow> (Ok (i # is), rest, t'')))"

section \<open>Payloads\<close>

definition PAYLOAD_INLINE :: nat where "PAYLOAD_INLINE = 128"

datatype payload = PayInline "u8 list" nat | PayHeap "u8 list"

definition payload_from_slice :: "u8 list \<Rightarrow> payload" where
  "payload_from_slice dados =
     (if length dados \<le> PAYLOAD_INLINE
      then PayInline (dados @ replicate (PAYLOAD_INLINE - length dados) 0) (length dados)
      else PayHeap dados)"

fun payload_deref :: "payload \<Rightarrow> u8 list" where
  "payload_deref (PayInline bytes len) = take len bytes"
| "payload_deref (PayHeap v) = v"

record message =
  msg_data :: payload
  msg_handles :: "handle list"

section \<open>Channels\<close>

text \<open>The shared part of a channel and the two flags of each of its ends.\<close>

record channel =
  ch_queues :: "bool \<Rightarrow> message list"
  ch_closed :: "bool \<Rightarrow> bool"
  ch_waiters :: "bool \<Rightarrow> nat list"
  ce_pinned :: "bool \<Rightarrow> bool"
  ce_closed_by_me :: "bool \<Rightarrow> bool"

definition channel_new :: channel where
  "channel_new = \<lparr>ch_queues = (\<lambda>_. []), ch_closed = (\<lambda>_. False), ch_waiters = (\<lambda>_. []),
     ce_pinned = (\<lambda>_. True), ce_closed_by_me = (\<lambda>_. False)\<rparr>"

text \<open>Closing an end: the result says whether this was the first time, and gives the messages dropped and the threads woken.\<close>

definition ch_close :: "bool \<Rightarrow> channel \<Rightarrow> bool \<times> message list \<times> nat list \<times> channel" where
  "ch_close side c =
     (if ce_closed_by_me c side then (False, [], [], c)
      else (True, ch_queues c side, ch_waiters c (\<not> side),
            c\<lparr>ce_closed_by_me := (ce_closed_by_me c)(side := True), ch_closed := (ch_closed c)(side := True),
              ch_queues := (ch_queues c)(side := []), ch_waiters := (ch_waiters c)(\<not> side := [])\<rparr>))"

definition ch_send :: "bool \<Rightarrow> message \<Rightarrow> channel \<Rightarrow> (status, unit) result \<times> nat list \<times> channel" where
  "ch_send side msg c =
     (let peer = (\<not> side) in
      if ch_closed c peer then (Err PeerClosed, [], c)
      else if length (ch_queues c peer) \<ge> CHANNEL_QUEUE_MAX then (Err QueueFull, [], c)
      else (Ok (), ch_waiters c peer,
            c\<lparr>ch_queues := (ch_queues c)(peer := ch_queues c peer @ [msg]), ch_waiters := (ch_waiters c)(peer := [])\<rparr>))"

definition peer_readable :: "bool \<Rightarrow> channel \<Rightarrow> bool" where
  "peer_readable side c \<longleftrightarrow> ch_queues c (\<not> side) \<noteq> []"

definition readable :: "bool \<Rightarrow> channel \<Rightarrow> bool" where
  "readable side c \<longleftrightarrow> ch_queues c side \<noteq> [] \<or> ch_closed c (\<not> side)"

definition ch_register_waiter :: "bool \<Rightarrow> nat \<Rightarrow> channel \<Rightarrow> channel" where
  "ch_register_waiter side t c = c\<lparr>ch_waiters := (ch_waiters c)(side := ch_waiters c side @ [t])\<rparr>"

definition ch_try_recv :: "bool \<Rightarrow> channel \<Rightarrow> (status, message) result \<times> channel" where
  "ch_try_recv side c =
     (case ch_queues c side of
        m # ms \<Rightarrow> (Ok m, c\<lparr>ch_queues := (ch_queues c)(side := ms)\<rparr>)
      | [] \<Rightarrow> if ch_closed c (\<not> side) then (Err PeerClosed, c) else (Err WouldBlock, c))"

text \<open>
  One turn of the loop of \<^verbatim>\<open>recv\<close>: it returns, or the thread \<open>me\<close> goes to sleep (\<open>None\<close>) after it
  registered itself. \<open>killed\<close> and \<open>me\<close> are what the scheduler says of the current thread.
\<close>

definition ch_recv_turn :: "bool \<Rightarrow> bool \<Rightarrow> nat option \<Rightarrow> channel \<Rightarrow> (status, message) result option \<times> channel" where
  "ch_recv_turn killed side me c =
     (if killed then (Some (Err PeerClosed), c)
      else (case ch_queues c side of
              m # ms \<Rightarrow> (Some (Ok m), c\<lparr>ch_queues := (ch_queues c)(side := ms)\<rparr>)
            | [] \<Rightarrow>
                if ch_closed c (\<not> side) then (Some (Err PeerClosed), c)
                else (case me of
                        None \<Rightarrow> (Some (Err Denied), c)
                      | Some t \<Rightarrow> (None, ch_register_waiter side t c))))"

section \<open>Events\<close>

record event =
  ev_sinalizado :: bool
  ev_waiters :: "nat list"
  ev_auto :: bool

definition event_new :: "bool \<Rightarrow> event" where
  "event_new au = \<lparr>ev_sinalizado = False, ev_waiters = [], ev_auto = au\<rparr>"

definition event_sinalizar :: "event \<Rightarrow> nat list \<times> event" where
  "event_sinalizar e =
     (if ev_auto e then
        (if ev_waiters e = [] then ([], e\<lparr>ev_sinalizado := True\<rparr>)
         else ([last (ev_waiters e)], e\<lparr>ev_sinalizado := True, ev_waiters := butlast (ev_waiters e)\<rparr>))
      else (ev_waiters e, e\<lparr>ev_sinalizado := True, ev_waiters := []\<rparr>))"

definition event_resetar :: "event \<Rightarrow> event" where
  "event_resetar e = e\<lparr>ev_sinalizado := False\<rparr>"

definition event_tomar :: "event \<Rightarrow> bool \<times> event" where
  "event_tomar e =
     (if \<not> ev_sinalizado e then (False, e)
      else if ev_auto e then (True, e\<lparr>ev_sinalizado := False\<rparr>) else (True, e))"

definition event_register_waiter :: "nat \<Rightarrow> event \<Rightarrow> event" where
  "event_register_waiter t e = e\<lparr>ev_waiters := ev_waiters e @ [t]\<rparr>"

section \<open>Device grants\<close>

record device_grant =
  dg_scope :: "u16 option"
  dg_vectors :: "u8 list"

definition grant_all :: device_grant where
  "grant_all = \<lparr>dg_scope = None, dg_vectors = []\<rparr>"

definition grant_for_device :: "u16 \<Rightarrow> device_grant" where
  "grant_for_device bdf = \<lparr>dg_scope = Some bdf, dg_vectors = []\<rparr>"

definition grant_covers :: "device_grant \<Rightarrow> u16 \<Rightarrow> bool" where
  "grant_covers g bdf = (case dg_scope g of None \<Rightarrow> True | Some s \<Rightarrow> s = bdf)"

section \<open>Tables of slots\<close>

text \<open>
  What the system calls rely on of a handle table: inserting returns an index that was unused and
  changes nothing else, taking an entry empties exactly that index, and a failed operation changes
  nothing that can be looked up.
\<close>

locale slot_table =
  fixes ins :: "'h \<Rightarrow> 't \<Rightarrow> ('e, 'i) result \<times> 't"
    and get :: "'t \<Rightarrow> 'i \<Rightarrow> ('e, 'h) result"
    and tak :: "'i \<Rightarrow> 't \<Rightarrow> ('e, 'h) result \<times> 't"
    and tab_inv :: "'t \<Rightarrow> bool"
    and entries :: "'t \<Rightarrow> 'h list"
  assumes ins_Ok: "tab_inv t \<Longrightarrow> ins h t = (Inr i, t') \<Longrightarrow>
      tab_inv t' \<and> get t' i = Inr h \<and> (\<exists>e. get t i = Inl e) \<and> (\<forall>j. j \<noteq> i \<longrightarrow> get t' j = get t j) \<and> mset (entries t') = add_mset h (mset (entries t))"
    and ins_Err: "tab_inv t \<Longrightarrow> ins h t = (Inl e, t') \<Longrightarrow> tab_inv t' \<and> (\<forall>j. get t' j = get t j) \<and> entries t' = entries t"
    and tak_Ok: "tab_inv t \<Longrightarrow> tak i t = (Inr h, t') \<Longrightarrow>
      tab_inv t' \<and> get t i = Inr h \<and> (\<exists>e. get t' i = Inl e) \<and> (\<forall>j. j \<noteq> i \<longrightarrow> get t' j = get t j) \<and> mset (entries t) = add_mset h (mset (entries t'))"
    and tak_Err: "tab_inv t \<Longrightarrow> tak i t = (Inl e, t') \<Longrightarrow> tab_inv t' \<and> (\<forall>j. get t' j = get t j) \<and> entries t' = entries t"
    and tak_get: "tab_inv t \<Longrightarrow> get t i = Inr h \<Longrightarrow> \<exists>t'. tak i t = (Inr h, t')"

begin

lemma insert_all_keeps: "tab_inv t \<Longrightarrow> insert_all ins hs t = (r, rest, t') \<Longrightarrow> get t j = Inr h \<Longrightarrow> get t' j = Inr h \<and> tab_inv t'"
proof (induction hs arbitrary: t r)
  case (Cons x hs)
  obtain r1 t1 where i: "ins x t = (r1, t1)" by (metis surj_pair)
  show ?case
  proof (cases r1)
    case (Inl e)
    then show ?thesis using Cons.prems i ins_Err [OF Cons.prems(1), of x e t1] by simp
  next
    case (Inr k)
    have I: "tab_inv t1" "get t1 j = Inr h" using ins_Ok [OF Cons.prems(1), of x k t1] i Inr Cons.prems(3) by (metis sum.distinct(1))+
    then show ?thesis using Cons.IH [OF I(1)] Cons.prems(2) i Inr I(2) by (auto split: prod.splits sum.splits)
  qed
qed simp

lemma insert_all_fresh:
  assumes "tab_inv t" "insert_all ins hs t = (Inr is, rest, t')" "n < length is"
  shows "\<exists>e. get t (is ! n) = Inl e"
  using assms
proof (induction hs arbitrary: t "is" n)
  case (Cons x hs)
  obtain k t1 is2 where i: "ins x t = (Inr k, t1)" "insert_all ins hs t1 = (Inr is2, rest, t')" "is = k # is2"
    using Cons.prems(2) by (auto split: prod.splits sum.splits)
  note I = ins_Ok [OF Cons.prems(1) i(1)]
  show ?case
  proof (cases n)
    case 0
    then show ?thesis using I i(3) by simp
  next
    case (Suc n')
    then obtain e where "get t1 (is2 ! n') = Inl e" using Cons.IH [OF _ i(2), of n'] I Cons.prems(3) i(3) by auto
    then show ?thesis using I Suc i(3) by (metis nth_Cons_Suc sum.distinct(1))
  qed
qed simp

text \<open>Taking a list of different indices that are all in use gives all their entries.\<close>

lemma take_all_Ok:
  assumes "tab_inv t" "distinct ids" "\<And>i. i \<in> set ids \<Longrightarrow> get t i = Inr (f i)"
  shows "\<exists>t'. take_all tak ids t = (Inr (map f ids), t') \<and> tab_inv t' \<and>
    mset (entries t) = mset (map f ids) + mset (entries t') \<and> (\<forall>j. j \<notin> set ids \<longrightarrow> get t' j = get t j) \<and>
    (\<forall>i\<in>set ids. \<exists>e. get t' i = Inl e)"
  using assms
proof (induction ids arbitrary: t)
  case (Cons i ids)
  obtain t1 where t1: "tak i t = (Inr (f i), t1)" using tak_get [OF Cons.prems(1)] Cons.prems(3) by fastforce
  note T = tak_Ok [OF Cons.prems(1) t1]
  have 1: "tab_inv t1" "distinct ids" "i \<notin> set ids" using T Cons.prems by auto
  have g: "get t1 j = Inr (f j)" if "j \<in> set ids" for j
  proof -
    have "j \<noteq> i" using that 1(3) by blast
    then show ?thesis using T Cons.prems(3) [of j] that by simp
  qed
  from Cons.IH [OF 1(1,2) g] obtain t' where t': "take_all tak ids t1 = (Inr (map f ids), t')" "tab_inv t'"
    "mset (entries t1) = mset (map f ids) + mset (entries t')" "\<forall>j. j \<notin> set ids \<longrightarrow> get t' j = get t1 j"
    "\<forall>i\<in>set ids. \<exists>e. get t' i = Inl e" by blast
  have "take_all tak (i # ids) t = (Inr (map f (i # ids)), t')" using t1 t'(1) by simp
  moreover have "mset (entries t) = mset (map f (i # ids)) + mset (entries t')" using T t'(3) by simp
  moreover have "\<forall>j. j \<notin> set (i # ids) \<longrightarrow> get t' j = get t j" using T t'(4) by auto
  moreover have "\<exists>e. get t' i = Inl e" using T t'(4) Cons.prems(2) by auto
  ultimately show ?case using t'(2,5) by auto
qed simp

text \<open>Inserting a list keeps what is already there and loses only the entries it could not place.\<close>

lemma insert_all_entries:
  assumes "tab_inv t" "insert_all ins hs t = (r, rest, t')"
  shows "tab_inv t' \<and> mset (entries t') + mset rest = mset (entries t) + mset hs \<and>
    (\<forall>j h. get t j = Inr h \<longrightarrow> get t' j = Inr h) \<and>
    (\<forall>is. r = Inr is \<longrightarrow> rest = [] \<and> length is = length hs \<and> distinct is \<and> (\<forall>k<length hs. get t' (is ! k) = Inr (hs ! k)))"
  using assms
proof (induction hs arbitrary: t r rest t')
  case (Cons h hs)
  obtain r1 t1 where i: "ins h t = (r1, t1)" by (metis surj_pair)
  show ?case
  proof (cases r1)
    case (Inl e)
    then show ?thesis using Cons.prems i ins_Err [OF Cons.prems(1), of h e t1] by auto
  next
    case (Inr k)
    note I = ins_Ok [OF Cons.prems(1), of h k t1]
    obtain r2 where a: "insert_all ins hs t1 = (r2, rest, t')"
      and r: "r = (case r2 of Inl e \<Rightarrow> Inl e | Inr is \<Rightarrow> Inr (k # is))"
      using Cons.prems(2) i Inr by (auto split: prod.splits sum.splits)
    have inv: "tab_inv t1" using I i Inr by simp
    note IH = Cons.IH [OF inv a]
    have I': "get t1 k = Inr h" "\<exists>e. get t k = Inl e" "\<forall>j. j \<noteq> k \<longrightarrow> get t1 j = get t j"
      "mset (entries t1) = add_mset h (mset (entries t))"
      using I i Inr by auto
    have old: "\<forall>j h. get t j = Inr h \<longrightarrow> get t1 j = Inr h" using I' by (metis sum.distinct(1))
    have "rest = [] \<and> length is = length (h # hs) \<and> distinct is \<and> (\<forall>n<length (h # hs). get t' (is ! n) = Inr ((h # hs) ! n))"
      if ri: "r = Inr is" for "is"
    proof -
      obtain is2 where s: "r2 = Inr is2" "is = k # is2" using r ri by (auto split: sum.splits)
      have J: "rest = []" "length is2 = length hs" "distinct is2" "\<forall>n<length hs. get t' (is2 ! n) = Inr (hs ! n)"
        using IH s(1) by auto
      have fresh: "\<exists>e. get t1 (is2 ! n) = Inl e" if "n < length hs" for n
        using insert_all_fresh [OF inv a [unfolded s(1)]] that J(2) by simp
      have "k \<notin> set is2"
      proof
        assume "k \<in> set is2"
        then obtain n where "n < length is2" "is2 ! n = k" by (auto simp: in_set_conv_nth)
        then show False using fresh [of n] I'(1) J(2) by auto
      qed
      then show ?thesis using J s(2) IH I'(1) by (auto simp: less_Suc_eq_0_disj)
    qed
    then show ?thesis using IH I'(4) old by auto
  qed
qed auto

end

text \<open>Handle tables provide it.\<close>

definition ht_inv :: "handle_table \<Rightarrow> bool" where
  [nexo_inv]: "ht_inv t \<longleftrightarrow> length t \<le> HANDLES_MAX"

definition ht_entries :: "handle_table \<Rightarrow> handle list" where
  "ht_entries t = List.map_filter id t"

lemma ht_entries_simps [simp]:
  "ht_entries [] = []" "ht_entries (None # t) = ht_entries t" "ht_entries (Some h # t) = h # ht_entries t"
  "ht_entries (t @ u) = ht_entries t @ ht_entries u"
  by (simp_all add: ht_entries_def List.map_filter_def)

lemma ht_entries_iff: "h \<in> set (ht_entries t) \<longleftrightarrow> Some h \<in> set t"
  by (force simp: ht_entries_def List.map_filter_def)

lemma free_slot_Some:
  "free_slot t = Some i \<Longrightarrow> i < length t \<and> t ! i = None \<and> (\<forall>j<i. t ! j \<noteq> None)"
  by (induction t arbitrary: i rule: free_slot.induct) (auto simp: less_Suc_eq_0_disj)

lemma free_slot_None: "free_slot t = None \<longleftrightarrow> None \<notin> set t"
  by (induction t rule: free_slot.induct) auto

lemma ht_entries_update:
  assumes "i < length t" "t ! i = None"
  shows "mset (ht_entries (t[i := Some h])) = add_mset h (mset (ht_entries t))"
proof -
  have "t = take i t @ None # drop (Suc i) t" using assms by (metis id_take_nth_drop)
  moreover have "t[i := Some h] = take i t @ Some h # drop (Suc i) t" using assms(1) by (simp add: upd_conv_take_nth_drop)
  ultimately show ?thesis by (metis ht_entries_simps(2-4) mset.simps(2) mset_append union_mset_add_mset_right)
qed

lemma ht_entries_remove:
  assumes "i < length t" "t ! i = Some h"
  shows "mset (ht_entries t) = add_mset h (mset (ht_entries (t[i := None])))"
proof -
  have "t[i := Some h] = t" using assms by (simp add: list_update_same_conv)
  then show ?thesis using ht_entries_update [of i "t[i := None]" h] assms(1) by simp
qed

lemma unat_slot: "i < length t \<Longrightarrow> ht_inv t \<Longrightarrow> unat (word_of_nat i :: u32) = i"
  by (simp add: ht_inv_def HANDLES_MAX_def unat_of_nat)

lemma ht_insert_cases:
  assumes inv: "ht_inv t" and r: "ht_insert h t = (r, t')"
  shows "(\<exists>i. r = Ok (word_of_nat i) \<and> i < HANDLES_MAX \<and> i \<le> length t \<and> (i < length t \<longrightarrow> t ! i = None) \<and> (\<forall>j<i. t ! j \<noteq> None) \<and>
            t' = take i t @ Some h # drop (Suc i) t) \<or>
    (r = Err NoMemory \<and> t' = t \<and> length t = HANDLES_MAX \<and> None \<notin> set t)"
proof (cases "free_slot t")
  case None
  then have full: "\<And>j. j < length t \<Longrightarrow> t ! j \<noteq> None" using free_slot_None [of t] nth_mem by metis
  show ?thesis
    using r None inv full free_slot_None [of t] by (auto simp: ht_insert_def ht_inv_def split: if_splits)
next
  case (Some i)
  note i = free_slot_Some [OF Some]
  have "t' = take i t @ Some h # drop (Suc i) t" "r = Ok (word_of_nat i)"
    using r Some i by (auto simp: ht_insert_def upd_conv_take_nth_drop)
  then show ?thesis using i inv by (auto simp: ht_inv_def)
qed

interpretation handles: slot_table ht_insert ht_get ht_take ht_inv ht_entries
proof
  fix t t' :: handle_table and h :: handle and i :: u32 and e :: status
  assume inv: "ht_inv t"
  show "ht_inv t' \<and> (\<forall>j. ht_get t' j = ht_get t j) \<and> ht_entries t' = ht_entries t" if "ht_insert h t = (Inl e, t')"
    using ht_insert_cases [OF inv that] inv by auto
  show "\<exists>t'. ht_take i t = (Inr h, t')" if "ht_get t i = Inr h"
    using that by (auto simp: ht_get_def ht_take_def split: if_splits option.splits)
  show "ht_inv t' \<and> (\<forall>j. ht_get t' j = ht_get t j) \<and> ht_entries t' = ht_entries t" if "ht_take i t = (Inl e, t')"
  proof -
    have "t' = t" using that by (auto simp: ht_take_def list_update_same_conv split: if_splits option.splits)
    then show ?thesis using inv by simp
  qed
  show "ht_inv t' \<and> ht_get t i = Inr h \<and> (\<exists>e. ht_get t' i = Inl e) \<and> (\<forall>j. j \<noteq> i \<longrightarrow> ht_get t' j = ht_get t j) \<and>
      mset (ht_entries t) = add_mset h (mset (ht_entries t'))" if "ht_take i t = (Inr h, t')"
  proof -
    have u: "unat i < length t" "t ! unat i = Some h" "t' = t[unat i := None]"
      using that by (auto simp: ht_take_def split: if_splits option.splits)
    have "ht_get t' j = ht_get t j" if "j \<noteq> i" for j
    proof -
      have "unat j \<noteq> unat i" using that by (simp add: word_unat_eq_iff)
      then show ?thesis using u by (simp add: ht_get_def)
    qed
    then show ?thesis using u inv ht_entries_remove [OF u(1,2)] by (simp add: ht_inv_def ht_get_def)
  qed
  show "ht_inv t' \<and> ht_get t' i = Inr h \<and> (\<exists>e. ht_get t i = Inl e) \<and> (\<forall>j. j \<noteq> i \<longrightarrow> ht_get t' j = ht_get t j) \<and>
      mset (ht_entries t') = add_mset h (mset (ht_entries t))" if ins: "ht_insert h t = (Inr i, t')"
  proof -
    obtain k where k: "i = word_of_nat k" "k < HANDLES_MAX" "k \<le> length t" "k < length t \<longrightarrow> t ! k = None"
      "t' = take k t @ Some h # drop (Suc k) t"
      using ht_insert_cases [OF inv ins] by auto
    have u: "unat i = k" using k(1,2) by (simp add: HANDLES_MAX_def unat_of_nat)
    have nth: "t' ! n = (if n = k then Some h else t ! n)" if "n < length t'" for n
      using that k(3) by (auto simp: k(5) nth_append nth_Cons')
    have len: "length t' = max (Suc k) (length t)" using k(3) by (auto simp: k(5))
    have "ht_inv t'" using inv len k(2) by (simp add: ht_inv_def)
    moreover have "ht_get t' i = Inr h" using nth [of k] len by (simp add: ht_get_def u)
    moreover have "ht_get t i = Inl BadHandle" using k(4) by (simp add: ht_get_def u)
    moreover have "ht_get t' j = ht_get t j" if "j \<noteq> i" for j
    proof -
      have "unat j \<noteq> k" using that u by (metis word_unat_eq_iff)
      then show ?thesis using nth [of "unat j"] len k(3) by (auto simp: ht_get_def)
    qed
    moreover have "mset (ht_entries t') = add_mset h (mset (ht_entries t))"
    proof (cases "k < length t")
      case True
      then show ?thesis using ht_entries_update [OF True] k(4,5) by (simp add: upd_conv_take_nth_drop)
    next
      case False
      then show ?thesis using k(3,5) by simp
    qed
    ultimately show ?thesis by blast
  qed
qed

section \<open>Runs of a channel\<close>

text \<open>
  A channel with its history: what was accepted for each side, what each side received, and the
  threads asleep in a blocking receive.
\<close>

record channel_log =
  cl_sent :: "bool \<Rightarrow> message list"
  cl_received :: "bool \<Rightarrow> message list"
  cl_asleep :: "bool \<Rightarrow> nat set"

datatype channel_op = OpSend bool message | OpTryRecv bool | OpRecv bool nat | OpClose bool

fun channel_exec :: "channel_op \<Rightarrow> channel \<times> channel_log \<Rightarrow> channel \<times> channel_log" where
  "channel_exec (OpSend s msg) (c, l) =
     (case ch_send s msg c of
        (Inl _, w, c') \<Rightarrow> (c', l)
      | (Inr _, w, c') \<Rightarrow>
          (c', l\<lparr>cl_sent := (cl_sent l)(\<not> s := cl_sent l (\<not> s) @ [msg]), cl_asleep := (cl_asleep l)(\<not> s := cl_asleep l (\<not> s) - set w)\<rparr>))"
| "channel_exec (OpTryRecv s) (c, l) =
     (case ch_try_recv s c of
        (Inl _, c') \<Rightarrow> (c', l)
      | (Inr msg, c') \<Rightarrow> (c', l\<lparr>cl_received := (cl_received l)(s := cl_received l s @ [msg])\<rparr>))"
| "channel_exec (OpRecv s t) (c, l) =
     (case ch_recv_turn False s (Some t) c of
        (None, c') \<Rightarrow> (c', l\<lparr>cl_asleep := (cl_asleep l)(s := insert t (cl_asleep l s))\<rparr>)
      | (Some (Inl _), c') \<Rightarrow> (c', l)
      | (Some (Inr msg), c') \<Rightarrow> (c', l\<lparr>cl_received := (cl_received l)(s := cl_received l s @ [msg])\<rparr>))"
| "channel_exec (OpClose s) (c, l) =
     (case ch_close s c of
        (_, _, w, c') \<Rightarrow> (c', l\<lparr>cl_asleep := (cl_asleep l)(\<not> s := cl_asleep l (\<not> s) - set w)\<rparr>))"

definition channel_start :: "channel \<times> channel_log" where
  "channel_start = (channel_new, \<lparr>cl_sent = (\<lambda>_. []), cl_received = (\<lambda>_. []), cl_asleep = (\<lambda>_. {})\<rparr>)"

text \<open>
  On an open side everything accepted was received or is still in the queue, in order; a closed side has
  an empty queue. A thread is asleep only while its side has nothing to say.
\<close>

definition side_inv :: "channel \<Rightarrow> channel_log \<Rightarrow> bool \<Rightarrow> bool" where
  "side_inv c l s \<longleftrightarrow>
     (if ch_closed c s then ch_queues c s = [] \<and> take (length (cl_received l s)) (cl_sent l s) = cl_received l s
      else cl_sent l s = cl_received l s @ ch_queues c s) \<and>
     ch_closed c s = ce_closed_by_me c s \<and> length (ch_queues c s) \<le> CHANNEL_QUEUE_MAX \<and>
     cl_asleep l s \<subseteq> set (ch_waiters c s) \<and> (ch_waiters c s \<noteq> [] \<longrightarrow> \<not> readable s c)"

definition channel_inv :: "channel \<times> channel_log \<Rightarrow> bool" where
  [nexo_inv]: "channel_inv cl \<longleftrightarrow> (\<forall>s. side_inv (fst cl) (snd cl) s)"

lemmas channel_defs = ch_send_def ch_try_recv_def ch_recv_turn_def ch_close_def ch_register_waiter_def readable_def side_inv_def

lemma both_sides: "(\<forall>x. Q x) \<longleftrightarrow> Q s \<and> Q (\<not> s)"
  by (cases s) (auto simp: all_bool_eq)

lemma channel_exec_inv:
  assumes "channel_inv cl"
  shows "channel_inv (channel_exec op cl)"
proof -
  obtain c l where cl: "cl = (c, l)" by (metis surj_pair)
  have inv: "side_inv c l s" for s using assms by (simp add: cl channel_inv_def)
  show ?thesis
  proof (cases op)
    case (OpSend s msg)
    show ?thesis unfolding channel_inv_def both_sides [where s = s] cl OpSend
      using inv [of s] inv [of "\<not> s"] by (auto simp: channel_defs Let_def)
  next
    case (OpTryRecv s)
    show ?thesis unfolding channel_inv_def both_sides [where s = s] cl OpTryRecv
      using inv [of s] inv [of "\<not> s"] by (auto simp: channel_defs split: list.splits)
  next
    case (OpRecv s t)
    show ?thesis unfolding channel_inv_def both_sides [where s = s] cl OpRecv
      using inv [of s] inv [of "\<not> s"] by (auto simp: channel_defs split: list.splits)
  next
    case (OpClose s)
    show ?thesis unfolding channel_inv_def both_sides [where s = s] cl OpClose
      using inv [of s] inv [of "\<not> s"] by (auto simp: channel_defs)
  qed
qed

lemma channel_run_inv: "channel_inv (fold channel_exec ops channel_start)"
proof -
  have "channel_inv channel_start" by (simp add: channel_inv_def channel_start_def channel_new_def channel_defs)
  then show ?thesis by (induction ops rule: rev_induct) (simp_all add: channel_exec_inv)
qed

section \<open>Runs of an event\<close>

datatype event_op = EvSignal | EvReset | EvTake | EvWait nat

text \<open>An event with the number of signals it got and of waits it let pass.\<close>

fun event_exec :: "event_op \<Rightarrow> event \<times> nat \<times> nat \<Rightarrow> event \<times> nat \<times> nat" where
  "event_exec EvSignal (e, sg, ps) = (snd (event_sinalizar e), Suc sg, ps)"
| "event_exec EvReset (e, sg, ps) = (event_resetar e, sg, ps)"
| "event_exec EvTake (e, sg, ps) = (case event_tomar e of (ok, e') \<Rightarrow> (e', sg, if ok then Suc ps else ps))"
| "event_exec (EvWait t) (e, sg, ps) = (event_register_waiter t e, sg, ps)"

lemma event_auto_count:
  assumes "fold event_exec ops (event_new True, 0, 0) = (e, sg, ps)"
  shows "ev_auto e \<and> ps + (if ev_sinalizado e then 1 else 0) \<le> sg"
  using assms
proof (induction ops arbitrary: e sg ps rule: rev_induct)
  case Nil
  then show ?case by (auto simp: event_new_def)
next
  case (snoc op ops)
  obtain e0 sg0 ps0 where f: "fold event_exec ops (event_new True, 0, 0) = (e0, sg0, ps0)" by (metis surj_pair)
  have "event_exec op (e0, sg0, ps0) = (e, sg, ps)" using snoc.prems f by simp
  then show ?case using snoc.IH [OF f]
    by (cases op) (auto simp: event_sinalizar_def event_resetar_def event_tomar_def event_register_waiter_def split: if_splits)
qed

section \<open>Properties\<close>

text \<open>
  C29: a handle table. Inserting finds an index that was not in use, the handle is found there and
  nowhere else does anything change; taking it again restores every lookup. It fails, without
  effect, only when all 256 slots are in use.
\<close>

theorem handle_insert_take:
  assumes inv: "ht_inv t"
  shows "case ht_insert h t of
      (Inr i, t') \<Rightarrow> ht_inv t' \<and> ht_get t i = Err BadHandle \<and> ht_get t' i = Ok h \<and> (\<forall>j. j \<noteq> i \<longrightarrow> ht_get t' j = ht_get t j) \<and>
        (\<exists>t''. ht_take i t' = (Ok h, t'') \<and> (\<forall>j. ht_get t'' j = ht_get t j))
    | (Inl e, t') \<Rightarrow> e = NoMemory \<and> t' = t \<and> ht_len t = HANDLES_MAX"
proof -
  obtain r t' where r: "ht_insert h t = (r, t')" by (metis surj_pair)
  have bad: "e = BadHandle" if "ht_get u k = Inl e" for u k e
    using that by (auto simp: ht_get_def split: if_splits option.splits)
  show ?thesis
  proof (cases r)
    case (Inl e)
    then have "e = NoMemory" "t' = t" "length t = HANDLES_MAX" "None \<notin> set t" using ht_insert_cases [OF inv r] by auto
    moreover from this have "ht_len t = length t" unfolding ht_len_def by (intro arg_cong [where f = length] filter_True) metis
    ultimately show ?thesis using r Inl by simp
  next
    case (Inr i)
    note I = handles.ins_Ok [OF inv r [unfolded Inr]]
    obtain t'' where k: "ht_take i t' = (Ok h, t'')" using handles.tak_get I by blast
    have "ht_inv t'" using I by simp
    note T = handles.tak_Ok [OF this k]
    have "ht_get t'' j = ht_get t j" for j using I T bad by (cases "j = i") metis+
    then show ?thesis using r Inr I k bad by auto
  qed
qed

theorem handle_insert_take_witness:
  "case ht_insert \<lparr>h_object = ObjDebug, h_rights = 1\<rparr> [Some \<lparr>h_object = ObjDebug, h_rights = 3\<rparr>, None] of
      (Inr i, t') \<Rightarrow> i = 1 \<and> ht_get t' 1 = Ok \<lparr>h_object = ObjDebug, h_rights = 1\<rparr> | (Inl e, t') \<Rightarrow> False"
proof -
  let ?t = "[Some \<lparr>h_object = ObjDebug, h_rights = 3\<rparr>, None]"
  have "ht_inv ?t" by (simp add: ht_inv_def HANDLES_MAX_def)
  from handle_insert_take [OF this, of "\<lparr>h_object = ObjDebug, h_rights = 1\<rparr>"] show ?thesis
    by (simp add: ht_insert_def)
qed

text \<open>
  C7: a channel under any sequence of sends, receives and closes. What a side has received is the
  beginning of what was accepted for it, in order, without loss or repetition; while the side is
  open the rest is exactly its queue, which never exceeds 64 messages; and no thread sleeps in
  a receive while its side has a message or its peer is closed, so no wake-up is ever lost.
\<close>

theorem channel_fifo:
  "case fold channel_exec ops channel_start of (c, l) \<Rightarrow>
     take (length (cl_received l s)) (cl_sent l s) = cl_received l s \<and>
     (if ch_closed c s then ch_queues c s = [] else cl_sent l s = cl_received l s @ ch_queues c s) \<and>
     length (ch_queues c s) \<le> 64 \<and> (readable s c \<longrightarrow> cl_asleep l s = {})"
proof -
  obtain c l where cl: "fold channel_exec ops channel_start = (c, l)" by (metis surj_pair)
  have "side_inv c l s" using channel_run_inv [of ops] by (simp add: channel_inv_def cl)
  then show ?thesis by (auto simp: cl side_inv_def CHANNEL_QUEUE_MAX_def split: if_splits)
qed

definition sample_ops :: "channel_op list" where
  "sample_ops = [OpRecv True 7, OpSend False \<lparr>msg_data = PayHeap [1], msg_handles = []\<rparr>, OpTryRecv True, OpClose False]"

theorem channel_fifo_witness:
  "case fold channel_exec sample_ops channel_start of (c, l) \<Rightarrow> readable True c \<and> length (cl_received l True) = 1 \<and> cl_asleep l True = {}"
proof -
  have "case fold channel_exec sample_ops channel_start of (c, l) \<Rightarrow> readable True c \<and> length (cl_received l True) = 1"
    by (simp add: sample_ops_def channel_start_def channel_new_def channel_defs CHANNEL_QUEUE_MAX_def)
  then show ?thesis using channel_fifo [where ops = sample_ops and s = True] by (simp split: prod.splits)
qed

text \<open>
  C30: an automatic event. However signals, resets and waits interleave, a signal lets at most one
  wait pass, and a signal that is still pending has not been used.
\<close>

theorem event_auto_once:
  "case fold event_exec ops (event_new True, 0, 0) of (e, sg, ps) \<Rightarrow> ps + (if ev_sinalizado e then 1 else 0) \<le> sg"
  using event_auto_count [of ops] by (auto split: prod.splits)

end
