(* ===== verification/Mm_Addr.thy ===== *)
theory Mm_Addr
  imports Nexo_Prelude
begin

text \<open>
  \<^verbatim>\<open>kernel/lib/mm/src/addr.rs\<close>: physical and virtual addresses. Both are transparent wrappers
  of \<^verbatim>\<open>u64\<close>, so both are \<open>u64\<close> here. The \<^verbatim>\<open>debug_assert!\<close> that an alignment is a power of two is
  not part of a release build; the lemmas name it as a hypothesis.
\<close>

section \<open>Definitions\<close>

type_synonym phys_addr = u64
type_synonym virt_addr = u64

definition PAGE_SHIFT :: nat where
  "PAGE_SHIFT = 12"

definition PAGE_SIZE :: u64 where
  "PAGE_SIZE = push_bit PAGE_SHIFT 1"

definition align_down :: "u64 \<Rightarrow> u64 \<Rightarrow> u64" where
  "align_down v align = v AND NOT (align - 1)"

definition align_up :: "u64 \<Rightarrow> u64 \<Rightarrow> u64" where
  "align_up v align =
     (case checked_add v (align - 1) of
        Some x \<Rightarrow> x AND NOT (align - 1)
      | None \<Rightarrow> NOT (align - 1))"

text \<open>\<^verbatim>\<open>PhysAddr\<close>.\<close>

definition phys_is_aligned :: "phys_addr \<Rightarrow> u64 \<Rightarrow> bool" where
  "phys_is_aligned a align \<longleftrightarrow> a AND (align - 1) = 0"

definition frame_index :: "phys_addr \<Rightarrow> u64" where
  "frame_index a = drop_bit PAGE_SHIFT a"

definition phys_checked_add :: "phys_addr \<Rightarrow> u64 \<Rightarrow> phys_addr option" where
  "phys_checked_add a off = checked_add a off"

definition phys_add :: "phys_addr \<Rightarrow> u64 \<Rightarrow> phys_addr" where
  "phys_add a off = a + off"

text \<open>\<^verbatim>\<open>VirtAddr\<close>.\<close>

definition is_canonical :: "virt_addr \<Rightarrow> bool" where
  "is_canonical v = (let top = drop_bit 47 v in top = 0 \<or> top = 0x1ffff)"

definition virt_is_aligned :: "virt_addr \<Rightarrow> u64 \<Rightarrow> bool" where
  "virt_is_aligned v align \<longleftrightarrow> v AND (align - 1) = 0"

definition virt_add :: "virt_addr \<Rightarrow> u64 \<Rightarrow> virt_addr" where
  "virt_add v off = v + off"

definition page_offset :: "virt_addr \<Rightarrow> u64" where
  "page_offset v = v AND (PAGE_SIZE - 1)"

text \<open>The level is a \<^verbatim>\<open>u8\<close> between 1 and 4 at every call.\<close>

definition table_index :: "virt_addr \<Rightarrow> nat \<Rightarrow> nat" where
  "table_index v level = unat (drop_bit (12 + 9 * (level - 1)) v AND 0x1ff)"

section \<open>Alignment\<close>

lemma PAGE_SIZE_val [nexo_const]: "PAGE_SIZE = 4096"
  by (simp add: PAGE_SIZE_def PAGE_SHIFT_def push_bit_eq_mult)

lemma unat_PAGE_SIZE [simp]: "unat PAGE_SIZE = 4096"
  by (simp add: PAGE_SIZE_val)

lemma pow2_minus_1: "k < 64 \<Longrightarrow> (2 ^ k :: u64) - 1 = mask k"
  by (simp add: mask_eq_decr_exp)

lemma unat_pow2: "k < 64 \<Longrightarrow> unat (2 ^ k :: u64) = 2 ^ k"
  using of_nat_inverse [of "2 ^ k" "2 ^ k :: u64"] power_strict_increasing [of k 64 "2::nat"]
  by simp

lemma unat_pow2_minus_1: "k < 64 \<Longrightarrow> unat ((2 ^ k :: u64) - 1) = 2 ^ k - 1"
  by (subst unat_minus_one) (simp_all add: unat_pow2)

lemma unat_align_down:
  "k < 64 \<Longrightarrow> unat (align_down v (2 ^ k)) = unat v div 2 ^ k * 2 ^ k"
  by (simp add: align_down_def pow2_minus_1 and_not_mask_unat)

lemma unat_not_mask_64: "k < 64 \<Longrightarrow> unat (NOT (mask k) :: u64) = 2 ^ 64 - 2 ^ k"
proof -
  assume k: "k < 64"
  have "(2::nat) ^ 64 = 2 ^ k * 2 ^ (64 - k)"
    using k by (simp flip: power_add)
  then have "(2 ^ 64 - 1) div 2 ^ k = (2::nat) ^ (64 - k) - 1"
    by (intro div_nat_eqI) (auto simp: algebra_simps le_diff_conv)
  moreover have "unat (- 1 AND NOT (mask k) :: u64) = unat (- 1 :: u64) div 2 ^ k * 2 ^ k"
    by (rule and_not_mask_unat)
  moreover have "unat (- 1 :: u64) = 2 ^ 64 - 1"
    by (simp add: unsigned_minus_1_eq_mask mask_eq_exp_minus_1)
  ultimately show ?thesis
    using \<open>2 ^ 64 = 2 ^ k * 2 ^ (64 - k)\<close> by (simp add: algebra_simps)
qed

lemma unat_align_up:
  assumes k: "k < 64"
  shows "unat (align_up v (2 ^ k)) =
    (if unat v + (2 ^ k - 1) < 2 ^ 64
     then (unat v + (2 ^ k - 1)) div 2 ^ k * 2 ^ k else 2 ^ 64 - 2 ^ k)"
proof (cases "unat v + (2 ^ k - 1) < 2 ^ 64")
  case True
  then have sum: "unat v + unat ((2 ^ k :: u64) - 1) < 2 ^ LENGTH(64)"
    using k by (simp add: unat_pow2_minus_1)
  then have "align_up v (2 ^ k) = (v + (2 ^ k - 1)) AND NOT (mask k)"
    using k by (simp add: align_up_def checked_add_def pow2_minus_1)
  then show ?thesis
    using True k unat_add_no_overflow [OF sum]
    by (simp add: and_not_mask_unat unat_pow2_minus_1)
next
  case False
  then have "align_up v (2 ^ k) = NOT (mask k)"
    using k by (simp add: align_up_def checked_add_def unat_pow2_minus_1)
               (simp add: pow2_minus_1)
  with False k show ?thesis by (simp add: unat_not_mask_64)
qed

lemma phys_is_aligned_iff: "k < 64 \<Longrightarrow> phys_is_aligned a (2 ^ k) \<longleftrightarrow> 2 ^ k dvd unat a"
  by (simp add: phys_is_aligned_def pow2_minus_1 and_mask_dvd_nat)

lemma virt_is_aligned_iff: "k < 64 \<Longrightarrow> virt_is_aligned a (2 ^ k) \<longleftrightarrow> 2 ^ k dvd unat a"
  by (simp add: virt_is_aligned_def pow2_minus_1 and_mask_dvd_nat)

lemma PAGE_SIZE_pow2: "PAGE_SIZE = 2 ^ 12"
  by (simp add: PAGE_SIZE_val)

lemma phys_aligned_page: "phys_is_aligned a PAGE_SIZE \<longleftrightarrow> 4096 dvd unat a"
  using phys_is_aligned_iff [of 12 a] by (simp add: PAGE_SIZE_pow2)

lemma virt_aligned_page: "virt_is_aligned a PAGE_SIZE \<longleftrightarrow> 4096 dvd unat a"
  using virt_is_aligned_iff [of 12 a] by (simp add: PAGE_SIZE_pow2)

lemma unat_frame_index [nexo_word]: "unat (frame_index a) = unat a div 4096"
  using unat_drop_bit [of 12 a] by (simp add: frame_index_def PAGE_SHIFT_def)

lemma frame_index_mult: "4096 dvd unat a \<Longrightarrow> a = word_of_nat (unat (frame_index a) * 4096)"
  by (simp add: unat_frame_index)

text \<open>
  The rounded value as the code promises it: the least multiple not below \<open>v\<close>, or, when
  there is none in 64 bits, the greatest multiple there is.
\<close>

lemma align_up_least:
  assumes "k < 64"
  shows "2 ^ k dvd unat (align_up v (2 ^ k))"
    and "unat v \<le> 2 ^ 64 - 2 ^ k \<Longrightarrow> v \<le> align_up v (2 ^ k)"
    and "2 ^ k dvd unat m \<Longrightarrow> v \<le> m \<Longrightarrow> align_up v (2 ^ k) \<le> m"
proof -
  have pow: "(2::nat) ^ 64 = 2 ^ k * 2 ^ (64 - k)"
    using assms by (simp flip: power_add)
  have "(2::nat) ^ k dvd 2 ^ 64 - 2 ^ k"
    by (rule dvd_diff_nat) (simp_all add: pow del: power_numeral)
  then show "2 ^ k dvd unat (align_up v (2 ^ k))"
    using assms by (simp add: unat_align_up)
  show "v \<le> align_up v (2 ^ k)" if "unat v \<le> 2 ^ 64 - 2 ^ k"
  proof -
    have "unat v \<le> (unat v + (2 ^ k - 1)) div 2 ^ k * 2 ^ k"
      using div_ceil_le_iff [of "2 ^ k" "unat v" "(unat v + (2 ^ k - 1)) div 2 ^ k"]
      by (simp add: div_ceil_def)
    moreover have "unat v + (2 ^ k - 1) < 2 ^ 64"
      using that power_strict_increasing [of k 64 "2::nat"] assms by simp
    ultimately show ?thesis using assms by (simp add: word_le_nat_alt unat_align_up)
  qed
  show "align_up v (2 ^ k) \<le> m" if "2 ^ k dvd unat m" "v \<le> m"
  proof -
    from that(1) obtain n where n: "unat m = n * 2 ^ k" by (metis dvd_def mult.commute)
    from that(2) have "unat v \<le> n * 2 ^ k" by (simp add: word_le_nat_alt n)
    then have "(unat v + (2 ^ k - 1)) div 2 ^ k \<le> n"
      using div_ceil_le_iff [of "2 ^ k" "unat v" n] by (simp add: div_ceil_def)
    then have le: "(unat v + (2 ^ k - 1)) div 2 ^ k * 2 ^ k \<le> n * 2 ^ k"
      by (rule mult_le_mono1)
    have "unat v + (2 ^ k - 1) < 2 ^ 64 \<or> 2 ^ 64 - 2 ^ k \<le> n * 2 ^ k"
    proof -
      have "n * 2 ^ k < 2 ^ (64 - k) * 2 ^ k"
        using unsigned_less [of m, where ?'a = nat] n pow by (simp add: mult.commute)
      then have "Suc n * 2 ^ k \<le> 2 ^ (64 - k) * 2 ^ k"
        by (intro mult_le_mono1) simp
      then have "n * 2 ^ k + 2 ^ k \<le> 2 ^ 64"
        unfolding pow by (simp add: algebra_simps)
      with \<open>unat v \<le> n * 2 ^ k\<close> have "unat v + 2 ^ k \<le> 2 ^ 64" by linarith
      moreover have "0 < (2::nat) ^ k" by simp
      ultimately have "unat v + (2 ^ k - 1) < 2 ^ 64" by linarith
      then show ?thesis ..
    qed
    with le assms show ?thesis by (auto simp: word_le_nat_alt unat_align_up n)
  qed
qed

section \<open>Decomposition of a virtual address\<close>

lemma table_index_less: "table_index v level < 512"
proof -
  have "(0x1ff :: u64) = mask 9" by (simp add: mask_eq_exp_minus_1)
  then show ?thesis
    unfolding table_index_def by (simp only: and_mask_unat) simp
qed

lemma table_index_unat: "table_index v level = unat v div 2 ^ (12 + 9 * (level - 1)) mod 512"
proof -
  have "(0x1ff :: u64) = mask 9" by (simp add: mask_eq_exp_minus_1)
  then show ?thesis
    unfolding table_index_def
    by (simp only: and_mask_unat unat_drop_bit) simp
qed

lemma page_offset_unat: "unat (page_offset v) = unat v mod 4096"
proof -
  have "PAGE_SIZE - 1 = (mask 12 :: u64)" by (simp add: PAGE_SIZE_val mask_eq_exp_minus_1)
  then show ?thesis by (simp add: page_offset_def and_mask_unat)
qed

end
