(* ===== verification/Frame_Bitmap.thy ===== *)
theory Frame_Bitmap
  imports Mm_Addr
begin

text \<open>
  \<^verbatim>\<open>kernel/lib/mm/src/bitmap.rs\<close>: the physical frame allocator, two bitmaps with one bit per
  4 KiB frame. In \<^verbatim>\<open>bits\<close> a one means busy or unavailable, in \<^verbatim>\<open>usable\<close> a one means RAM the kernel
  may hand out. The counters are \<^verbatim>\<open>u64\<close> in the code and \<open>nat\<close> here: the invariant shows that no
  decrement happens at zero. A frame number is \<open>nat\<close>; the address of frame \<open>f\<close> is the wrapping
  product \<^verbatim>\<open>f * PAGE_SIZE\<close> of the code.

  The interface \<open>frame_allocator\<close> states what \<^verbatim>\<open>trait FrameAllocator\<close> promises its clients (the
  page-table code); the bitmap allocator is shown to provide it.
\<close>

section \<open>State\<close>

datatype frame_error =
    Unaligned phys_addr
  | OutOfRange phys_addr
  | DoubleFree phys_addr
  | NotUsable phys_addr

record frame_stats =
  st_capacity :: nat
  st_total_usable :: nat
  st_free :: nat
  st_allocations :: nat
  st_frees :: nat
  st_failures :: nat

definition st_used :: "frame_stats \<Rightarrow> nat" where
  "st_used s = st_total_usable s - st_free s"

record frame_alloc =
  fa_bits :: "u64 list"
  fa_usable :: "u64 list"
  fa_capacity :: nat
  fa_stats :: frame_stats
  fa_hint :: nat

section \<open>Operations\<close>

definition words_for :: "nat \<Rightarrow> nat" where
  "words_for frames = 2 * div_ceil frames 64"

text \<open>\<open>None\<close> is the panic of the assertion on the storage size.\<close>

definition bitmap_new :: "nat \<Rightarrow> u64 list \<Rightarrow> frame_alloc option" where
  "bitmap_new frames storage =
     (let words = words_for frames in
      if length storage < words then None
      else Some \<lparr>fa_bits = replicate (words div 2) (- 1),
                 fa_usable = replicate (words div 2) 0,
                 fa_capacity = frames,
                 fa_stats = \<lparr>st_capacity = frames, st_total_usable = 0, st_free = 0,
                             st_allocations = 0, st_frees = 0, st_failures = 0\<rparr>,
                 fa_hint = 0\<rparr>)"

definition is_usable_frame :: "frame_alloc \<Rightarrow> nat \<Rightarrow> bool" where
  "is_usable_frame a f \<longleftrightarrow> (fa_usable a ! (f div 64)) AND push_bit (f mod 64) 1 \<noteq> 0"

definition test_frame :: "frame_alloc \<Rightarrow> nat \<Rightarrow> bool" where
  "test_frame a f \<longleftrightarrow> (fa_bits a ! (f div 64)) AND push_bit (f mod 64) 1 \<noteq> 0"

definition set_frame :: "nat \<Rightarrow> frame_alloc \<Rightarrow> frame_alloc" where
  "set_frame f a = a\<lparr>fa_bits := (fa_bits a)[f div 64 := (fa_bits a ! (f div 64)) OR push_bit (f mod 64) 1]\<rparr>"

definition clear_frame :: "nat \<Rightarrow> frame_alloc \<Rightarrow> frame_alloc" where
  "clear_frame f a =
     a\<lparr>fa_bits := (fa_bits a)[f div 64 := (fa_bits a ! (f div 64)) AND NOT (push_bit (f mod 64) 1)]\<rparr>"

definition frame_range :: "frame_alloc \<Rightarrow> phys_addr \<Rightarrow> phys_addr \<Rightarrow> (frame_error, nat \<times> nat) result" where
  "frame_range a start end =
     (if \<not> phys_is_aligned start PAGE_SIZE then Err (Unaligned start)
      else if \<not> phys_is_aligned end PAGE_SIZE then Err (Unaligned end)
      else let s = unat (frame_index start);
               e = min (unat (frame_index end)) (fa_capacity a)
           in Ok (s, max e s))"

text \<open>The loop bodies of \<^verbatim>\<open>mark_usable\<close> and \<^verbatim>\<open>mark_used\<close>, for one frame.\<close>

definition mark_usable_frame :: "nat \<Rightarrow> frame_alloc \<Rightarrow> frame_alloc" where
  "mark_usable_frame f a =
     (if is_usable_frame a f then a
      else let a1 = a\<lparr>fa_usable := (fa_usable a)[f div 64 := (fa_usable a ! (f div 64)) OR push_bit (f mod 64) 1]\<rparr>;
               a2 = clear_frame f a1
           in a2\<lparr>fa_stats := (fa_stats a2)\<lparr>st_total_usable := st_total_usable (fa_stats a2) + 1,
                                          st_free := st_free (fa_stats a2) + 1\<rparr>\<rparr>)"

definition mark_usable ::
  "frame_alloc \<Rightarrow> phys_addr \<Rightarrow> phys_addr \<Rightarrow> (frame_error, unit) result \<times> frame_alloc" where
  "mark_usable a start end =
     (case frame_range a start end of
        Inl e \<Rightarrow> (Err e, a)
      | Inr (s, e) \<Rightarrow> (Ok (), fold mark_usable_frame [s..<e] a))"

definition mark_used_frame :: "nat \<Rightarrow> frame_alloc \<Rightarrow> frame_alloc" where
  "mark_used_frame f a =
     (if test_frame a f then a
      else let a1 = set_frame f a
           in a1\<lparr>fa_stats := (fa_stats a1)\<lparr>st_free := st_free (fa_stats a1) - 1\<rparr>\<rparr>)"

definition mark_used ::
  "frame_alloc \<Rightarrow> phys_addr \<Rightarrow> phys_addr \<Rightarrow> (frame_error, unit) result \<times> frame_alloc" where
  "mark_used a start end =
     (case frame_range a start end of
        Inl e \<Rightarrow> (Err e, a)
      | Inr (s, e) \<Rightarrow> (Ok (), fold mark_used_frame [s..<e] a))"

definition is_free :: "frame_alloc \<Rightarrow> phys_addr \<Rightarrow> bool" where
  "is_free a frame = (let idx = unat (frame_index frame) in idx < fa_capacity a \<and> \<not> test_frame a idx)"

text \<open>The scan of \<^verbatim>\<open>allocate\<close>: the list holds the steps still to try.\<close>

fun allocate_scan :: "nat list \<Rightarrow> frame_alloc \<Rightarrow> phys_addr option \<times> frame_alloc" where
  "allocate_scan [] a =
     (None, a\<lparr>fa_stats := (fa_stats a)\<lparr>st_failures := st_failures (fa_stats a) + 1\<rparr>\<rparr>)"
| "allocate_scan (step # steps) a =
     (let w = (fa_hint a + step) mod length (fa_bits a);
          word = fa_bits a ! w
      in if word = - 1 then allocate_scan steps a
         else let frame = w * 64 + trailing_ones word
              in if fa_capacity a \<le> frame then allocate_scan steps a
                 else let a1 = (set_frame frame a)\<lparr>fa_hint := w\<rparr>;
                          s = fa_stats a1
                      in (Some (word_of_nat frame * PAGE_SIZE),
                          a1\<lparr>fa_stats := s\<lparr>st_free := st_free s - 1,
                                           st_allocations := st_allocations s + 1\<rparr>\<rparr>))"

definition allocate :: "frame_alloc \<Rightarrow> phys_addr option \<times> frame_alloc" where
  "allocate a = allocate_scan [0..<length (fa_bits a)] a"

definition free_frame :: "frame_alloc \<Rightarrow> phys_addr \<Rightarrow> (frame_error, unit) result \<times> frame_alloc" where
  "free_frame a frame =
     (if \<not> phys_is_aligned frame PAGE_SIZE then (Err (Unaligned frame), a)
      else let idx = unat (frame_index frame) in
      if fa_capacity a \<le> idx then (Err (OutOfRange frame), a)
      else if \<not> is_usable_frame a idx then (Err (NotUsable frame), a)
      else if \<not> test_frame a idx then (Err (DoubleFree frame), a)
      else let a1 = (clear_frame idx a)\<lparr>fa_hint := min (fa_hint a) (idx div 64)\<rparr>;
               s = fa_stats a1
           in (Ok (), a1\<lparr>fa_stats := s\<lparr>st_free := st_free s + 1, st_frees := st_frees s + 1\<rparr>\<rparr>))"

text \<open>\<^verbatim>\<open>impl FrameAllocator\<close>: an invalid release panics (\<open>None\<close>).\<close>

definition deallocate_frame :: "frame_alloc \<Rightarrow> phys_addr \<Rightarrow> frame_alloc option" where
  "deallocate_frame a frame =
     (case free_frame a frame of (Inl e, _) \<Rightarrow> None | (Inr _, a') \<Rightarrow> Some a')"

section \<open>Invariant\<close>

text \<open>The frames an allocator can still hand out, and the frames declared usable so far.\<close>

definition free_frames :: "frame_alloc \<Rightarrow> nat set" where
  "free_frames a = {f. f < fa_capacity a \<and> \<not> test_frame a f}"

definition usable_frames :: "frame_alloc \<Rightarrow> nat set" where
  "usable_frames a = {f. f < fa_capacity a \<and> is_usable_frame a f}"

text \<open>
  A zero bit anywhere in the storage marks a usable frame below the capacity, and the counters
  count what the bitmaps say. The bound on the capacity is what makes frame addresses fit in
  64 bits.
\<close>

definition fa_inv :: "frame_alloc \<Rightarrow> bool" where
  [nexo_inv]: "fa_inv a \<longleftrightarrow>
     length (fa_bits a) = div_ceil (fa_capacity a) 64 \<and>
     length (fa_usable a) = div_ceil (fa_capacity a) 64 \<and>
     fa_capacity a \<le> 2 ^ 52 \<and>
     (\<forall>f < 64 * length (fa_bits a). \<not> test_frame a f \<longrightarrow> f < fa_capacity a \<and> is_usable_frame a f) \<and>
     st_capacity (fa_stats a) = fa_capacity a \<and>
     st_total_usable (fa_stats a) = card (usable_frames a) \<and>
     st_free (fa_stats a) = card (free_frames a)"

lemma test_frame_bm: "test_frame a f \<longleftrightarrow> bm_bit (fa_bits a) f"
  by (simp add: test_frame_def bm_bit_def bit_iff_and_push_bit_not_eq_0)

lemma is_usable_frame_bm: "is_usable_frame a f \<longleftrightarrow> bm_bit (fa_usable a) f"
  by (simp add: is_usable_frame_def bm_bit_def bit_iff_and_push_bit_not_eq_0)

lemma finite_free_frames [simp]: "finite (free_frames a)"
  by (rule finite_subset [of _ "{..<fa_capacity a}"]) (auto simp: free_frames_def)

lemma finite_usable_frames [simp]: "finite (usable_frames a)"
  by (rule finite_subset [of _ "{..<fa_capacity a}"]) (auto simp: usable_frames_def)

lemma frame_word_in_range: "fa_inv a \<Longrightarrow> f < fa_capacity a \<Longrightarrow> f div 64 < length (fa_bits a)"
  by (simp add: fa_inv_def less_div_ceil_iff)

lemma usable_word_in_range: "fa_inv a \<Longrightarrow> f < fa_capacity a \<Longrightarrow> f div 64 < length (fa_usable a)"
  by (simp add: fa_inv_def less_div_ceil_iff)

lemma set_frame_simps [simp]:
  "fa_usable (set_frame f a) = fa_usable a" "fa_capacity (set_frame f a) = fa_capacity a"
  "fa_stats (set_frame f a) = fa_stats a" "fa_hint (set_frame f a) = fa_hint a"
  "length (fa_bits (set_frame f a)) = length (fa_bits a)"
  by (simp_all add: set_frame_def)

lemma clear_frame_simps [simp]:
  "fa_usable (clear_frame f a) = fa_usable a" "fa_capacity (clear_frame f a) = fa_capacity a"
  "fa_stats (clear_frame f a) = fa_stats a" "fa_hint (clear_frame f a) = fa_hint a"
  "length (fa_bits (clear_frame f a)) = length (fa_bits a)"
  by (simp_all add: clear_frame_def)

lemma test_set_frame:
  "f div 64 < length (fa_bits a) \<Longrightarrow> test_frame (set_frame f a) g \<longleftrightarrow> g = f \<or> test_frame a g"
  using bm_bit_or [of f "fa_bits a" g] by (simp add: test_frame_bm set_frame_def)

lemma test_clear_frame:
  "f div 64 < length (fa_bits a) \<Longrightarrow> test_frame (clear_frame f a) g \<longleftrightarrow> g \<noteq> f \<and> test_frame a g"
  using bm_bit_and_not [of f "fa_bits a" g] by (simp add: test_frame_bm clear_frame_def)

text \<open>Only the bitmaps matter for the two predicates.\<close>

lemma test_frame_cong: "fa_bits a = fa_bits b \<Longrightarrow> test_frame a f = test_frame b f"
  by (simp add: test_frame_def)

lemma is_usable_frame_cong: "fa_usable a = fa_usable b \<Longrightarrow> is_usable_frame a f = is_usable_frame b f"
  by (simp add: is_usable_frame_def)

lemma frame_pred_updates [simp]:
  "test_frame (a\<lparr>fa_stats := s\<rparr>) f = test_frame a f"
  "test_frame (a\<lparr>fa_hint := h\<rparr>) f = test_frame a f"
  "test_frame (a\<lparr>fa_usable := u\<rparr>) f = test_frame a f"
  "is_usable_frame (a\<lparr>fa_stats := s\<rparr>) f = is_usable_frame a f"
  "is_usable_frame (a\<lparr>fa_hint := h\<rparr>) f = is_usable_frame a f"
  "is_usable_frame (set_frame g a) f = is_usable_frame a f"
  "is_usable_frame (clear_frame g a) f = is_usable_frame a f"
  by (simp_all add: test_frame_def is_usable_frame_def)

section \<open>Preservation\<close>

lemma bitmap_new_inv:
  assumes "bitmap_new frames storage = Some a" and "frames \<le> 2 ^ 52"
  shows "fa_inv a" and "free_frames a = {}" and "usable_frames a = {}"
    and "fa_capacity a = frames"
proof -
  have a: "fa_bits a = replicate (div_ceil frames 64) (- 1)"
    "fa_usable a = replicate (div_ceil frames 64) 0" "fa_capacity a = frames"
    "fa_stats a = \<lparr>st_capacity = frames, st_total_usable = 0, st_free = 0,
                   st_allocations = 0, st_frees = 0, st_failures = 0\<rparr>"
    using assms(1) by (auto simp: bitmap_new_def words_for_def Let_def split: if_splits)
  have busy: "test_frame a f" if "f < 64 * length (fa_bits a)" for f
  proof -
    have "f div 64 < div_ceil frames 64" using that a by (simp add: less_mult_imp_div_less mult.commute)
    then show ?thesis by (simp add: test_frame_bm bm_bit_def a)
  qed
  have unus: "\<not> is_usable_frame a f" if "f < 64 * length (fa_bits a)" for f
  proof -
    have "f div 64 < div_ceil frames 64" using that a by (simp add: less_mult_imp_div_less mult.commute)
    then show ?thesis by (simp add: is_usable_frame_bm bm_bit_def a)
  qed
  have cap: "frames \<le> 64 * length (fa_bits a)"
    using div_ceil_le_iff [of 64 frames "div_ceil frames 64"] a by (simp add: mult.commute)
  show "free_frames a = {}" "usable_frames a = {}"
    using busy unus cap a by (auto simp: free_frames_def usable_frames_def)
  then show "fa_inv a"
    using busy a assms(2) by (auto simp: fa_inv_def)
  show "fa_capacity a = frames" by (rule a)
qed

text \<open>
  The two ways in which a free-frame count moves: a frame leaves the pool (\<open>took_frame\<close>) or
  comes back to it (\<open>put_frame\<close>). The hint and the other counters do not matter.
\<close>

definition took_frame :: "nat \<Rightarrow> frame_alloc \<Rightarrow> frame_alloc \<Rightarrow> bool" where
  "took_frame f a b \<longleftrightarrow> fa_bits b = fa_bits (set_frame f a) \<and> fa_usable b = fa_usable a \<and>
     fa_capacity b = fa_capacity a \<and> st_capacity (fa_stats b) = st_capacity (fa_stats a) \<and>
     st_total_usable (fa_stats b) = st_total_usable (fa_stats a) \<and>
     st_free (fa_stats b) = st_free (fa_stats a) - 1"

definition put_frame :: "nat \<Rightarrow> frame_alloc \<Rightarrow> frame_alloc \<Rightarrow> bool" where
  "put_frame f a b \<longleftrightarrow> fa_bits b = fa_bits (clear_frame f a) \<and> fa_usable b = fa_usable a \<and>
     fa_capacity b = fa_capacity a \<and> st_capacity (fa_stats b) = st_capacity (fa_stats a) \<and>
     st_total_usable (fa_stats b) = st_total_usable (fa_stats a) \<and>
     st_free (fa_stats b) = st_free (fa_stats a) + 1"

lemma took_frame_inv:
  assumes inv: "fa_inv a" and f: "f \<in> free_frames a" and t: "took_frame f a b"
  shows "fa_inv b" and "free_frames b = free_frames a - {f}" and "usable_frames b = usable_frames a"
    and "0 < st_free (fa_stats a)"
proof -
  have cap: "f < fa_capacity a" using f by (simp add: free_frames_def)
  have test: "test_frame b g \<longleftrightarrow> g = f \<or> test_frame a g" for g
    using t test_set_frame [OF frame_word_in_range [OF inv cap], of g]
      test_frame_cong [of b "set_frame f a" g] by (simp add: took_frame_def)
  have us: "is_usable_frame b g = is_usable_frame a g" for g
    using t by (intro is_usable_frame_cong) (simp add: took_frame_def)
  show fr: "free_frames b = free_frames a - {f}"
    using t by (auto simp: free_frames_def test took_frame_def)
  show ub: "usable_frames b = usable_frames a"
    using t by (auto simp: usable_frames_def us took_frame_def)
  have "card (free_frames b) = card (free_frames a) - 1"
    using f by (simp add: fr)
  then show "fa_inv b"
    using inv t ub by (auto simp: fa_inv_def took_frame_def test us)
  show "0 < st_free (fa_stats a)"
    using inv f by (auto simp: fa_inv_def card_gt_0_iff)
qed

lemma put_frame_inv:
  assumes inv: "fa_inv a" and cap: "f < fa_capacity a" and u: "is_usable_frame a f"
    and busy: "test_frame a f" and p: "put_frame f a b"
  shows "fa_inv b" and "free_frames b = insert f (free_frames a)"
    and "usable_frames b = usable_frames a" and "f \<notin> free_frames a"
proof -
  have test: "test_frame b g \<longleftrightarrow> g \<noteq> f \<and> test_frame a g" for g
    using p test_clear_frame [OF frame_word_in_range [OF inv cap], of g]
      test_frame_cong [of b "clear_frame f a" g] by (simp add: put_frame_def)
  have us: "is_usable_frame b g = is_usable_frame a g" for g
    using p by (intro is_usable_frame_cong) (simp add: put_frame_def)
  show nf: "f \<notin> free_frames a" using busy by (simp add: free_frames_def)
  show fr: "free_frames b = insert f (free_frames a)"
    using p cap by (auto simp: free_frames_def test put_frame_def)
  show ub: "usable_frames b = usable_frames a"
    using p by (auto simp: usable_frames_def us put_frame_def)
  show "fa_inv b"
    using inv p ub fr nf cap u by (auto simp: fa_inv_def put_frame_def test us)
qed

lemma mark_usable_frame_inv:
  assumes inv: "fa_inv a" and cap: "f < fa_capacity a"
  shows "fa_inv (mark_usable_frame f a)"
    and "free_frames (mark_usable_frame f a) =
           (if f \<in> usable_frames a then free_frames a else insert f (free_frames a))"
    and "usable_frames (mark_usable_frame f a) = insert f (usable_frames a)"
    and "fa_capacity (mark_usable_frame f a) = fa_capacity a"
proof -
  let ?b = "mark_usable_frame f a"
  show capb: "fa_capacity ?b = fa_capacity a"
    by (simp add: mark_usable_frame_def Let_def)
  have us: "is_usable_frame ?b g \<longleftrightarrow> g = f \<or> is_usable_frame a g" for g
    using bm_bit_or [of f "fa_usable a" g] usable_word_in_range [OF inv cap]
    by (auto simp: mark_usable_frame_def Let_def is_usable_frame_bm clear_frame_def)
  have test: "test_frame ?b g \<longleftrightarrow> (if is_usable_frame a f then test_frame a g else g \<noteq> f \<and> test_frame a g)" for g
    using test_clear_frame [of f "a\<lparr>fa_usable := u\<rparr>" g for u] frame_word_in_range [OF inv cap]
    by (auto simp: mark_usable_frame_def Let_def)
  have busy: "test_frame a f" if "\<not> is_usable_frame a f"
    using inv that frame_word_in_range [OF inv cap] unfolding fa_inv_def
    by (metis cap div_less_iff_less_mult mult.commute zero_less_numeral)
  show fr: "free_frames ?b = (if f \<in> usable_frames a then free_frames a else insert f (free_frames a))"
    using cap by (auto simp: free_frames_def usable_frames_def test capb)
  show ub: "usable_frames ?b = insert f (usable_frames a)"
    using cap by (auto simp: usable_frames_def us capb)
  show "fa_inv ?b"
  proof (cases "is_usable_frame a f")
    case True
    then show ?thesis using inv by (simp add: mark_usable_frame_def)
  next
    case False
    then have "f \<notin> free_frames a" "f \<notin> usable_frames a"
      using busy by (auto simp: free_frames_def usable_frames_def)
    moreover have "length (fa_bits ?b) = length (fa_bits a)" "length (fa_usable ?b) = length (fa_usable a)"
      "st_capacity (fa_stats ?b) = st_capacity (fa_stats a)"
      "st_total_usable (fa_stats ?b) = st_total_usable (fa_stats a) + 1"
      "st_free (fa_stats ?b) = st_free (fa_stats a) + 1"
      using False by (simp_all add: mark_usable_frame_def Let_def)
    ultimately show ?thesis
      using inv cap fr ub by (auto simp: fa_inv_def capb test us)
  qed
qed

lemma mark_used_frame_inv:
  assumes inv: "fa_inv a" and cap: "f < fa_capacity a"
  shows "fa_inv (mark_used_frame f a)"
    and "free_frames (mark_used_frame f a) = free_frames a - {f}"
    and "usable_frames (mark_used_frame f a) = usable_frames a"
    and "fa_capacity (mark_used_frame f a) = fa_capacity a"
proof -
  have t: "took_frame f a (mark_used_frame f a)" if "\<not> test_frame a f"
    using that by (simp add: took_frame_def mark_used_frame_def Let_def)
  have nt: "f \<in> free_frames a" if "\<not> test_frame a f"
    using that cap by (simp add: free_frames_def)
  have tt: "mark_used_frame f a = a \<and> f \<notin> free_frames a" if "test_frame a f"
    using that by (simp add: mark_used_frame_def free_frames_def)
  show "fa_inv (mark_used_frame f a)"
    using inv tt took_frame_inv(1) [OF inv nt t] by metis
  show "free_frames (mark_used_frame f a) = free_frames a - {f}"
    using tt took_frame_inv(2) [OF inv nt t] by (metis Diff_empty Diff_insert0)
  show "usable_frames (mark_used_frame f a) = usable_frames a"
    using tt took_frame_inv(3) [OF inv nt t] by metis
  show "fa_capacity (mark_used_frame f a) = fa_capacity a"
    by (simp add: mark_used_frame_def Let_def)
qed

section \<open>Ranges\<close>

lemma fold_mark_usable:
  assumes "fa_inv a" and "\<forall>f\<in>set fs. f < fa_capacity a"
  shows "fa_inv (fold mark_usable_frame fs a) \<and>
    usable_frames (fold mark_usable_frame fs a) = usable_frames a \<union> set fs \<and>
    free_frames (fold mark_usable_frame fs a) = free_frames a \<union> (set fs - usable_frames a) \<and>
    fa_capacity (fold mark_usable_frame fs a) = fa_capacity a"
  using assms
proof (induction fs arbitrary: a)
  case (Cons f fs)
  then have f: "f < fa_capacity a" by simp
  note m = mark_usable_frame_inv [OF Cons.prems(1) f]
  have "\<forall>g\<in>set fs. g < fa_capacity (mark_usable_frame f a)"
    using Cons.prems(2) m(4) by simp
  from Cons.IH [OF m(1) this] show ?case
    using m by (auto split: if_splits)
qed simp

lemma fold_mark_used:
  assumes "fa_inv a" and "\<forall>f\<in>set fs. f < fa_capacity a"
  shows "fa_inv (fold mark_used_frame fs a) \<and>
    usable_frames (fold mark_used_frame fs a) = usable_frames a \<and>
    free_frames (fold mark_used_frame fs a) = free_frames a - set fs \<and>
    fa_capacity (fold mark_used_frame fs a) = fa_capacity a"
  using assms
proof (induction fs arbitrary: a)
  case (Cons f fs)
  then have f: "f < fa_capacity a" by simp
  note m = mark_used_frame_inv [OF Cons.prems(1) f]
  have "\<forall>g\<in>set fs. g < fa_capacity (mark_used_frame f a)"
    using Cons.prems(2) m(4) by simp
  from Cons.IH [OF m(1) this] show ?case
    using m by auto
qed simp

text \<open>The frames of \<open>[start, end)\<close> that the allocator manages.\<close>

definition range_frames :: "frame_alloc \<Rightarrow> phys_addr \<Rightarrow> phys_addr \<Rightarrow> nat set" where
  "range_frames a start end =
     {f. f < fa_capacity a \<and> unat start \<le> f * 4096 \<and> (f + 1) * 4096 \<le> unat end}"

lemma frame_range_Ok:
  assumes "frame_range a start end = Ok (s, e)"
  shows "set [s..<e] = range_frames a start end" and "\<forall>f\<in>set [s..<e]. f < fa_capacity a"
proof -
  have al: "4096 dvd unat start" "4096 dvd unat end"
    and s: "s = unat start div 4096" and e: "e = max (min (unat end div 4096) (fa_capacity a)) s"
    using assms by (auto simp: frame_range_def phys_aligned_page unat_frame_index Let_def split: if_splits)
  obtain m n where mn: "unat start = 4096 * m" "unat end = 4096 * n"
    using al by (auto elim!: dvdE)
  show "set [s..<e] = range_frames a start end"
    unfolding range_frames_def s e mn by (auto simp: max_def)
  then show "\<forall>f\<in>set [s..<e]. f < fa_capacity a" by (auto simp: range_frames_def)
qed

lemma mark_usable_Ok:
  assumes inv: "fa_inv a" and m: "mark_usable a start end = (Ok (), a')"
  shows "fa_inv a'" and "usable_frames a' = usable_frames a \<union> range_frames a start end"
    and "free_frames a' = free_frames a \<union> (range_frames a start end - usable_frames a)"
    and "fa_capacity a' = fa_capacity a"
proof -
  from m obtain s e where r: "frame_range a start end = Ok (s, e)"
    and a': "a' = fold mark_usable_frame [s..<e] a"
    by (auto simp: mark_usable_def split: sum.splits)
  note f = fold_mark_usable [OF inv frame_range_Ok(2) [OF r]]
  show "fa_inv a'" "usable_frames a' = usable_frames a \<union> range_frames a start end"
    "free_frames a' = free_frames a \<union> (range_frames a start end - usable_frames a)"
    "fa_capacity a' = fa_capacity a"
    using f frame_range_Ok(1) [OF r] by (simp_all add: a')
qed

lemma mark_used_Ok:
  assumes inv: "fa_inv a" and m: "mark_used a start end = (Ok (), a')"
  shows "fa_inv a'" and "usable_frames a' = usable_frames a"
    and "free_frames a' = free_frames a - range_frames a start end"
    and "fa_capacity a' = fa_capacity a"
proof -
  from m obtain s e where r: "frame_range a start end = Ok (s, e)"
    and a': "a' = fold mark_used_frame [s..<e] a"
    by (auto simp: mark_used_def split: sum.splits)
  note f = fold_mark_used [OF inv frame_range_Ok(2) [OF r]]
  show "fa_inv a'" "usable_frames a' = usable_frames a"
    "free_frames a' = free_frames a - range_frames a start end" "fa_capacity a' = fa_capacity a"
    using f frame_range_Ok(1) [OF r] by (simp_all add: a')
qed

section \<open>Allocation\<close>

abbreviation frame_addr :: "nat \<Rightarrow> phys_addr" where
  "frame_addr f \<equiv> word_of_nat f * PAGE_SIZE"

lemma unat_frame_addr: "f < 2 ^ 52 \<Longrightarrow> unat (frame_addr f) = f * 4096"
  by (simp add: unat_word_ariths unat_of_nat)

lemma frame_addr_props:
  assumes "f < 2 ^ 52"
  shows "unat (frame_index (frame_addr f)) = f" and "phys_is_aligned (frame_addr f) PAGE_SIZE"
  using unat_frame_addr [OF assms] by (simp_all add: unat_frame_index phys_aligned_page)

text \<open>A word that is not full holds a free frame, and the scan takes its lowest one.\<close>

lemma scan_word:
  assumes inv: "fa_inv a" and w: "w < length (fa_bits a)" and nf: "fa_bits a ! w \<noteq> - 1"
  shows "w * 64 + trailing_ones (fa_bits a ! w) \<in> free_frames a"
proof -
  let ?t = "trailing_ones (fa_bits a ! w)"
  have t: "?t < 64" "\<not> bit (fa_bits a ! w) ?t"
    using trailing_ones_zero_bit [OF nf] by auto
  then have z: "\<not> test_frame a (w * 64 + ?t)"
    by (simp add: test_frame_bm bm_bit_def)
  moreover have "w * 64 + ?t < 64 * length (fa_bits a)" using w t by simp
  ultimately show ?thesis using inv by (auto simp: fa_inv_def free_frames_def)
qed

lemma full_words_no_free:
  assumes "fa_inv a" and "\<forall>w < length (fa_bits a). fa_bits a ! w = - 1"
  shows "free_frames a = {}"
proof -
  have "test_frame a f" if "f < fa_capacity a" for f
    using assms(2) frame_word_in_range [OF assms(1) that] by (simp add: test_frame_bm bm_bit_def)
  then show ?thesis by (auto simp: free_frames_def)
qed

lemma allocate_scan_cases:
  assumes "fa_inv a" and "0 < length (fa_bits a) \<or> steps = []"
  shows "(\<exists>f b. f \<in> free_frames a \<and> took_frame f a b \<and> allocate_scan steps a = (Some (frame_addr f), b)) \<or>
    ((\<forall>step\<in>set steps. fa_bits a ! ((fa_hint a + step) mod length (fa_bits a)) = - 1) \<and>
     allocate_scan steps a =
       (None, a\<lparr>fa_stats := (fa_stats a)\<lparr>st_failures := st_failures (fa_stats a) + 1\<rparr>\<rparr>))"
  using assms(2)
proof (induction steps)
  case (Cons step steps)
  let ?w = "(fa_hint a + step) mod length (fa_bits a)"
  let ?f = "?w * 64 + trailing_ones (fa_bits a ! ?w)"
  have w: "?w < length (fa_bits a)" using Cons.prems by simp
  show ?case
  proof (cases "fa_bits a ! ?w = - 1")
    case True
    with Cons.IH Cons.prems show ?thesis by (simp add: Let_def)
  next
    case False
    have f: "?f \<in> free_frames a" using scan_word [OF assms(1) w False] .
    then have "\<not> fa_capacity a \<le> ?f" by (simp add: free_frames_def)
    with False obtain b where "allocate_scan (step # steps) a = (Some (frame_addr ?f), b)" "took_frame ?f a b"
      by (simp add: Let_def took_frame_def)
    with f show ?thesis by blast
  qed
qed simp

lemma all_words_visited:
  assumes "w < (n::nat)" shows "\<exists>step<n. (h + step) mod n = w"
proof -
  let ?s = "(w + n - h mod n) mod n"
  have "(h + ?s) mod n = (h mod n + (w + n - h mod n)) mod n"
    by (simp add: mod_simps)
  also have "h mod n + (w + n - h mod n) = w + n"
    using assms mod_less_divisor [of n h] by linarith
  also have "(w + n) mod n = w" using assms by simp
  finally show ?thesis using assms by (intro exI [of _ ?s]) auto
qed

lemma allocate_cases:
  assumes inv: "fa_inv a"
  obtains (some) f b where "f \<in> free_frames a" "took_frame f a b" "allocate a = (Some (frame_addr f), b)"
  | (none) "free_frames a = {}"
      "allocate a = (None, a\<lparr>fa_stats := (fa_stats a)\<lparr>st_failures := st_failures (fa_stats a) + 1\<rparr>\<rparr>)"
proof -
  let ?n = "length (fa_bits a)"
  have "0 < ?n \<or> [0..<?n] = []" by simp
  from allocate_scan_cases [OF inv this] show thesis
  proof (elim disjE exE conjE)
    fix f b assume "f \<in> free_frames a" "took_frame f a b" "allocate_scan [0..<?n] a = (Some (frame_addr f), b)"
    then show thesis by (intro some) (simp_all add: allocate_def)
  next
    assume full: "\<forall>step\<in>set [0..<?n]. fa_bits a ! ((fa_hint a + step) mod ?n) = - 1"
      and r: "allocate_scan [0..<?n] a =
        (None, a\<lparr>fa_stats := (fa_stats a)\<lparr>st_failures := st_failures (fa_stats a) + 1\<rparr>\<rparr>)"
    have "\<forall>w<?n. fa_bits a ! w = - 1"
      using full all_words_visited [of _ ?n "fa_hint a"] by (metis atLeastLessThan_iff set_upt zero_le)
    with full_words_no_free [OF inv] r show thesis by (intro none) (simp_all add: allocate_def)
  qed
qed

lemma free_frame_Ok:
  assumes inv: "fa_inv a" and f: "f < fa_capacity a" "is_usable_frame a f" "test_frame a f"
  shows "\<exists>b. free_frame a (frame_addr f) = (Ok (), b) \<and> put_frame f a b"
proof -
  have "f < 2 ^ 52" using inv f(1) by (auto simp: fa_inv_def)
  from frame_addr_props [OF this] show ?thesis
    using f by (simp add: free_frame_def put_frame_def Let_def)
qed

lemma free_frame_OkD:
  assumes "free_frame a p = (Ok (), b)"
  shows "put_frame (unat (frame_index p)) a b" and "unat (frame_index p) < fa_capacity a"
    and "is_usable_frame a (unat (frame_index p))" and "test_frame a (unat (frame_index p))"
    and "phys_is_aligned p PAGE_SIZE"
  using assms by (auto simp: free_frame_def put_frame_def Let_def split: if_splits)

section \<open>The interface of a frame allocator\<close>

text \<open>
  What a user of \<^verbatim>\<open>trait FrameAllocator\<close> relies on: an allocated frame was available, is
  page-aligned and is not available any more; allocation fails only when nothing is available;
  giving a frame back right after allocating it makes it available again.
\<close>

locale frame_allocator =
  fixes alloc_f :: "'s \<Rightarrow> phys_addr option \<times> 's"
    and dealloc_f :: "'s \<Rightarrow> phys_addr \<Rightarrow> 's option"
    and fal_inv :: "'s \<Rightarrow> bool"
    and avail :: "'s \<Rightarrow> phys_addr set"
  assumes alloc_Some: "fal_inv s \<Longrightarrow> alloc_f s = (Some p, s') \<Longrightarrow>
      fal_inv s' \<and> p \<in> avail s \<and> avail s' = avail s - {p} \<and> 4096 dvd unat p"
    and alloc_None: "fal_inv s \<Longrightarrow> alloc_f s = (None, s') \<Longrightarrow>
      fal_inv s' \<and> avail s = {} \<and> avail s' = {}"
    and dealloc_taken: "fal_inv s \<Longrightarrow> alloc_f s = (Some p, s') \<Longrightarrow>
      \<exists>s''. dealloc_f s' p = Some s'' \<and> fal_inv s'' \<and> avail s'' = avail s"
    and avail_finite: "fal_inv s \<Longrightarrow> finite (avail s)"
begin

lemma alloc_succeeds_iff: "fal_inv s \<Longrightarrow> (\<exists>p s'. alloc_f s = (Some p, s')) \<longleftrightarrow> avail s \<noteq> {}"
  using alloc_Some alloc_None by (metis empty_iff not_None_eq prod.exhaust)

end

text \<open>Taking up to \<open>n\<close> frames one after the other.\<close>

fun alloc_many :: "('s \<Rightarrow> phys_addr option \<times> 's) \<Rightarrow> nat \<Rightarrow> 's \<Rightarrow> phys_addr list \<times> 's" where
  "alloc_many al 0 s = ([], s)"
| "alloc_many al (Suc n) s =
     (case al s of
        (None, s') \<Rightarrow> ([], s')
      | (Some p, s') \<Rightarrow> (let (ps, s'') = alloc_many al n s' in (p # ps, s'')))"

context frame_allocator
begin

lemma alloc_many_distinct:
  "fal_inv s \<Longrightarrow> alloc_many alloc_f n s = (ps, s') \<Longrightarrow>
    distinct ps \<and> set ps \<subseteq> avail s \<and> avail s' = avail s - set ps \<and> fal_inv s' \<and>
    length ps = min n (card (avail s))"
proof (induction n arbitrary: s ps s')
  case (Suc n)
  show ?case
  proof (cases "alloc_f s")
    case (Pair r t)
    show ?thesis
    proof (cases r)
      case None
      with Suc.prems Pair alloc_None [of s t] show ?thesis by auto
    next
      case (Some p)
      obtain qs u where q: "alloc_many alloc_f n t = (qs, u)" by fastforce
      have p: "fal_inv t" "p \<in> avail s" "avail t = avail s - {p}"
        using alloc_Some [of s p t] Suc.prems(1) Pair Some by auto
      have "ps = p # qs" "s' = u" using Suc.prems(2) Pair Some q by auto
      moreover have "card (avail t) = card (avail s) - 1" "0 < card (avail s)"
        using p avail_finite [OF Suc.prems(1)] by (auto simp: card_gt_0_iff)
      ultimately show ?thesis using Suc.IH [OF p(1) q] p by auto
    qed
  qed
qed auto

end

text \<open>The bitmap allocator provides it; the available frames are the free ones.\<close>

definition avail_addrs :: "frame_alloc \<Rightarrow> phys_addr set" where
  "avail_addrs a = (\<lambda>f. frame_addr f) ` free_frames a"

lemma inj_frame_addr: "fa_inv a \<Longrightarrow> inj_on (\<lambda>f. frame_addr f) {..<fa_capacity a}"
  by (rule inj_onI) (metis (no_types, lifting) frame_addr_props(1) fa_inv_def lessThan_iff order_less_le_trans)

lemma avail_addrs_remove:
  assumes "fa_inv a" and "f \<in> free_frames a" and "free_frames b = free_frames a - {f}"
  shows "avail_addrs b = avail_addrs a - {frame_addr f}"
proof -
  have "inj_on (\<lambda>f. frame_addr f) (free_frames a)"
    using inj_frame_addr [OF assms(1)] by (rule inj_on_subset) (auto simp: free_frames_def)
  then show ?thesis unfolding avail_addrs_def assms(3)
    using assms(2) by (subst inj_on_image_set_diff [of _ "free_frames a"]) auto
qed

interpretation bitmap: frame_allocator allocate deallocate_frame fa_inv avail_addrs
proof
  fix a p b assume inv: "fa_inv a" and al: "allocate a = (Some p, b)"
  obtain f where f: "f \<in> free_frames a" and t: "took_frame f a b" and p: "p = frame_addr f"
    using inv by (rule allocate_cases) (use al in auto)
  have f52: "f < 2 ^ 52" using inv f by (auto simp: fa_inv_def free_frames_def)
  note tk = took_frame_inv [OF inv f t]
  show "fa_inv b \<and> p \<in> avail_addrs a \<and> avail_addrs b = avail_addrs a - {p} \<and> 4096 dvd unat p"
    using tk avail_addrs_remove [OF inv f tk(2)] f unat_frame_addr [OF f52]
    by (auto simp: avail_addrs_def p)
  have capf: "f < fa_capacity b" "is_usable_frame b f" "test_frame b f"
  proof -
    show "f < fa_capacity b" using f t by (simp add: free_frames_def took_frame_def)
    have "f \<in> usable_frames a"
      using inv f frame_word_in_range [OF inv, of f] by (auto simp: fa_inv_def free_frames_def usable_frames_def)
    then show "is_usable_frame b f" using tk(3) by (auto simp: usable_frames_def)
    show "test_frame b f" using \<open>f < fa_capacity b\<close> tk(2) by (auto simp: free_frames_def)
  qed
  obtain c where c: "free_frame b p = (Ok (), c)" "put_frame f b c"
    using free_frame_Ok [OF tk(1) capf] p by auto
  have "free_frames c = free_frames a"
    using put_frame_inv(2) [OF tk(1) capf c(2)] tk(2) f by auto
  then show "\<exists>s''. deallocate_frame b p = Some s'' \<and> fa_inv s'' \<and> avail_addrs s'' = avail_addrs a"
    using put_frame_inv(1) [OF tk(1) capf c(2)] c(1)
    by (intro exI [of _ c]) (simp add: deallocate_frame_def avail_addrs_def)
next
  fix a b assume inv: "fa_inv a" and al: "allocate a = (None, b)"
  have n: "free_frames a = {}"
    "b = a\<lparr>fa_stats := (fa_stats a)\<lparr>st_failures := st_failures (fa_stats a) + 1\<rparr>\<rparr>"
    using inv by (rule allocate_cases; use al in auto)+
  then show "fa_inv b \<and> avail_addrs a = {} \<and> avail_addrs b = {}"
    using inv by (auto simp: avail_addrs_def fa_inv_def free_frames_def usable_frames_def)
next
  show "finite (avail_addrs a)" for a by (simp add: avail_addrs_def)
qed

section \<open>Properties\<close>

text \<open>
  C8: taking \<open>n\<close> frames in a row from a well-formed allocator yields exactly as many frames as
  are available up to \<open>n\<close>; they are pairwise different, were all available, and none of them is
  available afterwards; no other frame leaves the pool.
\<close>

theorem allocate_many_frames:
  assumes "fa_inv a" and "alloc_many allocate n a = (ps, b)"
  shows "distinct ps \<and> set ps \<subseteq> avail_addrs a \<and> length ps = min n (card (avail_addrs a)) \<and>
    fa_inv b \<and> avail_addrs b = avail_addrs a - set ps"
  using bitmap.alloc_many_distinct [OF assms] by blast

text \<open>An allocator of 70 frames with the frames 65 to 67 usable, and its first allocations.\<close>

definition sample_alloc :: frame_alloc where
  "sample_alloc = snd (mark_usable (the (bitmap_new 70 [0, 0, 0, 0])) 0x41000 0x44000)"

lemma sample_alloc_inv: "fa_inv sample_alloc"
proof -
  let ?b = "the (bitmap_new 70 [0, 0, 0, 0])"
  have b: "bitmap_new 70 [0, 0, 0, 0] = Some ?b" by code_simp
  have "fst (mark_usable ?b 0x41000 0x44000) = Ok ()" by code_simp
  then have "mark_usable ?b 0x41000 0x44000 = (Ok (), sample_alloc)"
    unfolding sample_alloc_def by (metis prod.collapse)
  moreover have "fa_inv ?b" by (rule bitmap_new_inv(1) [OF b]) simp
  ultimately show ?thesis by (blast intro: mark_usable_Ok(1))
qed

theorem allocate_many_frames_witness:
  "distinct [0x41000, 0x42000, 0x43000 :: phys_addr] \<and>
   set [0x41000, 0x42000, 0x43000] \<subseteq> avail_addrs sample_alloc \<and>
   length [0x41000, 0x42000, 0x43000 :: phys_addr] = min 5 (card (avail_addrs sample_alloc))"
proof -
  have "fst (alloc_many allocate 5 sample_alloc) = [0x41000, 0x42000, 0x43000]" by code_simp
  then obtain b where "alloc_many allocate 5 sample_alloc = ([0x41000, 0x42000, 0x43000], b)"
    by (metis prod.collapse)
  from allocate_many_frames [OF sample_alloc_inv this] show ?thesis by blast
qed

text \<open>
  C22: \<^verbatim>\<open>free\<close> gives a frame back exactly when the address is page-aligned, in range, usable and
  busy; then the frame is free again, nothing else changes in the pool and the invariant holds.
  In every other case the allocator is unchanged and the error names the first check that failed.
\<close>

theorem free_frame_total:
  assumes "fa_inv a"
  shows "free_frame a p =
      (if \<not> 4096 dvd unat p then (Err (Unaligned p), a)
       else if fa_capacity a \<le> unat p div 4096 then (Err (OutOfRange p), a)
       else if unat p div 4096 \<notin> usable_frames a then (Err (NotUsable p), a)
       else if unat p div 4096 \<in> free_frames a then (Err (DoubleFree p), a)
       else (Ok (), snd (free_frame a p))) \<and>
    (fst (free_frame a p) = Ok () \<longrightarrow> fa_inv (snd (free_frame a p)) \<and>
       free_frames (snd (free_frame a p)) = insert (unat p div 4096) (free_frames a) \<and>
       usable_frames (snd (free_frame a p)) = usable_frames a)"
proof
  show "free_frame a p =
      (if \<not> 4096 dvd unat p then (Err (Unaligned p), a)
       else if fa_capacity a \<le> unat p div 4096 then (Err (OutOfRange p), a)
       else if unat p div 4096 \<notin> usable_frames a then (Err (NotUsable p), a)
       else if unat p div 4096 \<in> free_frames a then (Err (DoubleFree p), a)
       else (Ok (), snd (free_frame a p)))"
    by (auto simp: free_frame_def phys_aligned_page unat_frame_index usable_frames_def free_frames_def Let_def)
  show "fst (free_frame a p) = Ok () \<longrightarrow> fa_inv (snd (free_frame a p)) \<and>
       free_frames (snd (free_frame a p)) = insert (unat p div 4096) (free_frames a) \<and>
       usable_frames (snd (free_frame a p)) = usable_frames a"
  proof
    assume "fst (free_frame a p) = Ok ()"
    then have "free_frame a p = (Ok (), snd (free_frame a p))" by (metis prod.collapse)
    note d = free_frame_OkD [OF this]
    show "fa_inv (snd (free_frame a p)) \<and>
       free_frames (snd (free_frame a p)) = insert (unat p div 4096) (free_frames a) \<and>
       usable_frames (snd (free_frame a p)) = usable_frames a"
      using put_frame_inv [OF assms d(2,3,4,1)] by (simp add: unat_frame_index)
  qed
qed

theorem free_frame_total_witness:
  "free_frame sample_alloc 0x41000 = (Err (DoubleFree 0x41000), sample_alloc) \<and>
   free_frame sample_alloc 0x40000 = (Err (NotUsable 0x40000), sample_alloc)"
proof -
  have c: "fa_capacity sample_alloc = 70" "test_frame sample_alloc 65 = False"
    "is_usable_frame sample_alloc 65 = True" "is_usable_frame sample_alloc 64 = False"
    by code_simp+
  then have "65 \<in> free_frames sample_alloc" "65 \<in> usable_frames sample_alloc" "64 \<notin> usable_frames sample_alloc"
    by (simp_all add: free_frames_def usable_frames_def)
  then show ?thesis
    using free_frame_total [OF sample_alloc_inv, where p = "0x41000"]
      free_frame_total [OF sample_alloc_inv, where p = "0x40000"] c
    by simp
qed

end
