(* ===== verification/Memory_Map.thy ===== *)
theory Memory_Map
  imports Mm_Addr "HOL-Library.Multiset"
begin

text \<open>
  \<^verbatim>\<open>kernel/lib/mm/src/map.rs\<close> and the region types of \<^verbatim>\<open>abi/boot/src/lib.rs\<close>: the firmware's memory
  map, possibly unsorted, overlapping and unaligned, is turned into a sorted list of disjoint
  page-aligned regions in which every page has the most restrictive kind that claims it.

  The output slice of the code is its length \<open>cap\<close> here, and the regions written to it are the
  list returned. The sort and the removal of duplicates work in place on the array of cut
  points; they are modelled as written, on a list updated by index.
\<close>

section \<open>Regions\<close>

datatype memory_kind =
    Unknown | Usable | Reserved | AcpiReclaimable | AcpiNvs | Mmio | UefiRuntime
  | LoaderReclaimable | KernelImage | KernelPageTables | KernelStack | BootInfo
  | KernelFile | Framebuffer | Initrd

definition kind_from_u32 :: "u32 \<Rightarrow> memory_kind" where
  "kind_from_u32 v =
     (if v = 1 then Usable else if v = 2 then Reserved else if v = 3 then AcpiReclaimable
      else if v = 4 then AcpiNvs else if v = 5 then Mmio else if v = 6 then UefiRuntime
      else if v = 7 then LoaderReclaimable else if v = 8 then KernelImage
      else if v = 9 then KernelPageTables else if v = 10 then KernelStack
      else if v = 11 then BootInfo else if v = 12 then KernelFile
      else if v = 13 then Framebuffer else if v = 14 then Initrd else Unknown)"

text \<open>The cast \<^verbatim>\<open>kind as u32\<close>: the discriminants of the enumeration.\<close>

fun kind_as_u32 :: "memory_kind \<Rightarrow> u32" where
  "kind_as_u32 Unknown = 0"
| "kind_as_u32 Usable = 1"
| "kind_as_u32 Reserved = 2"
| "kind_as_u32 AcpiReclaimable = 3"
| "kind_as_u32 AcpiNvs = 4"
| "kind_as_u32 Mmio = 5"
| "kind_as_u32 UefiRuntime = 6"
| "kind_as_u32 LoaderReclaimable = 7"
| "kind_as_u32 KernelImage = 8"
| "kind_as_u32 KernelPageTables = 9"
| "kind_as_u32 KernelStack = 10"
| "kind_as_u32 BootInfo = 11"
| "kind_as_u32 KernelFile = 12"
| "kind_as_u32 Framebuffer = 13"
| "kind_as_u32 Initrd = 14"

definition is_usable_after_boot :: "memory_kind \<Rightarrow> bool" where
  "is_usable_after_boot k \<longleftrightarrow> k = Usable \<or> k = LoaderReclaimable"

fun priority :: "memory_kind \<Rightarrow> nat" where
  "priority Unknown = 0"
| "priority Usable = 1"
| "priority LoaderReclaimable = 2"
| "priority AcpiReclaimable = 3"
| "priority Framebuffer = 4"
| "priority KernelFile = 5"
| "priority Initrd = 6"
| "priority BootInfo = 7"
| "priority KernelStack = 8"
| "priority KernelPageTables = 9"
| "priority KernelImage = 10"
| "priority UefiRuntime = 11"
| "priority AcpiNvs = 12"
| "priority Mmio = 13"
| "priority Reserved = 14"

record memory_region =
  mr_start :: u64
  mr_end :: u64
  mr_kind :: u32
  mr_reserved :: u32

definition region_new :: "u64 \<Rightarrow> u64 \<Rightarrow> memory_kind \<Rightarrow> memory_region" where
  "region_new s e k = \<lparr>mr_start = s, mr_end = e, mr_kind = kind_as_u32 k, mr_reserved = 0\<rparr>"

definition region_kind :: "memory_region \<Rightarrow> memory_kind" where
  "region_kind r = kind_from_u32 (mr_kind r)"

definition region_len :: "memory_region \<Rightarrow> u64" where
  "region_len r = saturating_sub (mr_end r) (mr_start r)"

definition region_is_empty :: "memory_region \<Rightarrow> bool" where
  "region_is_empty r \<longleftrightarrow> mr_end r \<le> mr_start r"

definition region_contains :: "memory_region \<Rightarrow> u64 \<Rightarrow> bool" where
  "region_contains r addr \<longleftrightarrow> mr_start r \<le> addr \<and> addr < mr_end r"

section \<open>Normalisation\<close>

datatype map_error = TooManyInputRegions | OutputTooSmall

definition page_align :: "memory_region \<Rightarrow> memory_region" where
  "page_align r =
     (if is_usable_after_boot (region_kind r)
      then r\<lparr>mr_start := align_up (mr_start r) PAGE_SIZE, mr_end := align_down (mr_end r) PAGE_SIZE\<rparr>
      else r\<lparr>mr_start := align_down (mr_start r) PAGE_SIZE, mr_end := align_up (mr_end r) PAGE_SIZE\<rparr>)"

definition MAX_INPUT_REGIONS :: nat where
  "MAX_INPUT_REGIONS = 528"

text \<open>The closure \<^verbatim>\<open>valid\<close> and the iterator \<^verbatim>\<open>input.iter().filter_map(valid)\<close>.\<close>

definition valid_region :: "memory_region \<Rightarrow> memory_region option" where
  "valid_region r =
     (let a = page_align r in
      if \<not> region_is_empty a \<and> region_kind a \<noteq> Unknown then Some a else None)"

definition valid_regions :: "memory_region list \<Rightarrow> memory_region list" where
  "valid_regions input = List.map_filter valid_region input"

text \<open>Step 1: the cut points.\<close>

definition collect_cuts :: "memory_region list \<Rightarrow> u64 list" where
  "collect_cuts input = concat (map (\<lambda>a. [mr_start a, mr_end a]) (valid_regions input))"

text \<open>Step 2: the inner loop of the insertion sort, which moves element \<open>j\<close> to the left.\<close>

fun sift_left :: "nat \<Rightarrow> u64 list \<Rightarrow> u64 list" where
  "sift_left 0 xs = xs"
| "sift_left (Suc j) xs =
     (if xs ! j > xs ! Suc j then sift_left j (xs[j := xs ! Suc j, Suc j := xs ! j]) else xs)"

definition sort_cuts :: "u64 list \<Rightarrow> u64 list" where
  "sort_cuts xs = fold sift_left [1..<length xs] xs"

text \<open>The loop that keeps the first of each run of equal cut points; the state is the array and \<^verbatim>\<open>uniq\<close>.\<close>

definition dedup_step :: "nat \<Rightarrow> u64 list \<times> nat \<Rightarrow> u64 list \<times> nat" where
  "dedup_step i s =
     (let (xs, uniq) = s in
      if i = 0 \<or> xs ! i \<noteq> xs ! (uniq - 1) then (xs[uniq := xs ! i], uniq + 1) else (xs, uniq))"

definition dedup_cuts :: "u64 list \<Rightarrow> u64 list" where
  "dedup_cuts xs = (let (ys, uniq) = fold dedup_step [0..<length xs] (xs, 0) in take uniq ys)"

text \<open>Step 3: the kind of one elementary interval.\<close>

definition best_step :: "u64 \<Rightarrow> u64 \<Rightarrow> memory_region \<Rightarrow> memory_kind option \<Rightarrow> memory_kind option" where
  "best_step lo hi r best =
     (if mr_start r \<le> lo \<and> hi \<le> mr_end r then
        let k = region_kind r in
        (case best of None \<Rightarrow> Some k | Some b \<Rightarrow> if priority k > priority b then Some k else best)
      else best)"

definition best_kind :: "memory_region list \<Rightarrow> u64 \<Rightarrow> u64 \<Rightarrow> memory_kind option" where
  "best_kind input lo hi = fold (best_step lo hi) (valid_regions input) None"

text \<open>Step 4: append the interval to the output, merging it with the last region if possible.\<close>

definition emit_region ::
  "nat \<Rightarrow> u64 \<Rightarrow> u64 \<Rightarrow> memory_kind \<Rightarrow> memory_region list \<Rightarrow> (map_error, memory_region list) result" where
  "emit_region cap lo hi k out =
     (if out \<noteq> [] \<and> mr_end (last out) = lo \<and> region_kind (last out) = k
      then Ok (butlast out @ [(last out)\<lparr>mr_end := hi\<rparr>])
      else if cap \<le> length out then Err OutputTooSmall
      else Ok (out @ [region_new lo hi k]))"

fun emit_windows ::
  "memory_region list \<Rightarrow> nat \<Rightarrow> (u64 \<times> u64) list \<Rightarrow> memory_region list
   \<Rightarrow> (map_error, memory_region list) result" where
  "emit_windows input cap [] out = Ok out"
| "emit_windows input cap ((lo, hi) # ws) out =
     (case best_kind input lo hi of
        None \<Rightarrow> emit_windows input cap ws out
      | Some k \<Rightarrow> try_bind (emit_region cap lo hi k out) (emit_windows input cap ws))"

text \<open>\<^verbatim>\<open>cuts.windows(2)\<close>\<close>

definition windows2 :: "'a list \<Rightarrow> ('a \<times> 'a) list" where
  "windows2 xs = zip xs (tl xs)"

definition normalize :: "memory_region list \<Rightarrow> nat \<Rightarrow> (map_error, memory_region list) result" where
  "normalize input cap =
     (if MAX_INPUT_REGIONS < length input then Err TooManyInputRegions
      else let cuts = dedup_cuts (sort_cuts (collect_cuts input))
           in emit_windows input cap (windows2 cuts) [])"

section \<open>Summary\<close>

record map_summary =
  usable_bytes :: u64
  kernel_bytes :: u64
  reserved_bytes :: u64
  max_addr :: u64
  max_usable_addr :: u64
  regions :: nat

definition summarize_step :: "memory_region \<Rightarrow> map_summary \<Rightarrow> map_summary" where
  "summarize_step r s =
     (let len = region_len r;
          k = region_kind r;
          s1 = (if k = Usable \<or> k = LoaderReclaimable then
                  s\<lparr>usable_bytes := usable_bytes s + len,
                    max_usable_addr := max (max_usable_addr s) (mr_end r)\<rparr>
                else if k = KernelImage \<or> k = KernelPageTables \<or> k = KernelStack \<or> k = BootInfo
                     \<or> k = KernelFile \<or> k = Initrd then
                  s\<lparr>kernel_bytes := kernel_bytes s + len,
                    max_usable_addr := max (max_usable_addr s) (mr_end r)\<rparr>
                else s\<lparr>reserved_bytes := reserved_bytes s + len\<rparr>)
      in s1\<lparr>max_addr := max (max_addr s1) (mr_end r)\<rparr>)"

definition summarize :: "memory_region list \<Rightarrow> map_summary" where
  "summarize m =
     fold summarize_step m
       \<lparr>usable_bytes = 0, kernel_bytes = 0, reserved_bytes = 0, max_addr = 0,
        max_usable_addr = 0, regions = length m\<rparr>"

section \<open>Kinds\<close>

lemma kind_roundtrip [simp]: "kind_from_u32 (kind_as_u32 k) = k"
  by (cases k) (simp_all add: kind_from_u32_def)

lemma priority_inj: "priority k = priority l \<Longrightarrow> k = l"
  by (cases k; cases l) simp_all

lemma region_new_simps [simp]:
  "mr_start (region_new lo hi k) = lo" "mr_end (region_new lo hi k) = hi"
  "region_kind (region_new lo hi k) = k"
  by (simp_all add: region_new_def region_kind_def)

lemma region_kind_update [simp]:
  "region_kind (r\<lparr>mr_end := e\<rparr>) = region_kind r" "region_kind (r\<lparr>mr_start := e\<rparr>) = region_kind r"
  by (simp_all add: region_kind_def)

section \<open>Sorted cut points\<close>

lemma sift_left_sort:
  "sorted ys \<Longrightarrow> sift_left (length ys) (ys @ x # zs) = sort (ys @ [x]) @ zs"
proof (induction ys arbitrary: x zs rule: rev_induct)
  case (snoc y ys)
  let ?l = "(ys @ [y]) @ x # zs"
  have nth: "?l ! length ys = y" "?l ! Suc (length ys) = x"
    by (simp_all add: nth_append)
  show ?case
  proof (cases "y > x")
    case True
    have "?l[length ys := x, Suc (length ys) := y] = ys @ x # y # zs"
      by (simp add: list_update_append)
    then have "sift_left (length (ys @ [y])) ?l = sift_left (length ys) (ys @ x # y # zs)"
      using True nth by simp
    also have "\<dots> = sort (ys @ [x]) @ y # zs"
      using snoc by (simp add: sorted_append)
    also have "sort (ys @ [y, x]) = sort (ys @ [x]) @ [y]"
      using True snoc.prems by (intro properties_for_sort) (auto simp: sorted_append less_imp_le)
    then have "sort (ys @ [x]) @ y # zs = sort ((ys @ [y]) @ [x]) @ zs" by simp
    finally show ?thesis .
  next
    case False
    then have "sorted ((ys @ [y]) @ [x])"
      using snoc.prems by (auto simp: sorted_append not_less intro: order_trans)
    then have "sort ((ys @ [y]) @ [x]) = (ys @ [y]) @ [x]"
      by (rule sorted_sort_id)
    moreover have "sift_left (length (ys @ [y])) ?l = ?l"
      using False nth by simp
    ultimately show ?thesis by simp
  qed
qed simp

lemma sort_cuts_sort: "sort_cuts xs = sort xs"
proof -
  have "fold sift_left [1..<i] xs = sort (take i xs) @ drop i xs" if "1 \<le> i" "i \<le> length xs" for i
    using that
  proof (induction i rule: dec_induct)
    case base
    then show ?case by (cases xs) auto
  next
    case (step i)
    let ?ys = "sort (take i xs)"
    have len: "length ?ys = i" using step by simp
    have d: "drop i xs = xs ! i # drop (Suc i) xs" using step by (simp add: Cons_nth_drop_Suc)
    have "fold sift_left [1..<Suc i] xs = sift_left i (?ys @ xs ! i # drop (Suc i) xs)"
      using step d by simp
    also have "\<dots> = sort (?ys @ [xs ! i]) @ drop (Suc i) xs"
      using sift_left_sort [of ?ys "xs ! i" "drop (Suc i) xs"] len by simp
    also have "sort (?ys @ [xs ! i]) = sort (take (Suc i) xs)"
      using step by (intro properties_for_sort) (simp_all add: take_Suc_conv_app_nth)
    finally show ?case .
  qed
  from this [of "length xs"] show ?thesis
    by (cases xs) (simp_all add: sort_cuts_def)
qed

lemma remdups_adj_snoc:
  "xs \<noteq> [] \<Longrightarrow> remdups_adj (xs @ [y]) = remdups_adj xs @ (if last xs = y then [] else [y])"
  by (cases xs rule: rev_cases) (simp_all add: remdups_adj_append_two)

lemma dedup_cuts_remdups_adj: "dedup_cuts xs = remdups_adj xs"
proof -
  have "\<exists>ys u. fold dedup_step [0..<i] (xs, 0) = (ys, u) \<and> length ys = length xs \<and> u \<le> i \<and>
    take u ys = remdups_adj (take i xs) \<and> drop i ys = drop i xs" if "i \<le> length xs" for i
    using that
  proof (induction i)
    case (Suc i)
    then obtain ys u where IH: "fold dedup_step [0..<i] (xs, 0) = (ys, u)" "length ys = length xs"
      "u \<le> i" "take u ys = remdups_adj (take i xs)" "drop i ys = drop i xs" by auto
    have i: "i < length xs" using Suc.prems by simp
    have yi: "ys ! i = xs ! i" using IH(2,5) i by (metis hd_drop_conv_nth)
    have dr: "drop (Suc i) ys = drop (Suc i) xs" using IH(5) by (metis drop_Suc tl_drop)
    have tk: "take (Suc i) xs = take i xs @ [xs ! i]" using i by (rule take_Suc_conv_app_nth)
    show ?case
    proof (cases "i = 0")
      case True
      with IH i yi dr tk show ?thesis by (simp add: dedup_step_def)
    next
      case False
      then have ne: "take i xs \<noteq> []" using i by auto
      then have "take u ys \<noteq> []" using IH(4) by simp
      then have u: "0 < u" by (cases u) auto
      have "last (take u ys) = last (take i xs)" using IH(4) by simp
      moreover have "last (take u ys) = ys ! (u - 1)"
        using u IH(2,3) i by (subst last_conv_nth) auto
      ultimately have lst: "ys ! (u - 1) = last (take i xs)" by simp
      show ?thesis
      proof (cases "xs ! i = last (take i xs)")
        case True
        then have "fold dedup_step [0..<Suc i] (xs, 0) = (ys, u)"
          using IH(1) False yi lst by (simp add: dedup_step_def)
        with True IH dr tk ne show ?thesis by (simp add: remdups_adj_snoc)
      next
        case neq: False
        then have "fold dedup_step [0..<Suc i] (xs, 0) = (ys[u := xs ! i], u + 1)"
          using IH(1) False yi lst by (simp add: dedup_step_def)
        moreover have "take (u + 1) (ys[u := xs ! i]) = take u ys @ [xs ! i]"
          using IH(2,3) i by (simp add: take_Suc_conv_app_nth)
        moreover have "drop (Suc i) (ys[u := xs ! i]) = drop (Suc i) xs"
          using IH(3) dr by simp
        ultimately show ?thesis using neq IH tk ne by (simp add: remdups_adj_snoc)
      qed
    qed
  qed simp
  from this [of "length xs"] show ?thesis by (auto simp: dedup_cuts_def)
qed

lemma strict_sorted_remdups_adj: "sorted xs \<Longrightarrow> sorted_wrt (<) (remdups_adj xs)"
  for xs :: "'a::linorder list"
  by (induction xs rule: remdups_adj.induct) (auto simp: less_le)

lemma windows2_simps [simp]:
  "windows2 [] = []" "windows2 [x] = []" "windows2 (x # y # zs) = (x, y) # windows2 (y # zs)"
  by (simp_all add: windows2_def)

text \<open>No cut point lies strictly inside an elementary interval.\<close>

lemma windows2_elementary:
  fixes cs :: "u64 list"
  assumes "sorted_wrt (<) cs" and "(lo, hi) \<in> set (windows2 cs)"
  shows "lo < hi \<and> lo \<in> set cs \<and> hi \<in> set cs \<and> (\<forall>c\<in>set cs. c \<le> lo \<or> hi \<le> c)"
  using assms
proof (induction cs rule: induct_list012)
  case (3 x y zs)
  show ?case
  proof (cases "(lo, hi) = (x, y)")
    case True
    with "3.prems" show ?thesis by (auto intro: less_imp_le)
  next
    case False
    then have IH: "lo < hi \<and> lo \<in> set (y # zs) \<and> hi \<in> set (y # zs) \<and> (\<forall>c\<in>set (y # zs). c \<le> lo \<or> hi \<le> c)"
      using "3.IH"(2) "3.prems" by auto
    moreover have "x \<le> lo" using IH "3.prems"(1) by (auto intro: less_imp_le)
    ultimately show ?thesis by auto
  qed
qed auto

section \<open>The kind of an address\<close>

text \<open>
  The reference: the kind of the first region of highest priority among the valid regions that
  contain the address.
\<close>

definition kind_at_step :: "u64 \<Rightarrow> memory_region \<Rightarrow> memory_kind option \<Rightarrow> memory_kind option" where
  "kind_at_step x r best =
     (if region_contains r x then
        (case best of None \<Rightarrow> Some (region_kind r)
         | Some b \<Rightarrow> if priority (region_kind r) > priority b then Some (region_kind r) else best)
      else best)"

definition kind_at :: "memory_region list \<Rightarrow> u64 \<Rightarrow> memory_kind option" where
  "kind_at input x = fold (kind_at_step x) (valid_regions input) None"

lemma kind_at_fold:
  assumes "fold (kind_at_step x) rs b = m"
  shows "(m = None \<longleftrightarrow> b = None \<and> (\<forall>r\<in>set rs. \<not> region_contains r x)) \<and>
    (\<forall>k. m = Some k \<longrightarrow>
       (b = Some k \<or> (\<exists>r\<in>set rs. region_contains r x \<and> region_kind r = k)) \<and>
       (\<forall>r\<in>set rs. region_contains r x \<longrightarrow> priority (region_kind r) \<le> priority k) \<and>
       (\<forall>l. b = Some l \<longrightarrow> priority l \<le> priority k))"
  using assms
proof (induction rs arbitrary: b)
  case (Cons r rs)
  from Cons.prems have "fold (kind_at_step x) rs (kind_at_step x r b) = m" by simp
  from Cons.IH [OF this] show ?case
    by (auto simp: kind_at_step_def split: option.splits if_splits)
qed auto

lemma kind_at_None: "kind_at input x = None \<longleftrightarrow> (\<forall>r\<in>set (valid_regions input). \<not> region_contains r x)"
  using kind_at_fold [OF refl, of x "valid_regions input" None] by (simp add: kind_at_def)

lemma kind_at_Some:
  assumes "kind_at input x = Some k"
  shows "\<exists>r\<in>set (valid_regions input). region_contains r x \<and> region_kind r = k"
    and "r \<in> set (valid_regions input) \<Longrightarrow> region_contains r x \<Longrightarrow> priority (region_kind r) \<le> priority k"
  using kind_at_fold [OF refl, of x "valid_regions input" None] assms by (auto simp: kind_at_def)

lemma cuts_of_regions:
  assumes "r \<in> set (valid_regions input)"
  shows "mr_start r \<in> set (collect_cuts input)" and "mr_end r \<in> set (collect_cuts input)"
  using assms by (auto simp: collect_cuts_def)

text \<open>On an elementary interval the loop of the code computes the kind of each of its addresses.\<close>

lemma best_kind_eq_kind_at:
  assumes cs: "sorted_wrt (<) cs" "set cs = set (collect_cuts input)"
    and w: "(lo, hi) \<in> set (windows2 cs)" and x: "lo \<le> x" "x < hi"
  shows "best_kind input lo hi = kind_at input x"
proof -
  have "best_step lo hi r = kind_at_step x r" if "r \<in> set (valid_regions input)" for r
  proof -
    have "mr_start r \<in> set cs" "mr_end r \<in> set cs"
      using cuts_of_regions [OF that] cs(2) by simp_all
    then have "mr_start r \<le> lo \<or> hi \<le> mr_start r" "mr_end r \<le> lo \<or> hi \<le> mr_end r"
      using windows2_elementary [OF cs(1) w] by auto
    then have "(mr_start r \<le> lo \<and> hi \<le> mr_end r) = region_contains r x"
      using x by (auto simp: region_contains_def)
    then show ?thesis by (auto simp: fun_eq_iff best_step_def kind_at_step_def Let_def)
  qed
  then show ?thesis unfolding best_kind_def kind_at_def by (intro fold_cong) auto
qed

section \<open>The output\<close>

definition kinds_of :: "memory_region list \<Rightarrow> u64 \<Rightarrow> memory_kind set" where
  "kinds_of out x = region_kind ` {r \<in> set out. region_contains r x}"

text \<open>Non-empty regions in address order, without overlap, and touching regions differ in kind.\<close>

definition map_wf :: "memory_region list \<Rightarrow> bool" where
  "map_wf out \<longleftrightarrow> (\<forall>r\<in>set out. mr_start r < mr_end r) \<and>
     sorted_wrt (\<lambda>r s. mr_end r \<le> mr_start s) out \<and>
     successively (\<lambda>r s. mr_end r = mr_start s \<longrightarrow> region_kind r \<noteq> region_kind s) out"

text \<open>What holds after the windows up to the cut point \<open>c\<close> have been processed.\<close>

definition emitted :: "memory_region list \<Rightarrow> u64 set \<Rightarrow> u64 \<Rightarrow> memory_region list \<Rightarrow> bool" where
  "emitted input C c out \<longleftrightarrow> map_wf out \<and>
     (\<forall>r\<in>set out. mr_end r \<le> c \<and> mr_start r \<in> C \<and> mr_end r \<in> C) \<and>
     (\<forall>x<c. kinds_of out x = set_option (kind_at input x))"

lemma kinds_of_append [simp]: "kinds_of (xs @ ys) x = kinds_of xs x \<union> kinds_of ys x"
  by (auto simp: kinds_of_def)

lemma kinds_of_single: "kinds_of [r] x = (if region_contains r x then {region_kind r} else {})"
  by (auto simp: kinds_of_def)

lemma kinds_of_below: "\<forall>r\<in>set out. mr_end r \<le> c \<Longrightarrow> c \<le> x \<Longrightarrow> kinds_of out x = {}"
  by (auto simp: kinds_of_def region_contains_def)

lemma emit_merge:
  assumes inv: "emitted input C lo (os @ [r])" and r: "mr_end r = lo" "region_kind r = k"
    and lh: "lo < hi" "hi \<in> C" and k: "\<And>x. lo \<le> x \<Longrightarrow> x < hi \<Longrightarrow> kind_at input x = Some k"
  shows "emitted input C hi (os @ [r\<lparr>mr_end := hi\<rparr>])"
proof -
  have wf: "map_wf (os @ [r])" and C: "\<forall>s\<in>set (os @ [r]). mr_start s \<in> C \<and> mr_end s \<in> C"
    and ends: "\<forall>s\<in>set os. mr_end s \<le> lo"
    and kk: "\<And>x. x < lo \<Longrightarrow> kinds_of (os @ [r]) x = set_option (kind_at input x)"
    using inv by (auto simp: emitted_def)
  have sr: "mr_start r < lo" using wf r by (simp add: map_wf_def)
  then have sh: "mr_start r < hi" using lh(1) by (rule order_less_trans)
  have "map_wf (os @ [r\<lparr>mr_end := hi\<rparr>])"
    using wf sh by (simp add: map_wf_def sorted_wrt_append successively_append_iff)
  moreover have "kinds_of (os @ [r\<lparr>mr_end := hi\<rparr>]) x = set_option (kind_at input x)" if x: "x < hi" for x
  proof (cases "x < lo")
    case True
    then have "region_contains (r\<lparr>mr_end := hi\<rparr>) x = region_contains r x"
      using x r by (simp add: region_contains_def)
    with kk [OF True] show ?thesis by (auto simp: kinds_of_single split: if_splits)
  next
    case False
    then have lx: "lo \<le> x" by simp
    with sr have "mr_start r \<le> x" by simp
    then have "region_contains (r\<lparr>mr_end := hi\<rparr>) x" using x by (simp add: region_contains_def)
    with kinds_of_below [OF ends lx] k [OF lx x] r show ?thesis by (simp add: kinds_of_single)
  qed
  moreover have "\<forall>s\<in>set os. mr_end s \<le> hi" using ends less_imp_le [OF lh(1)] by (blast intro: order_trans)
  ultimately show ?thesis using C lh by (simp add: emitted_def)
qed

lemma emit_append:
  assumes inv: "emitted input C lo out"
    and new: "out = [] \<or> mr_end (last out) \<noteq> lo \<or> region_kind (last out) \<noteq> k"
    and lh: "lo < hi" "lo \<in> C" "hi \<in> C" and k: "\<And>x. lo \<le> x \<Longrightarrow> x < hi \<Longrightarrow> kind_at input x = Some k"
  shows "emitted input C hi (out @ [region_new lo hi k])"
proof -
  have wf: "map_wf out" and C: "\<forall>s\<in>set out. mr_start s \<in> C \<and> mr_end s \<in> C"
    and ends: "\<forall>s\<in>set out. mr_end s \<le> lo"
    and kk: "\<And>x. x < lo \<Longrightarrow> kinds_of out x = set_option (kind_at input x)"
    using inv by (auto simp: emitted_def)
  have "map_wf (out @ [region_new lo hi k])"
    using wf ends new lh(1) by (auto simp: map_wf_def sorted_wrt_append successively_append_iff)
  moreover have "kinds_of (out @ [region_new lo hi k]) x = set_option (kind_at input x)" if x: "x < hi" for x
  proof (cases "x < lo")
    case True
    with kk [OF True] leD show ?thesis by (auto simp: kinds_of_single region_contains_def)
  next
    case False
    then have lx: "lo \<le> x" by simp
    with kinds_of_below [OF ends lx] k [OF lx x] x show ?thesis
      by (simp add: kinds_of_single region_contains_def)
  qed
  moreover have "\<forall>s\<in>set out. mr_end s \<le> hi" using ends less_imp_le [OF lh(1)] by (blast intro: order_trans)
  ultimately show ?thesis using C lh by (simp add: emitted_def)
qed

lemma emit_region_emitted:
  assumes e: "emit_region cap lo hi k out = Ok out'" and inv: "emitted input C lo out"
    and lh: "lo < hi" "lo \<in> C" "hi \<in> C" and k: "\<And>x. lo \<le> x \<Longrightarrow> x < hi \<Longrightarrow> kind_at input x = Some k"
  shows "emitted input C hi out'"
proof (cases "out \<noteq> [] \<and> mr_end (last out) = lo \<and> region_kind (last out) = k")
  case True
  then obtain os r where out: "out = os @ [r]" and r: "mr_end r = lo" "region_kind r = k"
    by (cases out rule: rev_cases) auto
  have "out' = os @ [r\<lparr>mr_end := hi\<rparr>]"
    using e True by (simp add: emit_region_def out)
  then show ?thesis using emit_merge [OF inv [unfolded out] r lh(1,3) k] by simp
next
  case False
  then have "out' = out @ [region_new lo hi k]"
    using e by (auto simp: emit_region_def split: if_splits)
  with emit_append [OF inv _ lh k] False show ?thesis by auto
qed

lemma emit_skip:
  assumes inv: "emitted input C lo out" and lh: "lo < hi" and k: "\<And>x. lo \<le> x \<Longrightarrow> x < hi \<Longrightarrow> kind_at input x = None"
  shows "emitted input C hi out"
proof -
  have ends: "\<forall>s\<in>set out. mr_end s \<le> lo" using inv by (simp add: emitted_def)
  have "kinds_of out x = set_option (kind_at input x)" if "x < hi" for x
    using inv k [of x] that kinds_of_below [OF ends, of x] by (cases "x < lo") (auto simp: emitted_def)
  moreover have "\<forall>s\<in>set out. mr_end s \<le> hi" using ends less_imp_le [OF lh] by (blast intro: order_trans)
  ultimately show ?thesis using inv by (simp add: emitted_def)
qed

lemma emit_windows_emitted:
  assumes "emit_windows input cap (windows2 (c # cs)) out = Ok out'"
    and "sorted_wrt (<) (ps @ c # cs)" and "set (ps @ c # cs) = set (collect_cuts input)"
    and "emitted input (set (collect_cuts input)) c out"
  shows "emitted input (set (collect_cuts input)) (last (c # cs)) out'"
  using assms
proof (induction cs arbitrary: c ps out)
  case (Cons d cs)
  let ?C = "set (collect_cuts input)"
  have mem: "(c, d) \<in> set (windows2 (ps @ c # d # cs))"
    by (induction ps rule: induct_list012) auto
  note el = windows2_elementary [OF Cons.prems(2) mem]
  have k: "kind_at input x = best_kind input c d" if "c \<le> x" "x < d" for x
    using best_kind_eq_kind_at [OF Cons.prems(2,3) mem that] by simp
  have step: "\<exists>out1. emitted input ?C d out1 \<and> emit_windows input cap (windows2 (d # cs)) out1 = Ok out'"
  proof (cases "best_kind input c d")
    case None
    then have "emitted input ?C d out" using emit_skip [OF Cons.prems(4)] el k None by simp
    with Cons.prems(1) None show ?thesis by auto
  next
    case (Some m)
    then obtain out1 where o: "emit_region cap c d m out = Ok out1"
      "emit_windows input cap (windows2 (d # cs)) out1 = Ok out'"
      using Cons.prems(1) by (auto simp: try_bind_Ok_iff)
    have "emitted input ?C d out1"
      using emit_region_emitted [OF o(1) Cons.prems(4)] el k Some Cons.prems(3) by auto
    with o(2) show ?thesis by blast
  qed
  then obtain out1 where "emitted input ?C d out1" "emit_windows input cap (windows2 (d # cs)) out1 = Ok out'"
    by blast
  from Cons.IH [OF this(2), of "ps @ [c]"] this(1) Cons.prems(2,3) show ?case by simp
qed simp

text \<open>The cut points after sorting and removal of duplicates.\<close>

lemma cuts_props:
  "sorted_wrt (<) (dedup_cuts (sort_cuts (collect_cuts input)))"
  "set (dedup_cuts (sort_cuts (collect_cuts input))) = set (collect_cuts input)"
  by (simp_all add: dedup_cuts_remdups_adj sort_cuts_sort strict_sorted_remdups_adj)

lemma kind_at_in_cuts:
  assumes "sorted_wrt (<) (c # cs)" "set (c # cs) = set (collect_cuts input)" and "kind_at input x \<noteq> None"
  shows "c \<le> x" and "x < last (c # cs)"
proof -
  obtain r where r: "r \<in> set (valid_regions input)" "mr_start r \<le> x" "x < mr_end r"
    using assms(3) by (auto simp: kind_at_None region_contains_def)
  have "mr_start r \<in> set (c # cs)" "mr_end r \<in> set (c # cs)"
    using cuts_of_regions [OF r(1)] assms(2) by simp_all
  moreover have "\<forall>d\<in>set (c # cs). c \<le> d" using assms(1) by (auto intro: less_imp_le)
  moreover have "\<forall>d\<in>set (c # cs). d \<le> last (c # cs)"
    using assms(1)
  proof (induction cs arbitrary: c)
    case (Cons d cs)
    then show ?case by (cases cs) (auto intro: less_imp_le order_trans)
  qed simp
  ultimately show "c \<le> x" "x < last (c # cs)"
    using r by (meson order_trans, meson order_less_le_trans)
qed

lemma normalize_emitted:
  assumes "normalize input cap = Ok out"
  shows "map_wf out" and "r \<in> set out \<Longrightarrow> mr_start r \<in> set (collect_cuts input) \<and> mr_end r \<in> set (collect_cuts input)"
    and "kinds_of out x = set_option (kind_at input x)"
proof -
  define cs where "cs = dedup_cuts (sort_cuts (collect_cuts input))"
  have e: "emit_windows input cap (windows2 cs) [] = Ok out"
    using assms by (simp add: normalize_def cs_def Let_def split: if_splits)
  note cp = cuts_props [of input, folded cs_def]
  have "map_wf out \<and> (\<forall>r\<in>set out. mr_start r \<in> set (collect_cuts input) \<and> mr_end r \<in> set (collect_cuts input)) \<and>
    (\<forall>x. kinds_of out x = set_option (kind_at input x))"
  proof (cases cs)
    case Nil
    then have "valid_regions input = []"
      using cp(2) by (auto simp: collect_cuts_def)
    then show ?thesis using e Nil by (simp add: map_wf_def kinds_of_def kind_at_def)
  next
    case (Cons c cs')
    have low: "kind_at input x = None" if "x < c" for x
      using kind_at_in_cuts(1) [OF cp [unfolded Cons], of x] that by (meson leD)
    then have "emitted input (set (collect_cuts input)) c []"
      by (auto simp: emitted_def map_wf_def kinds_of_def)
    from emit_windows_emitted [OF e [unfolded Cons], of "[]"] this cp
    have em: "emitted input (set (collect_cuts input)) (last (c # cs')) out" by (simp add: Cons)
    have "kinds_of out x = set_option (kind_at input x)" for x
    proof (cases "x < last (c # cs')")
      case True
      with em show ?thesis by (simp add: emitted_def)
    next
      case False
      then have "kind_at input x = None"
        using kind_at_in_cuts(2) [OF cp [unfolded Cons], of x] by blast
      moreover have "kinds_of out x = {}"
        using em False by (intro kinds_of_below [of _ "last (c # cs')"]) (auto simp: emitted_def)
      ultimately show ?thesis by simp
    qed
    with em show ?thesis by (simp add: emitted_def)
  qed
  then show "map_wf out" "r \<in> set out \<Longrightarrow> mr_start r \<in> set (collect_cuts input) \<and> mr_end r \<in> set (collect_cuts input)"
    "kinds_of out x = set_option (kind_at input x)"
    by auto
qed

section \<open>Alignment and success\<close>

lemma page_align_aligned: "4096 dvd unat (mr_start (page_align r))" "4096 dvd unat (mr_end (page_align r))"
  using align_up_least(1) [of 12] unat_align_down [of 12]
  by (simp_all add: page_align_def PAGE_SIZE_pow2)

lemma valid_regions_mem:
  "a \<in> set (valid_regions input) \<longleftrightarrow>
     (\<exists>r\<in>set input. a = page_align r \<and> mr_start a < mr_end a \<and> region_kind a \<noteq> Unknown)"
  by (auto simp: valid_regions_def valid_region_def region_is_empty_def Let_def not_le
      List.map_filter_def image_iff split: if_splits)

lemma cuts_aligned: "c \<in> set (collect_cuts input) \<Longrightarrow> 4096 dvd unat c"
  by (auto simp: collect_cuts_def valid_regions_mem page_align_aligned)

lemma length_valid_regions: "length (valid_regions input) \<le> length input"
  using length_filter_le [of "\<lambda>r. valid_region r \<noteq> None" input]
  by (simp add: valid_regions_def List.map_filter_def)

lemma length_cuts: "length (dedup_cuts (sort_cuts (collect_cuts input))) \<le> 2 * length input"
proof -
  have "length (collect_cuts input) = 2 * length (valid_regions input)"
    by (simp add: collect_cuts_def length_concat comp_def sum_list_triv)
  then show ?thesis
    using remdups_adj_length [of "sort (collect_cuts input)"] length_valid_regions [of input]
    by (simp add: dedup_cuts_remdups_adj sort_cuts_sort)
qed

lemma emit_windows_total:
  "length out + length ws \<le> cap \<Longrightarrow> \<exists>out'. emit_windows input cap ws out = Ok out'"
proof (induction ws arbitrary: out)
  case (Cons w ws)
  obtain lo hi where w: "w = (lo, hi)" by fastforce
  show ?case
  proof (cases "best_kind input lo hi")
    case None
    with Cons w show ?thesis by simp
  next
    case (Some k)
    have "\<exists>out1. emit_region cap lo hi k out = Ok out1 \<and> length out1 \<le> Suc (length out)"
      using Cons.prems
      by (cases "out \<noteq> [] \<and> mr_end (last out) = lo \<and> region_kind (last out) = k")
         (auto simp: emit_region_def)
    then obtain out1 where "emit_region cap lo hi k out = Ok out1" "length out1 \<le> Suc (length out)"
      by blast
    with Cons.IH [of out1] Cons.prems Some w show ?thesis by auto
  qed
qed simp

section \<open>Byte counts\<close>

lemma map_wf_Cons: "map_wf (r # rs) \<Longrightarrow> map_wf rs"
  by (auto simp: map_wf_def successively_Cons)

text \<open>The regions of a well-formed map fit one after the other below \<open>2 ^ 64\<close>.\<close>

lemma map_wf_total_len:
  "map_wf out \<Longrightarrow> \<forall>r\<in>set out. unat b \<le> unat (mr_start r) \<Longrightarrow>
    unat b + sum_list (map (\<lambda>r. unat (region_len r)) out) < 2 ^ 64"
  for b :: u64
proof (induction out arbitrary: b)
  case (Cons r rs)
  have r: "unat (mr_start r) < unat (mr_end r)" "unat b \<le> unat (mr_start r)"
    using Cons.prems by (simp_all add: map_wf_def word_less_nat_alt)
  have "\<forall>s\<in>set rs. unat (mr_end r) \<le> unat (mr_start s)"
    using Cons.prems(1) by (simp add: map_wf_def word_le_nat_alt)
  from Cons.IH [OF map_wf_Cons [OF Cons.prems(1)] this] r show ?case
    by (simp add: region_len_def unat_saturating_sub)
qed simp

lemma summarize_fold:
  assumes "unat (usable_bytes s) + unat (kernel_bytes s) + unat (reserved_bytes s)
      + sum_list (map (\<lambda>r. unat (region_len r)) m) < 2 ^ 64"
  shows "unat (usable_bytes (fold summarize_step m s)) + unat (kernel_bytes (fold summarize_step m s))
      + unat (reserved_bytes (fold summarize_step m s)) =
    unat (usable_bytes s) + unat (kernel_bytes s) + unat (reserved_bytes s)
      + sum_list (map (\<lambda>r. unat (region_len r)) m)"
  using assms
proof (induction m arbitrary: s)
  case (Cons r m)
  let ?t = "summarize_step r s"
  have "unat (usable_bytes ?t) + unat (kernel_bytes ?t) + unat (reserved_bytes ?t) =
    unat (usable_bytes s) + unat (kernel_bytes s) + unat (reserved_bytes s) + unat (region_len r)"
    using Cons.prems by (simp add: summarize_step_def Let_def unat_word_ariths)
  with Cons.IH [of ?t] Cons.prems show ?case by simp
qed simp

lemma max_addr_fold:
  "max_addr (fold summarize_step m s) \<ge> max_addr s \<and>
   (\<forall>r\<in>set m. mr_end r \<le> max_addr (fold summarize_step m s))"
proof (induction m arbitrary: s)
  case (Cons r m)
  have "max_addr s \<le> max_addr (summarize_step r s)" "mr_end r \<le> max_addr (summarize_step r s)"
    by (simp_all add: summarize_step_def Let_def)
  with Cons.IH [of "summarize_step r s"] show ?case by (auto intro: order_trans)
qed simp

lemma max_usable_fold:
  "max_usable_addr s \<le> max_usable_addr (fold summarize_step m s) \<and>
   (\<forall>r\<in>set m. is_usable_after_boot (region_kind r) \<longrightarrow> mr_end r \<le> max_usable_addr (fold summarize_step m s))"
proof (induction m arbitrary: s)
  case (Cons r m)
  have "max_usable_addr s \<le> max_usable_addr (summarize_step r s)"
    "is_usable_after_boot (region_kind r) \<Longrightarrow> mr_end r \<le> max_usable_addr (summarize_step r s)"
    by (auto simp: summarize_step_def Let_def is_usable_after_boot_def)
  with Cons.IH [of "summarize_step r s"] show ?case by (auto intro: order_trans)
qed simp

section \<open>Properties\<close>

text \<open>
  C6: when \<^verbatim>\<open>normalize\<close> succeeds, its output is a list of non-empty page-aligned regions in
  strictly increasing, non-overlapping order in which touching regions differ in kind, and an
  address has the kind \<open>k\<close> in the output exactly when some valid input region of kind \<open>k\<close>
  covers it and no valid input region that covers it has a higher priority.
\<close>

theorem normalize_correct:
  assumes "normalize input cap = Ok out"
  shows "map_wf out \<and> (\<forall>r\<in>set out. 4096 dvd unat (mr_start r) \<and> 4096 dvd unat (mr_end r)) \<and>
    (k \<in> kinds_of out x \<longleftrightarrow>
      (\<exists>r\<in>set (valid_regions input). region_contains r x \<and> region_kind r = k) \<and>
      (\<forall>r\<in>set (valid_regions input). region_contains r x \<longrightarrow> priority (region_kind r) \<le> priority k))"
proof (intro conjI ballI)
  show "k \<in> kinds_of out x \<longleftrightarrow>
      (\<exists>r\<in>set (valid_regions input). region_contains r x \<and> region_kind r = k) \<and>
      (\<forall>r\<in>set (valid_regions input). region_contains r x \<longrightarrow> priority (region_kind r) \<le> priority k)"
  proof (cases "kind_at input x")
    case None
    then show ?thesis
      using normalize_emitted(3) [OF assms, of x] kind_at_None [of input x] by auto
  next
    case (Some l)
    note l = kind_at_Some [OF Some]
    have "k = l" if "\<exists>r\<in>set (valid_regions input). region_contains r x \<and> region_kind r = k"
      "\<forall>r\<in>set (valid_regions input). region_contains r x \<longrightarrow> priority (region_kind r) \<le> priority k"
      using that l by (metis le_antisym priority_inj)
    then show ?thesis
      using normalize_emitted(3) [OF assms, of x] Some l by auto
  qed
qed (use normalize_emitted(1,2) [OF assms] cuts_aligned in blast)+

text \<open>Eight pages of memory with the kernel image on the second page and a hole after the fourth.\<close>

definition sample_map :: "memory_region list" where
  "sample_map =
     [region_new 0 0x4000 Usable, region_new 0x1000 0x1800 KernelImage, region_new 0x6000 0x8FFF LoaderReclaimable]"

definition sample_map_out :: "memory_region list" where
  "sample_map_out =
     [region_new 0 0x1000 Usable, region_new 0x1000 0x2000 KernelImage, region_new 0x2000 0x4000 Usable,
      region_new 0x6000 0x8000 LoaderReclaimable]"

lemma sample_map_normalize: "normalize sample_map 8 = Ok sample_map_out"
  by code_simp

theorem normalize_correct_witness:
  "map_wf sample_map_out \<and> KernelImage \<in> kinds_of sample_map_out 0x1F00"
proof -
  have "\<exists>r\<in>set (valid_regions sample_map). region_contains r 0x1F00 \<and> region_kind r = KernelImage"
    "\<forall>r\<in>set (valid_regions sample_map). region_contains r 0x1F00 \<longrightarrow> priority (region_kind r) \<le> priority KernelImage"
    by code_simp+
  then show ?thesis
    using normalize_correct [OF sample_map_normalize, of KernelImage "0x1F00"] by blast
qed

text \<open>
  C23: \<^verbatim>\<open>normalize\<close> refuses more than \<^verbatim>\<open>MAX_INPUT\<close> regions, and otherwise succeeds whenever the
  output has room for two regions per input region.
\<close>

theorem normalize_total:
  "(MAX_INPUT_REGIONS < length input \<longrightarrow> normalize input cap = Err TooManyInputRegions) \<and>
   (length input \<le> MAX_INPUT_REGIONS \<and> 2 * length input \<le> cap \<longrightarrow> (\<exists>out. normalize input cap = Ok out))"
proof -
  have "\<exists>out. emit_windows input cap (windows2 (dedup_cuts (sort_cuts (collect_cuts input)))) [] = Ok out"
    if "2 * length input \<le> cap"
    using that length_cuts [of input] by (intro emit_windows_total) (simp add: windows2_def)
  then show ?thesis by (simp add: normalize_def Let_def)
qed

theorem normalize_total_witness:
  "(\<exists>out. normalize sample_map 6 = Ok out) \<and>
   normalize (replicate 529 (region_new 0 0 Usable)) 0 = Err TooManyInputRegions"
  using normalize_total [of sample_map 6] normalize_total [of "replicate 529 (region_new 0 0 Usable)" 0]
  by (simp add: sample_map_def MAX_INPUT_REGIONS_def)

lemma page_align_kind [simp]: "region_kind (page_align r) = region_kind r"
  by (simp add: page_align_def)

lemma usable_priority: "is_usable_after_boot k \<Longrightarrow> \<not> is_usable_after_boot l \<Longrightarrow> l \<noteq> Unknown \<Longrightarrow> priority k < priority l"
  by (cases l) (auto simp: is_usable_after_boot_def)

text \<open>A page touched by a region that is not usable is covered by the page-aligned region.\<close>

lemma page_align_reserved:
  assumes "\<not> is_usable_after_boot (region_kind r)" and x: "region_contains r x"
    and top: "unat (mr_end r) \<le> 2 ^ 64 - 4096" and y: "unat y div 4096 = unat x div 4096"
  shows "region_contains (page_align r) y"
proof -
  have "unat (mr_start (page_align r)) = unat (mr_start r) div 4096 * 4096"
    using assms(1) unat_align_down [of 12 "mr_start r"] by (simp add: page_align_def PAGE_SIZE_pow2)
  moreover have "unat (mr_end (page_align r)) = (unat (mr_end r) + 4095) div 4096 * 4096"
    using assms(1) top unat_align_up [of 12 "mr_end r"] by (simp add: page_align_def PAGE_SIZE_pow2)
  moreover have "unat (mr_start r) div 4096 \<le> unat y div 4096"
    using x y by (auto simp: region_contains_def word_le_nat_alt intro: div_le_mono)
  moreover have "unat y div 4096 + 1 \<le> (unat (mr_end r) + 4095) div 4096"
    using x y by (auto simp: region_contains_def word_less_nat_alt)
  ultimately show ?thesis
    by (simp add: region_contains_def word_le_nat_alt word_less_nat_alt) linarith
qed

lemma kind_at_reserved:
  assumes r: "r \<in> set input" "\<not> is_usable_after_boot (region_kind r)" "region_kind r \<noteq> Unknown"
    and x: "region_contains r x" "unat (mr_end r) \<le> 2 ^ 64 - 4096" "unat y div 4096 = unat x div 4096"
    and k: "kind_at input y = Some k"
  shows "\<not> is_usable_after_boot k"
proof
  assume u: "is_usable_after_boot k"
  have c: "region_contains (page_align r) y" using page_align_reserved [OF r(2) x] .
  then have "page_align r \<in> set (valid_regions input)"
    using r by (auto simp: valid_regions_mem region_contains_def)
  from kind_at_Some(2) [OF k this c] have "priority (region_kind r) \<le> priority k" by simp
  then show False using usable_priority [OF u r(2,3)] by simp
qed

text \<open>
  C21: a page of which an input region marks a single byte as anything but usable memory (firmware,
  MMIO, kernel, framebuffer) is never reported usable. The bound excludes regions that end inside
  the last page of the address space, whose end \<^verbatim>\<open>align_up\<close> rounds down.
\<close>

theorem normalize_protects_reserved:
  assumes "normalize input cap = Ok out"
    and "r \<in> set input" "\<not> is_usable_after_boot (region_kind r)" "region_kind r \<noteq> Unknown"
    and "region_contains r x" "unat (mr_end r) \<le> 2 ^ 64 - 4096"
    and "u \<in> set out" "region_contains u y" "unat y div 4096 = unat x div 4096"
  shows "\<not> is_usable_after_boot (region_kind u)"
proof -
  have "region_kind u \<in> kinds_of out y" using assms(7,8) by (auto simp: kinds_of_def)
  then have "kind_at input y = Some (region_kind u)"
    using normalize_emitted(3) [OF assms(1), of y] by simp
  then show ?thesis using kind_at_reserved [OF assms(2-6,9)] by blast
qed

theorem normalize_protects_reserved_witness:
  "\<not> is_usable_after_boot (region_kind (region_new 0x1000 0x2000 KernelImage))"
  by (rule normalize_protects_reserved
      [OF sample_map_normalize, of "region_new 0x1000 0x1800 KernelImage" "0x1000" _ "0x1F00"])
     (simp_all add: sample_map_def sample_map_out_def is_usable_after_boot_def region_contains_def)

text \<open>
  C24: the summary of a normalised map accounts for every byte of every region exactly once, with no
  wrap-around in its 64-bit counters, and no region ends above \<^verbatim>\<open>max_addr\<close>.
\<close>

theorem summarize_accounts:
  assumes "normalize input cap = Ok out"
  shows "unat (usable_bytes (summarize out)) + unat (kernel_bytes (summarize out))
      + unat (reserved_bytes (summarize out)) = sum_list (map (\<lambda>r. unat (region_len r)) out) \<and>
    (\<forall>r\<in>set out. mr_end r \<le> max_addr (summarize out) \<and>
      (is_usable_after_boot (region_kind r) \<longrightarrow> mr_end r \<le> max_usable_addr (summarize out)))"
proof -
  have "sum_list (map (\<lambda>r. unat (region_len r)) out) < 2 ^ 64"
    using map_wf_total_len [OF normalize_emitted(1) [OF assms], of 0] by simp
  then show ?thesis
    using summarize_fold max_addr_fold max_usable_fold by (simp add: summarize_def)
qed

theorem summarize_accounts_witness:
  "unat (usable_bytes (summarize sample_map_out)) + unat (kernel_bytes (summarize sample_map_out))
     + unat (reserved_bytes (summarize sample_map_out)) = 0x6000"
proof -
  have "sum_list (map (\<lambda>r. unat (region_len r)) sample_map_out) = 0x6000"
    by (simp add: sample_map_out_def region_len_def saturating_sub_def)
  then show ?thesis using summarize_accounts [OF sample_map_normalize] by simp
qed

end
