(* ===== verification/Phys_Mem.thy ===== *)
theory Phys_Mem
  imports Frame_Bitmap Memory_Map
begin

text \<open>
  \<^verbatim>\<open>kernel/src/mm/phys.rs\<close>: at boot the kernel normalises the loader's map together with its own
  reservations, finds a home for the frame bitmap, and hands the usable pages to the frame
  allocator. The static cells of the module (\<^verbatim>\<open>ALLOCATOR\<close>, \<^verbatim>\<open>REGIONS\<close>, \<^verbatim>\<open>SUMMARY\<close>) are a record;
  log lines are left out. The contents of the memory the bitmap is placed in are a parameter
  \<open>mem\<close>: the constructor of the bitmap overwrites them.
\<close>

section \<open>Boot initialisation\<close>

definition MAX_REGIONS :: nat where
  "MAX_REGIONS = 600"

record phys_state =
  ph_regions :: "memory_region list"
  ph_summary :: map_summary
  ph_alloc :: frame_alloc

text \<open>The reasons for which \<^verbatim>\<open>init\<close> stops the machine.\<close>

datatype init_halt = BadMap map_error | NoBitmapHome | BitmapStorage | BitmapUnaligned

text \<open>The fields of the boot framebuffer that \<^verbatim>\<open>init\<close> reads.\<close>

record fb_info =
  fb_base :: u64
  fb_size :: u64
  fb_width :: u32
  fb_height :: u32

definition fb_is_present :: "fb_info \<Rightarrow> bool" where
  "fb_is_present fb \<longleftrightarrow> fb_base fb \<noteq> 0 \<and> fb_width fb \<noteq> 0 \<and> fb_height fb \<noteq> 0"

text \<open>The loader's map followed by the kernel's own reservations.\<close>

definition init_input :: "memory_region list \<Rightarrow> fb_info \<Rightarrow> memory_region list" where
  "init_input raw fb =
     take (MAX_REGIONS - 2) raw @ [region_new 0 0x100000 Reserved] @
     (if fb_is_present fb then [region_new (fb_base fb) (fb_base fb + fb_size fb) Framebuffer] else [])"

definition bitmap_bytes :: "nat \<Rightarrow> u64" where
  "bitmap_bytes words = align_up (word_of_nat (words * 8)) PAGE_SIZE"

definition phys_init ::
  "memory_region list \<Rightarrow> fb_info \<Rightarrow> (phys_addr \<Rightarrow> u64) \<Rightarrow> (init_halt, phys_state) result" where
  "phys_init raw fb mem =
     (case normalize (init_input raw fb) MAX_REGIONS of
        Inl e \<Rightarrow> Err (BadMap e)
      | Inr rs \<Rightarrow>
          let summary = summarize rs;
              frames = unat (max_usable_addr summary div PAGE_SIZE);
              words = words_for frames;
              bytes = bitmap_bytes words
          in (case find (\<lambda>r. region_kind r = Usable \<and> bytes \<le> region_len r) rs of
                None \<Rightarrow> Err NoBitmapHome
              | Some home \<Rightarrow>
                  let storage_phys = mr_start home;
                      storage = map (\<lambda>i. mem (storage_phys + 8 * word_of_nat i)) [0..<words]
                  in (case bitmap_new frames storage of
                        None \<Rightarrow> Err BitmapStorage
                      | Some a0 \<Rightarrow>
                          let a1 = fold (\<lambda>r a. snd (mark_usable a (mr_start r) (mr_end r)))
                                     (filter (\<lambda>r. is_usable_after_boot (region_kind r)) rs) a0
                          in (case mark_used a1 storage_phys (phys_add storage_phys bytes) of
                                (Inl _, _) \<Rightarrow> Err BitmapUnaligned
                              | (Inr _, a2) \<Rightarrow>
                                  Ok \<lparr>ph_regions = rs, ph_summary = summary, ph_alloc = a2\<rparr>))))"

section \<open>Allocation through the global allocator\<close>

text \<open>\<open>None\<close> as the state is a kernel that has not run \<open>phys_init\<close> yet.\<close>

definition phys_allocate_frame :: "phys_state option \<Rightarrow> phys_addr option \<times> phys_state option" where
  "phys_allocate_frame st =
     (case st of
        None \<Rightarrow> (None, None)
      | Some p \<Rightarrow> (let (r, a) = allocate (ph_alloc p) in (r, Some (p\<lparr>ph_alloc := a\<rparr>))))"

definition phys_free_frame ::
  "phys_state option \<Rightarrow> phys_addr \<Rightarrow> (frame_error, unit) result \<times> phys_state option" where
  "phys_free_frame st f =
     (case st of
        None \<Rightarrow> (Err (OutOfRange f), None)
      | Some p \<Rightarrow> (let (r, a) = free_frame (ph_alloc p) f in (r, Some (p\<lparr>ph_alloc := a\<rparr>))))"

definition phys_stats :: "phys_state option \<Rightarrow> frame_stats" where
  "phys_stats st =
     (case st of
        None \<Rightarrow> \<lparr>st_capacity = 0, st_total_usable = 0, st_free = 0, st_allocations = 0, st_frees = 0, st_failures = 0\<rparr>
      | Some p \<Rightarrow> fa_stats (ph_alloc p))"

section \<open>What is free after boot\<close>

lemma fold_mark_usable_regions:
  assumes "fa_inv a" and "\<forall>r\<in>set rs. 4096 dvd unat (mr_start r) \<and> 4096 dvd unat (mr_end r)"
    and "free_frames a = usable_frames a"
  shows "let b = fold (\<lambda>r a. snd (mark_usable a (mr_start r) (mr_end r))) rs a in
    fa_inv b \<and> fa_capacity b = fa_capacity a \<and> free_frames b = usable_frames b \<and>
    usable_frames b = usable_frames a \<union> (\<Union>r\<in>set rs. range_frames a (mr_start r) (mr_end r))"
  using assms
proof (induction rs arbitrary: a)
  case (Cons r rs)
  let ?a = "snd (mark_usable a (mr_start r) (mr_end r))"
  have "mark_usable a (mr_start r) (mr_end r) = (Ok (), ?a)"
    using Cons.prems(2) by (auto simp: mark_usable_def frame_range_def phys_aligned_page Let_def)
  note m = mark_usable_Ok [OF Cons.prems(1) this]
  have "free_frames ?a = usable_frames ?a" using m Cons.prems(3) by auto
  moreover have "range_frames ?a s e = range_frames a s e" for s e
    using m(4) by (simp add: range_frames_def)
  ultimately show ?case using Cons.IH [OF m(1)] Cons.prems(2) m by (auto simp: Let_def)
qed (simp add: Let_def)

text \<open>
  A page whose bounds are aligned lies in an aligned region exactly when its first byte does.
\<close>

lemma range_frames_contains:
  assumes "4096 dvd unat (mr_start r)" "4096 dvd unat (mr_end r)" and f: "f < 2 ^ 52"
    and cap: "unat (mr_end r) \<le> fa_capacity a * 4096"
  shows "f \<in> range_frames a (mr_start r) (mr_end r) \<longleftrightarrow> region_contains r (frame_addr f)"
proof -
  obtain m n where mn: "unat (mr_start r) = 4096 * m" "unat (mr_end r) = 4096 * n"
    using assms by (auto elim!: dvdE)
  have "region_contains r (frame_addr f) \<longleftrightarrow> m \<le> f \<and> f < n"
    using unat_frame_addr [OF f] mn
    by (auto simp: region_contains_def word_le_nat_alt word_less_nat_alt mult.commute [of f])
  moreover have "f \<in> range_frames a (mr_start r) (mr_end r) \<longleftrightarrow> f < fa_capacity a \<and> m \<le> f \<and> f < n"
    by (auto simp: range_frames_def mn)
  ultimately show ?thesis using cap mn by auto
qed

text \<open>The bitmap size \<^verbatim>\<open>init\<close> computes from a summary, and the region it places the bitmap in.\<close>

definition boot_frames :: "memory_region list \<Rightarrow> nat" where
  "boot_frames rs = unat (max_usable_addr (summarize rs) div PAGE_SIZE)"

definition boot_bytes :: "memory_region list \<Rightarrow> u64" where
  "boot_bytes rs = bitmap_bytes (words_for (boot_frames rs))"

lemma phys_init_split:
  assumes "phys_init raw fb mem = Ok p"
  obtains home storage a0 where
    "normalize (init_input raw fb) MAX_REGIONS = Ok (ph_regions p)"
    "ph_summary p = summarize (ph_regions p)"
    "find (\<lambda>r. region_kind r = Usable \<and> boot_bytes (ph_regions p) \<le> region_len r) (ph_regions p) = Some home"
    "bitmap_new (boot_frames (ph_regions p)) storage = Some a0"
    "mark_used (fold (\<lambda>r a. snd (mark_usable a (mr_start r) (mr_end r)))
         (filter (\<lambda>r. is_usable_after_boot (region_kind r)) (ph_regions p)) a0)
       (mr_start home) (mr_start home + boot_bytes (ph_regions p)) = (Ok (), ph_alloc p)"
proof -
  obtain rs where rs: "normalize (init_input raw fb) MAX_REGIONS = Ok rs"
    using assms by (cases "normalize (init_input raw fb) MAX_REGIONS") (simp_all add: phys_init_def)
  note i = assms [unfolded phys_init_def rs sum.case Let_def, folded boot_frames_def, folded boot_bytes_def]
  obtain home where home: "find (\<lambda>r. region_kind r = Usable \<and> boot_bytes rs \<le> region_len r) rs = Some home"
    using i by (auto split: option.splits)
  let ?storage = "map (\<lambda>i. mem (mr_start home + 8 * word_of_nat i)) [0..<words_for (boot_frames rs)]"
  obtain a0 where a0: "bitmap_new (boot_frames rs) ?storage = Some a0"
    using i unfolding home option.case by (cases "bitmap_new (boot_frames rs) ?storage") simp_all
  let ?a1 = "fold (\<lambda>r a. snd (mark_usable a (mr_start r) (mr_end r)))
         (filter (\<lambda>r. is_usable_after_boot (region_kind r)) rs) a0"
  obtain res a2 where m: "mark_used ?a1 (mr_start home) (phys_add (mr_start home) (boot_bytes rs)) = (res, a2)"
    by fastforce
  have p: "p = \<lparr>ph_regions = rs, ph_summary = summarize rs, ph_alloc = a2\<rparr>" "res = Ok ()"
    using i unfolding home option.case a0 m prod.case by (cases res; simp)+
  show thesis
    by (rule that [of home ?storage a0]) (use rs home a0 m p in \<open>simp_all add: phys_add_def\<close>)
qed

text \<open>The frames the normalised map leaves to the allocator, and the frames of the bitmap itself.\<close>

definition boot_usable :: "memory_region list \<Rightarrow> fb_info \<Rightarrow> nat set" where
  "boot_usable raw fb =
     {f. f < 2 ^ 52 \<and> (\<exists>k. kind_at (init_input raw fb) (frame_addr f) = Some k \<and> is_usable_after_boot k)}"

definition boot_storage :: "phys_state \<Rightarrow> nat set" where
  "boot_storage p =
     (case find (\<lambda>r. region_kind r = Usable \<and> boot_bytes (ph_regions p) \<le> region_len r) (ph_regions p) of
        None \<Rightarrow> {}
      | Some home \<Rightarrow> range_frames (ph_alloc p) (mr_start home) (mr_start home + boot_bytes (ph_regions p)))"

lemma usable_end_le_capacity:
  assumes "r \<in> set rs" "is_usable_after_boot (region_kind r)" "4096 dvd unat (mr_end r)"
  shows "unat (mr_end r) \<le> boot_frames rs * 4096"
proof -
  have "unat (mr_end r) \<le> unat (max_usable_addr (summarize rs))"
    using max_usable_fold assms(1,2) by (auto simp: summarize_def word_le_nat_alt)
  then have "unat (mr_end r) div 4096 \<le> unat (max_usable_addr (summarize rs)) div 4096"
    by (rule div_le_mono)
  then show ?thesis using assms(3) by (auto simp: boot_frames_def unat_div elim!: dvdE)
qed

lemma boot_frames_bound: "boot_frames rs \<le> 2 ^ 52"
proof -
  have "unat (max_usable_addr (summarize rs)) div 4096 \<le> 2 ^ 64 div 4096"
    by (rule div_le_mono [OF less_imp_le]) simp
  then show ?thesis by (simp add: boot_frames_def unat_div)
qed

text \<open>The regions of a normalised map that the allocator receives are the usable addresses of the input.\<close>

lemma normalized_usable:
  assumes n: "normalize input cap = Ok rs"
  shows "(\<exists>r\<in>set rs. is_usable_after_boot (region_kind r) \<and> region_contains r x) \<longleftrightarrow>
    (\<exists>k. kind_at input x = Some k \<and> is_usable_after_boot k)"
proof -
  have "(\<exists>r\<in>set rs. is_usable_after_boot (region_kind r) \<and> region_contains r x) \<longleftrightarrow>
      (\<exists>k\<in>kinds_of rs x. is_usable_after_boot k)"
    by (auto simp: kinds_of_def)
  then show ?thesis using normalize_emitted(3) [OF n, of x] by auto
qed

lemma boot_regions_union:
  assumes n: "normalize (init_input raw fb) cap = Ok rs" and cap: "fa_capacity a = boot_frames rs"
  shows "(\<Union>r\<in>set (filter (\<lambda>r. is_usable_after_boot (region_kind r)) rs).
      range_frames a (mr_start r) (mr_end r)) = boot_usable raw fb"
proof -
  have al: "4096 dvd unat (mr_start r)" "4096 dvd unat (mr_end r)" if "r \<in> set rs" for r
    using normalize_emitted(2) [OF n that] cuts_aligned by blast+
  have "f < 2 ^ 52" if "f \<in> range_frames a s e" for f s e
    using that boot_frames_bound [of rs] cap by (simp add: range_frames_def)
  moreover have "f \<in> range_frames a (mr_start r) (mr_end r) \<longleftrightarrow> region_contains r (frame_addr f)"
    if "r \<in> set rs" "is_usable_after_boot (region_kind r)" "f < 2 ^ 52" for r f
    using range_frames_contains [of r f a] al [OF that(1)] usable_end_le_capacity [OF that(1,2)] that(3) cap
    by simp
  ultimately show ?thesis
    using normalized_usable [OF n] unfolding boot_usable_def by fastforce
qed

lemma phys_init_free:
  assumes "phys_init raw fb mem = Ok p"
  shows "fa_inv (ph_alloc p)" and "usable_frames (ph_alloc p) = boot_usable raw fb"
    and "free_frames (ph_alloc p) = boot_usable raw fb - boot_storage p"
    and "fa_capacity (ph_alloc p) = boot_frames (ph_regions p)"
proof -
  obtain home storage a0 where n: "normalize (init_input raw fb) MAX_REGIONS = Ok (ph_regions p)"
    and home: "find (\<lambda>r. region_kind r = Usable \<and> boot_bytes (ph_regions p) \<le> region_len r) (ph_regions p) = Some home"
    and a0: "bitmap_new (boot_frames (ph_regions p)) storage = Some a0"
    and m: "mark_used (fold (\<lambda>r a. snd (mark_usable a (mr_start r) (mr_end r)))
         (filter (\<lambda>r. is_usable_after_boot (region_kind r)) (ph_regions p)) a0)
       (mr_start home) (mr_start home + boot_bytes (ph_regions p)) = (Ok (), ph_alloc p)"
    using assms by (rule phys_init_split)
  note new = bitmap_new_inv [OF a0 boot_frames_bound]
  define a1 where "a1 = fold (\<lambda>r a. snd (mark_usable a (mr_start r) (mr_end r)))
         (filter (\<lambda>r. is_usable_after_boot (region_kind r)) (ph_regions p)) a0"
  have al: "\<forall>r\<in>set (filter (\<lambda>r. is_usable_after_boot (region_kind r)) (ph_regions p)).
      4096 dvd unat (mr_start r) \<and> 4096 dvd unat (mr_end r)"
    using normalize_emitted(2) [OF n] cuts_aligned by auto
  have a1: "fa_inv a1" "fa_capacity a1 = boot_frames (ph_regions p)" "free_frames a1 = usable_frames a1"
    "usable_frames a1 = boot_usable raw fb"
    using fold_mark_usable_regions [OF new(1) al] new boot_regions_union [OF n new(4)]
    by (simp_all add: a1_def Let_def)
  note u = mark_used_Ok [OF a1(1) m [folded a1_def]]
  show "fa_inv (ph_alloc p)" "usable_frames (ph_alloc p) = boot_usable raw fb"
    "fa_capacity (ph_alloc p) = boot_frames (ph_regions p)"
    using u a1 by simp_all
  have "boot_storage p = range_frames a1 (mr_start home) (mr_start home + boot_bytes (ph_regions p))"
    using home u(4) by (simp add: boot_storage_def range_frames_def)
  then show "free_frames (ph_alloc p) = boot_usable raw fb - boot_storage p"
    using u(3) a1 by simp
qed

section \<open>Properties\<close>

text \<open>
  C20: after a successful boot initialisation the frame allocator satisfies its invariant, and the
  free frames are exactly the pages whose highest-priority kind in the loader's map (with the
  kernel's own reservations) is usable, without the pages of the bitmap itself.
\<close>

theorem phys_init_free_frames:
  assumes "phys_init raw fb mem = Ok p"
  shows "fa_inv (ph_alloc p) \<and> usable_frames (ph_alloc p) = boot_usable raw fb \<and>
    free_frames (ph_alloc p) = boot_usable raw fb - boot_storage p"
  using phys_init_free [OF assms] by blast

text \<open>Four usable pages right above the first MiB, no framebuffer, memory filled with ones.\<close>

definition sample_raw :: "memory_region list" where
  "sample_raw = [region_new 0x100000 0x104000 Usable, region_new 0x103800 0x103C00 BootInfo]"

definition sample_fb :: fb_info where
  "sample_fb = \<lparr>fb_base = 0, fb_size = 0, fb_width = 0, fb_height = 0\<rparr>"

definition sample_regions :: "memory_region list" where
  "sample_regions =
     [region_new 0 0x100000 Reserved, region_new 0x100000 0x103000 Usable, region_new 0x103000 0x104000 BootInfo]"

definition sample_frames :: "u64 \<Rightarrow> nat \<Rightarrow> frame_alloc" where
  "sample_frames w n =
     \<lparr>fa_bits = [- 1, - 1, - 1, - 1, w], fa_usable = [0, 0, 0, 0, 7], fa_capacity = 260,
      fa_stats = \<lparr>st_capacity = 260, st_total_usable = 3, st_free = n, st_allocations = 0, st_frees = 0, st_failures = 0\<rparr>,
      fa_hint = 0\<rparr>"

definition sample_empty :: frame_alloc where
  "sample_empty = the (bitmap_new 260 (replicate 10 (- 1)))"

definition sample_phys :: phys_state where
  "sample_phys =
     \<lparr>ph_regions = sample_regions, ph_summary = summarize sample_regions, ph_alloc = sample_frames (NOT 6) 2\<rparr>"

lemma sample_phys_steps:
  "normalize (init_input sample_raw sample_fb) MAX_REGIONS = Ok sample_regions"
  "unat (max_usable_addr (summarize sample_regions) div PAGE_SIZE) = 260"
  "words_for 260 = 10" "bitmap_bytes 10 = 0x1000"
  "find (\<lambda>r. region_kind r = Usable \<and> 0x1000 \<le> region_len r) sample_regions =
     Some (region_new 0x100000 0x103000 Usable)"
  "bitmap_new 260 (replicate 10 (- 1)) = Some sample_empty"
  "filter (\<lambda>r. is_usable_after_boot (region_kind r)) sample_regions = [region_new 0x100000 0x103000 Usable]"
  "phys_add 0x100000 0x1000 = 0x101000"
  "snd (mark_usable sample_empty 0x100000 0x103000) = sample_frames (NOT 7) 3"
  "mark_used (sample_frames (NOT 7) 3) 0x100000 0x101000 = (Ok (), sample_frames (NOT 6) 2)"
  by code_simp+

lemma sample_phys_init: "phys_init sample_raw sample_fb (\<lambda>_. - 1) = Ok sample_phys"
proof -
  have c: "map (\<lambda>i. - 1) [0..<10] = replicate 10 (- 1 :: u64)" by (simp add: map_replicate_const)
  show ?thesis
    by (simp only: phys_init_def Let_def sample_phys_steps sum.case option.case fold_simps region_new_simps c
        prod.case sample_phys_def)
qed

lemma sample_phys_frames:
  "257 \<in> free_frames (ph_alloc sample_phys)" "258 \<in> free_frames (ph_alloc sample_phys)"
proof -
  have t: "test_frame (sample_frames (NOT 6) 2) 257 = False" "test_frame (sample_frames (NOT 6) 2) 258 = False"
    by code_simp+
  show "257 \<in> free_frames (ph_alloc sample_phys)" "258 \<in> free_frames (ph_alloc sample_phys)"
    unfolding free_frames_def sample_phys_def phys_state.simps mem_Collect_eq t by (simp_all add: sample_frames_def)
qed

theorem phys_init_free_frames_witness:
  "fa_inv (ph_alloc sample_phys) \<and> 257 \<in> boot_usable sample_raw sample_fb - boot_storage sample_phys"
  using phys_init_free_frames [OF sample_phys_init] sample_phys_frames(1) by blast

text \<open>
  C19: no frame the allocator can hand out after boot shares a byte with a region the loader
  reported as anything but usable memory, or with the first MiB.
\<close>

theorem boot_frames_safe:
  assumes "phys_init raw fb mem = Ok p" and f: "f \<in> free_frames (ph_alloc p)"
    and x: "unat x div 4096 = f"
    and r: "r \<in> set (take (MAX_REGIONS - 2) raw)" "\<not> is_usable_after_boot (region_kind r)"
      "region_kind r \<noteq> Unknown" "unat (mr_end r) \<le> 2 ^ 64 - 4096"
  shows "\<not> region_contains r x \<and> 0x100000 \<le> x"
proof -
  have "f \<in> boot_usable raw fb" using phys_init_free(3) [OF assms(1)] f by blast
  then obtain k where f52: "f < 2 ^ 52"
    and k: "kind_at (init_input raw fb) (frame_addr f) = Some k" "is_usable_after_boot k"
    by (auto simp: boot_usable_def)
  have same: "unat (frame_addr f) div 4096 = unat x div 4096" using unat_frame_addr [OF f52] x by simp
  have "r \<in> set (init_input raw fb)" using r(1) by (simp add: init_input_def)
  from kind_at_reserved [OF this r(2,3) _ r(4) same k(1)] k(2) have "\<not> region_contains r x" by blast
  moreover have "region_new 0 0x100000 Reserved \<in> set (init_input raw fb)" by (simp add: init_input_def)
  from kind_at_reserved [OF this _ _ _ _ same k(1)] k(2) have "\<not> region_contains (region_new 0 0x100000 Reserved) x"
    by (auto simp: is_usable_after_boot_def)
  ultimately show ?thesis by (simp add: region_contains_def not_less)
qed

theorem boot_frames_safe_witness:
  "\<not> region_contains (region_new 0x103800 0x103C00 BootInfo) 0x102FFF \<and> (0x100000 :: u64) \<le> 0x102FFF"
  by (rule boot_frames_safe [OF sample_phys_init sample_phys_frames(2)])
     (simp_all add: sample_raw_def MAX_REGIONS_def is_usable_after_boot_def)

end
