(* ===== verification/Paging.thy ===== *)
theory Paging
  imports Frame_Bitmap
begin

text \<open>
  \<^verbatim>\<open>arch/x86_64/src/paging.rs\<close>: four-level page tables. Tables live in page-aligned frames, so the
  memory of the tables is a function from the frame address and the index to the 64-bit entry;
  writing through \<^verbatim>\<open>entry_ptr\<close> is an update of one entry and zeroing a frame clears all of them.
  The frame allocator is a parameter, as in the code (\<^verbatim>\<open>&mut dyn FrameAllocator\<close>), with the contract
  of the locale \<open>frame_allocator\<close>.

  The lemmas describe tables by the path of indices that leads to them (\<open>table_at\<close>). The invariant
  \<open>pt_inv\<close> says that different paths lead to different tables and that no table is an available frame;
  from it follows that mapping, unmapping and changing flags affect the translation of one page only.
\<close>

section \<open>Entries\<close>

type_synonym page_flags = u64
type_synonym pt_mem = "phys_addr \<Rightarrow> nat \<Rightarrow> u64"

definition ENTRIES :: nat where "ENTRIES = 512"
definition PAGE_2M :: u64 where "PAGE_2M = 2 * 1024 * 1024"
definition PAGE_1G :: u64 where "PAGE_1G = 1024 * 1024 * 1024"
definition ADDR_MASK :: u64 where "ADDR_MASK = 0x000ffffffffff000"

definition PF_PRESENT :: page_flags where "PF_PRESENT = 0x1"
definition PF_WRITABLE :: page_flags where "PF_WRITABLE = 0x2"
definition PF_USER :: page_flags where "PF_USER = 0x4"
definition PF_WRITE_THROUGH :: page_flags where "PF_WRITE_THROUGH = 0x8"
definition PF_NO_CACHE :: page_flags where "PF_NO_CACHE = 0x10"
definition PF_HUGE :: page_flags where "PF_HUGE = 0x80"
definition PF_NO_EXECUTE :: page_flags where "PF_NO_EXECUTE = 0x8000000000000000"
definition PF_KERNEL_RW :: page_flags where "PF_KERNEL_RW = PF_PRESENT OR PF_WRITABLE OR PF_NO_EXECUTE"

definition flags_bits :: "page_flags \<Rightarrow> u64" where
  "flags_bits f = f AND NOT ADDR_MASK"

definition flags_from_bits :: "u64 \<Rightarrow> page_flags" where
  "flags_from_bits b = b AND NOT ADDR_MASK"

definition flags_contains :: "page_flags \<Rightarrow> page_flags \<Rightarrow> bool" where
  "flags_contains f other \<longleftrightarrow> f AND other = other"

definition flags_union :: "page_flags \<Rightarrow> page_flags \<Rightarrow> page_flags" where
  "flags_union f other = f OR other"

definition flags_without :: "page_flags \<Rightarrow> page_flags \<Rightarrow> page_flags" where
  "flags_without f other = f AND NOT other"

definition pte_empty :: u64 where "pte_empty = 0"

definition pte_new :: "phys_addr \<Rightarrow> page_flags \<Rightarrow> u64" where
  "pte_new a f = (a AND ADDR_MASK) OR flags_bits f"

definition pte_is_present :: "u64 \<Rightarrow> bool" where
  "pte_is_present e \<longleftrightarrow> e AND 1 \<noteq> 0"

definition pte_is_huge :: "u64 \<Rightarrow> bool" where
  "pte_is_huge e \<longleftrightarrow> e AND push_bit 7 1 \<noteq> 0"

definition pte_addr :: "u64 \<Rightarrow> phys_addr" where
  "pte_addr e = e AND ADDR_MASK"

definition pte_flags :: "u64 \<Rightarrow> page_flags" where
  "pte_flags e = flags_from_bits e"

datatype pt_error =
    AlreadyMapped virt_addr
  | NotMapped virt_addr
  | OutOfFrames
  | HugePageInWay virt_addr
  | UnalignedVirt virt_addr

record translation =
  tr_phys :: phys_addr
  tr_flags :: page_flags
  tr_page_size :: u64

section \<open>Operations of the mapper\<close>

definition table_zero :: "phys_addr \<Rightarrow> pt_mem \<Rightarrow> pt_mem" where
  "table_zero frame m = m(frame := (\<lambda>_. pte_empty))"

definition pt_write :: "phys_addr \<Rightarrow> nat \<Rightarrow> u64 \<Rightarrow> pt_mem \<Rightarrow> pt_mem" where
  "pt_write t i e m = m(t := (m t)(i := e))"

text \<open>The loop of \<^verbatim>\<open>walk_create\<close>; the list holds the levels still to descend.\<close>

fun walk_create_loop ::
  "('s \<Rightarrow> phys_addr option \<times> 's) \<Rightarrow> page_flags \<Rightarrow> virt_addr \<Rightarrow> nat list \<Rightarrow> phys_addr \<Rightarrow> pt_mem \<times> 's
   \<Rightarrow> (pt_error, phys_addr) result \<times> (pt_mem \<times> 's)" where
  "walk_create_loop al link virt [] table st = (Ok table, st)"
| "walk_create_loop al link virt (level # levels) table (m, s) =
     (let idx = table_index virt level; e = m table idx in
      if pte_is_present e then
        if pte_is_huge e then (Err (HugePageInWay virt), (m, s))
        else walk_create_loop al link virt levels (pte_addr e) (m, s)
      else (case al s of
              (None, s') \<Rightarrow> (Err OutOfFrames, (m, s'))
            | (Some frame, s') \<Rightarrow>
                walk_create_loop al link virt levels frame
                  (pt_write table idx (pte_new frame link) (table_zero frame m), s')))"

definition levels_above :: "nat \<Rightarrow> nat list" where
  "levels_above target = rev [Suc target..<5]"

definition walk_create ::
  "('s \<Rightarrow> phys_addr option \<times> 's) \<Rightarrow> phys_addr \<Rightarrow> virt_addr \<Rightarrow> nat \<Rightarrow> bool \<Rightarrow> pt_mem \<times> 's
   \<Rightarrow> (pt_error, phys_addr) result \<times> (pt_mem \<times> 's)" where
  "walk_create al root virt target user st =
     (let link = (if user then PF_PRESENT OR PF_WRITABLE OR PF_USER else PF_PRESENT OR PF_WRITABLE)
      in walk_create_loop al link virt (levels_above target) root st)"

fun walk_loop :: "pt_mem \<Rightarrow> virt_addr \<Rightarrow> nat list \<Rightarrow> phys_addr \<Rightarrow> (pt_error, phys_addr) result" where
  "walk_loop m virt [] table = Ok table"
| "walk_loop m virt (level # levels) table =
     (let e = m table (table_index virt level) in
      if \<not> pte_is_present e then Err (NotMapped virt)
      else if pte_is_huge e then Err (HugePageInWay virt)
      else walk_loop m virt levels (pte_addr e))"

definition pt_walk :: "pt_mem \<Rightarrow> phys_addr \<Rightarrow> virt_addr \<Rightarrow> nat \<Rightarrow> (pt_error, phys_addr) result" where
  "pt_walk m root virt target = walk_loop m virt (levels_above target) root"

definition map_4k ::
  "('s \<Rightarrow> phys_addr option \<times> 's) \<Rightarrow> phys_addr \<Rightarrow> virt_addr \<Rightarrow> phys_addr \<Rightarrow> page_flags \<Rightarrow> pt_mem \<times> 's
   \<Rightarrow> (pt_error, unit) result \<times> (pt_mem \<times> 's)" where
  "map_4k al root virt phys flags st =
     (if \<not> virt_is_aligned virt PAGE_SIZE \<or> \<not> phys_is_aligned phys PAGE_SIZE then (Err (UnalignedVirt virt), st)
      else (case walk_create al root virt 1 (flags_contains flags PF_USER) st of
              (Inl e, st') \<Rightarrow> (Err e, st')
            | (Inr table, (m, s)) \<Rightarrow>
                let idx = table_index virt 1 in
                if pte_is_present (m table idx) then (Err (AlreadyMapped virt), (m, s))
                else (Ok (), (pt_write table idx (pte_new phys (flags_union flags PF_PRESENT)) m, s))))"

definition map_2m ::
  "('s \<Rightarrow> phys_addr option \<times> 's) \<Rightarrow> phys_addr \<Rightarrow> virt_addr \<Rightarrow> phys_addr \<Rightarrow> page_flags \<Rightarrow> pt_mem \<times> 's
   \<Rightarrow> (pt_error, unit) result \<times> (pt_mem \<times> 's)" where
  "map_2m al root virt phys flags st =
     (if \<not> virt_is_aligned virt PAGE_2M \<or> \<not> phys_is_aligned phys PAGE_2M then (Err (UnalignedVirt virt), st)
      else (case walk_create al root virt 2 (flags_contains flags PF_USER) st of
              (Inl e, st') \<Rightarrow> (Err e, st')
            | (Inr table, (m, s)) \<Rightarrow>
                let idx = table_index virt 2 in
                if pte_is_present (m table idx) then (Err (AlreadyMapped virt), (m, s))
                else (Ok (), (pt_write table idx
                        (pte_new phys (flags_union (flags_union flags PF_PRESENT) PF_HUGE)) m, s))))"

text \<open>
  The offsets the loop of \<^verbatim>\<open>map_range_4k\<close> visits, as the list of page numbers; the offset itself
  cannot wrap around for lengths up to \<open>2 ^ 64 - 4096\<close>.
\<close>

fun map_range_loop ::
  "('s \<Rightarrow> phys_addr option \<times> 's) \<Rightarrow> phys_addr \<Rightarrow> virt_addr \<Rightarrow> phys_addr \<Rightarrow> page_flags \<Rightarrow> nat list \<Rightarrow> pt_mem \<times> 's
   \<Rightarrow> (pt_error, unit) result \<times> (pt_mem \<times> 's)" where
  "map_range_loop al root virt phys flags [] st = (Ok (), st)"
| "map_range_loop al root virt phys flags (n # ns) st =
     (let off = word_of_nat n * PAGE_SIZE in
      case map_4k al root (virt_add virt off) (phys_add phys off) flags st of
        (Inl e, st') \<Rightarrow> (Err e, st')
      | (Inr _, st') \<Rightarrow> map_range_loop al root virt phys flags ns st')"

definition map_range_4k ::
  "('s \<Rightarrow> phys_addr option \<times> 's) \<Rightarrow> phys_addr \<Rightarrow> virt_addr \<Rightarrow> phys_addr \<Rightarrow> u64 \<Rightarrow> page_flags \<Rightarrow> pt_mem \<times> 's
   \<Rightarrow> (pt_error, unit) result \<times> (pt_mem \<times> 's)" where
  "map_range_4k al root virt phys len flags st =
     map_range_loop al root virt phys flags [0..<div_ceil (unat len) 4096] st"

definition unmap_4k :: "phys_addr \<Rightarrow> virt_addr \<Rightarrow> pt_mem \<Rightarrow> (pt_error, phys_addr) result \<times> pt_mem" where
  "unmap_4k root virt m =
     (if \<not> virt_is_aligned virt PAGE_SIZE then (Err (UnalignedVirt virt), m)
      else (case pt_walk m root virt 1 of
              Inl e \<Rightarrow> (Err e, m)
            | Inr table \<Rightarrow>
                let idx = table_index virt 1; e = m table idx in
                if \<not> pte_is_present e then (Err (NotMapped virt), m)
                else (Ok (pte_addr e), pt_write table idx pte_empty m)))"

definition update_flags_4k :: "phys_addr \<Rightarrow> virt_addr \<Rightarrow> page_flags \<Rightarrow> pt_mem \<Rightarrow> (pt_error, unit) result \<times> pt_mem" where
  "update_flags_4k root virt flags m =
     (if \<not> virt_is_aligned virt PAGE_SIZE then (Err (UnalignedVirt virt), m)
      else (case pt_walk m root virt 1 of
              Inl e \<Rightarrow> (Err e, m)
            | Inr table \<Rightarrow>
                let idx = table_index virt 1; e = m table idx in
                if \<not> pte_is_present e then (Err (NotMapped virt), m)
                else (Ok (), pt_write table idx (pte_new (pte_addr e) (flags_union flags PF_PRESENT)) m)))"

text \<open>The loop of \<^verbatim>\<open>translate\<close>; the first argument is the level minus one.\<close>

fun translate_loop :: "nat \<Rightarrow> pt_mem \<Rightarrow> virt_addr \<Rightarrow> phys_addr \<Rightarrow> translation option" where
  "translate_loop 0 m virt table =
     (let e = m table (table_index virt 1) in
      if \<not> pte_is_present e then None
      else Some \<lparr>tr_phys = phys_add (pte_addr e) (page_offset virt), tr_flags = pte_flags e, tr_page_size = PAGE_SIZE\<rparr>)"
| "translate_loop (Suc l) m virt table =
     (let level = Suc (Suc l); e = m table (table_index virt level) in
      if \<not> pte_is_present e then None
      else if pte_is_huge e \<and> (level = 2 \<or> level = 3) then
        let sz = (if level = 2 then PAGE_2M else PAGE_1G);
            base = pte_addr e AND NOT (sz - 1)
        in Some \<lparr>tr_phys = base + (virt AND (sz - 1)), tr_flags = flags_without (pte_flags e) PF_HUGE, tr_page_size = sz\<rparr>
      else translate_loop l m virt (pte_addr e))"

definition translate :: "pt_mem \<Rightarrow> phys_addr \<Rightarrow> virt_addr \<Rightarrow> translation option" where
  "translate m root virt = translate_loop 3 m virt root"

section \<open>Entry facts\<close>

lemma ADDR_MASK_bit: "bit ADDR_MASK n \<longleftrightarrow> 12 \<le> n \<and> n < 52"
proof -
  have m: "ADDR_MASK = push_bit 12 (mask 40)" by (simp add: ADDR_MASK_def mask_eq_exp_minus_1 push_bit_eq_mult)
  show ?thesis unfolding m by (auto simp: bit_simps)
qed

lemma pte_is_present_bit: "pte_is_present e \<longleftrightarrow> bit e 0"
  by (simp add: pte_is_present_def bit_iff_and_push_bit_not_eq_0)

lemma pte_is_huge_bit: "pte_is_huge e \<longleftrightarrow> bit e 7"
  by (simp add: pte_is_huge_def bit_iff_and_push_bit_not_eq_0)

lemma pte_new_simps [simp]:
  "pte_addr (pte_new a f) = a AND ADDR_MASK"
  "pte_flags (pte_new a f) = flags_bits f"
  "pte_is_present (pte_new a f) \<longleftrightarrow> bit f 0"
  "pte_is_huge (pte_new a f) \<longleftrightarrow> bit f 7"
  by (auto simp: pte_addr_def pte_new_def flags_bits_def pte_flags_def flags_from_bits_def pte_is_present_bit
      pte_is_huge_bit bit_simps ADDR_MASK_bit intro: bit_eqI)

lemma pte_empty_absent [simp]: "\<not> pte_is_present pte_empty"
  by (simp add: pte_is_present_bit pte_empty_def)

lemma pte_zero_absent [simp]: "\<not> pte_is_present 0"
  by (simp add: pte_is_present_bit)

lemma pte_addr_mask [simp]: "pte_addr e AND ADDR_MASK = pte_addr e"
  by (simp add: pte_addr_def)

lemma flag_bits:
  "bit (flags_union f PF_PRESENT) 0" "bit (flags_union (flags_union f PF_PRESENT) PF_HUGE) 0"
  "bit (flags_union (flags_union f PF_PRESENT) PF_HUGE) 7"
  by (simp_all add: flags_union_def PF_PRESENT_def PF_HUGE_def bit_simps)

lemma link_bits:
  "bit (if user then PF_PRESENT OR PF_WRITABLE OR PF_USER else PF_PRESENT OR PF_WRITABLE) 0"
  "\<not> bit (if user then PF_PRESENT OR PF_WRITABLE OR PF_USER else PF_PRESENT OR PF_WRITABLE) 7"
  by (simp_all add: PF_PRESENT_def PF_WRITABLE_def PF_USER_def bit_simps)

section \<open>Paths\<close>

fun table_at :: "pt_mem \<Rightarrow> phys_addr \<Rightarrow> nat list \<Rightarrow> phys_addr option" where
  "table_at m t [] = Some t"
| "table_at m t (i # is) =
     (if pte_is_present (m t i) \<and> \<not> pte_is_huge (m t i) then table_at m (pte_addr (m t i)) is else None)"

text \<open>\<open>translate\<close> along a list of indices.\<close>

fun trp :: "virt_addr \<Rightarrow> pt_mem \<Rightarrow> phys_addr \<Rightarrow> nat list \<Rightarrow> translation option" where
  "trp v m t [] = None"
| "trp v m t [i] =
     (if \<not> pte_is_present (m t i) then None
      else Some \<lparr>tr_phys = phys_add (pte_addr (m t i)) (page_offset v), tr_flags = pte_flags (m t i), tr_page_size = PAGE_SIZE\<rparr>)"
| "trp v m t (i # j # is) =
     (let level = length is + 2; e = m t i in
      if \<not> pte_is_present e then None
      else if pte_is_huge e \<and> (level = 2 \<or> level = 3) then
        let sz = (if level = 2 then PAGE_2M else PAGE_1G);
            base = pte_addr e AND NOT (sz - 1)
        in Some \<lparr>tr_phys = base + (v AND (sz - 1)), tr_flags = flags_without (pte_flags e) PF_HUGE, tr_page_size = sz\<rparr>
      else trp v m (pte_addr e) (j # is))"

definition vpath :: "virt_addr \<Rightarrow> nat list" where
  "vpath v = map (table_index v) [4, 3, 2, 1]"

lemma length_vpath [simp]: "length (vpath v) = 4"
  by (simp add: vpath_def)

lemma vpath_bound: "i \<in> set (vpath v) \<Longrightarrow> i < 512"
  using table_index_less by (auto simp: vpath_def)

lemma translate_trp: "translate m root v = trp v m root (vpath v)"
proof -
  have l: "translate_loop l m v t = trp v m t (map (table_index v) (rev [1..<l + 2]))" for l t
    by (induction l arbitrary: t) (auto simp: Let_def)
  have "map (table_index v) (rev [1..<3 + 2]) = vpath v" by (simp add: vpath_def upt_rec eval_nat_numeral)
  then show ?thesis using l [of 3 root] by (simp only: translate_def)
qed

lemma table_at_append: "table_at m t (p @ q) = Option.bind (table_at m t p) (\<lambda>T. table_at m T q)"
  by (induction m t p rule: table_at.induct) auto

lemma table_at_cong:
  assumes "\<And>p i q T. is = p @ i # q \<Longrightarrow> table_at m t p = Some T \<Longrightarrow> m' T i = m T i"
  shows "table_at m' t is = table_at m t is"
  using assms
proof (induction m t "is" rule: table_at.induct)
  case (2 m t i "is")
  have e: "m' t i = m t i" using 2(2) [of "[]" i "is" t] by simp
  show ?case
  proof (cases "pte_is_present (m t i) \<and> \<not> pte_is_huge (m t i)")
    case True
    have "table_at m' (pte_addr (m t i)) is = table_at m (pte_addr (m t i)) is"
      by (rule 2(1) [OF True]) (use True 2(2) [of "i # _"] in simp)
    then show ?thesis using e by simp
  qed (use e in auto)
qed simp

lemma trp_append: "table_at m t p = Some T \<Longrightarrow> q \<noteq> [] \<Longrightarrow> trp v m t (p @ q) = trp v m T q"
proof (induction m t p rule: table_at.induct)
  case (2 m t i "is")
  then obtain j r where "is @ q = j # r" by (cases "is @ q") auto
  with 2 show ?case by (auto simp: Let_def split: if_splits)
qed simp

lemma trp_cong:
  assumes "\<And>p i q T. is = p @ i # q \<Longrightarrow> table_at m t p = Some T \<Longrightarrow> m' T i = m T i"
    and "length is \<le> 3 \<or> length is = 4 \<and> \<not> pte_is_huge (m t (hd is))"
  shows "trp v m' t is = trp v m t is"
  using assms
proof (induction v m t "is" rule: trp.induct)
  case (2 v m t i)
  then have "m' t i = m t i" using 2(1) [of "[]" i "[]" t] by simp
  then show ?case by simp
next
  case (3 v m t i j "is")
  have e: "m' t i = m t i" using 3(2) [of "[]" i "j # is" t] by simp
  show ?case
  proof (cases "pte_is_present (m t i) \<and> \<not> (pte_is_huge (m t i) \<and> (length is + 2 = 2 \<or> length is + 2 = 3))")
    case True
    moreover have "length is \<le> 1 \<or> \<not> pte_is_huge (m t i)" using 3(3) by auto
    ultimately have nh: "pte_is_present (m t i) \<and> \<not> pte_is_huge (m t i)" by linarith
    have "trp v m' (pte_addr (m t i)) (j # is) = trp v m (pte_addr (m t i)) (j # is)"
      by (rule 3(1) [OF refl refl]) (use True nh 3(2) [of "i # _"] 3(3) in auto)
    then show ?thesis using e nh by (simp add: Let_def)
  qed (use e in \<open>auto simp: Let_def\<close>)
qed simp

section \<open>Invariant of the tables\<close>

definition path_ok :: "nat list \<Rightarrow> bool" where
  "path_ok p \<longleftrightarrow> length p \<le> 3 \<and> (\<forall>i\<in>set p. i < 512)"

text \<open>
  No present entry of the root has the bit that marks a large page (the processor reserves it);
  different paths lead to different tables; no table is among the available frames \<open>A\<close>, and the
  available frames have addresses that fit into an entry.
\<close>

definition pt_inv :: "pt_mem \<Rightarrow> phys_addr \<Rightarrow> phys_addr set \<Rightarrow> bool" where
  [nexo_inv]: "pt_inv m root A \<longleftrightarrow>
     (\<forall>i<512. pte_is_present (m root i) \<longrightarrow> \<not> pte_is_huge (m root i)) \<and>
     (\<forall>p q T. path_ok p \<and> path_ok q \<and> table_at m root p = Some T \<and> table_at m root q = Some T \<longrightarrow> p = q) \<and>
     (\<forall>p T. path_ok p \<and> table_at m root p = Some T \<longrightarrow> T \<notin> A) \<and>
     (\<forall>a\<in>A. a AND ADDR_MASK = a)"

lemma path_ok_simps: "path_ok (p @ q) \<Longrightarrow> path_ok p" "path_ok []"
  by (auto simp: path_ok_def)

lemma pt_invD:
  assumes "pt_inv m root A" "path_ok p" "table_at m root p = Some T"
  shows "T \<notin> A" "path_ok q \<Longrightarrow> table_at m root q = Some T \<Longrightarrow> q = p"
  using assms by (auto simp: pt_inv_def)

text \<open>Translations look at the entries along the path only; the root has no large pages.\<close>

lemma translate_cong:
  assumes inv: "pt_inv m root A"
    and same: "\<And>p i q T. vpath v = p @ i # q \<Longrightarrow> table_at m root p = Some T \<Longrightarrow> m' T i = m T i"
  shows "translate m' root v = translate m root v"
proof -
  have h: "hd (vpath v) < 512" using table_index_less by (simp add: vpath_def)
  have "trp v m' root (vpath v) = trp v m root (vpath v)"
  proof (cases "pte_is_present (m root (hd (vpath v)))")
    case True
    then have "\<not> pte_is_huge (m root (hd (vpath v)))" using inv h by (simp add: pt_inv_def)
    then show ?thesis by (intro trp_cong same) auto
  next
    case False
    obtain i j q where v: "vpath v = i # j # q" by (simp add: vpath_def)
    have "m' root i = m root i" using same [of "[]" i "j # q" root] v by simp
    then show ?thesis using False v by (simp add: Let_def)
  qed
  then show ?thesis by (simp add: translate_trp)
qed

text \<open>Writing one entry: paths that do not pass through it are unaffected.\<close>

lemma table_at_write:
  assumes inv: "pt_inv m root A" and P: "path_ok P" "table_at m root P = Some T"
    and Q: "length Q \<le> 3" "\<forall>i\<in>set Q. i < 512" "\<And>R. Q \<noteq> P @ i # R"
  shows "table_at (pt_write T i e m) root Q = table_at m root Q"
proof (rule table_at_cong)
  fix p j q T' assume q: "Q = p @ j # q" and t: "table_at m root p = Some T'"
  have "path_ok p" using Q(1,2) q by (auto simp: path_ok_def)
  then have "T' = T \<Longrightarrow> p = P" using pt_invD(2) [OF inv P] t by simp
  then show "pt_write T i e m T' j = m T' j" using Q(3) q by (auto simp: pt_write_def)
qed

lemma translate_write_other:
  assumes inv: "pt_inv m root A" and P: "path_ok P" "table_at m root P = Some T"
    and v: "\<And>R. vpath v \<noteq> P @ i # R"
  shows "translate (pt_write T i e m) root v = translate m root v"
proof (rule translate_cong [OF inv])
  fix p j q T' assume q: "vpath v = p @ j # q" and t: "table_at m root p = Some T'"
  have "length p \<le> 3" using arg_cong [OF q, of length] by simp
  moreover have "\<forall>i\<in>set p. i < 512" using vpath_bound [of _ v] q by auto
  ultimately have "path_ok p" by (simp add: path_ok_def)
  then have "T' = T \<Longrightarrow> p = P" using pt_invD(2) [OF inv P] t by simp
  then show "pt_write T i e m T' j = m T' j" using v q by (auto simp: pt_write_def)
qed

text \<open>An entry that is a leaf before and after the write keeps the invariant.\<close>

definition leaf_pos :: "pt_mem \<Rightarrow> phys_addr \<Rightarrow> nat list \<Rightarrow> nat \<Rightarrow> u64 \<Rightarrow> bool" where
  "leaf_pos m T P i e \<longleftrightarrow> length P = 3 \<or>
     (length P = 2 \<and> (pte_is_present (m T i) \<longrightarrow> pte_is_huge (m T i)) \<and> (pte_is_present e \<longrightarrow> pte_is_huge e))"

lemma leaf_write_tables:
  assumes inv: "pt_inv m root A" and P: "path_ok P" "table_at m root P = Some T"
    and leaf: "leaf_pos m T P i e" and i: "i < 512" and Q: "path_ok Q"
  shows "table_at (pt_write T i e m) root Q = table_at m root Q"
proof (cases "\<exists>R. Q = P @ i # R")
  case True
  then obtain R where R: "Q = P @ i # R" by blast
  then have "length P = 2" using Q leaf by (auto simp: path_ok_def leaf_pos_def)
  then have l: "pte_is_present (m T i) \<longrightarrow> pte_is_huge (m T i)" "pte_is_present e \<longrightarrow> pte_is_huge e"
    using leaf by (auto simp: leaf_pos_def)
  have "table_at (pt_write T i e m) root P = table_at m root P"
    by (rule table_at_write [OF inv P]) (use P in \<open>auto simp: path_ok_def\<close>)
  then show ?thesis using P(2) l by (simp add: R table_at_append) (auto simp: pt_write_def)
next
  case False
  then show ?thesis using table_at_write [OF inv P, of Q i e] Q by (auto simp: path_ok_def)
qed

lemma leaf_write_inv:
  assumes inv: "pt_inv m root A" and P: "path_ok P" "table_at m root P = Some T"
    and leaf: "leaf_pos m T P i e" and i: "i < 512"
  shows "pt_inv (pt_write T i e m) root A"
proof -
  have "T \<noteq> root"
    using pt_invD(2) [OF inv P, of "[]"] leaf by (auto simp: path_ok_simps leaf_pos_def)
  then have "pt_write T i e m root = m root" by (simp add: pt_write_def)
  then show ?thesis using inv leaf_write_tables [OF inv P leaf i] by (simp add: pt_inv_def cong: conj_cong)
qed

text \<open>What a leaf entry means for the pages below it.\<close>

lemma translate_leaf_4k:
  assumes "table_at m root P = Some T" "vpath v = P @ [i]"
  shows "translate m root v =
    (if \<not> pte_is_present (m T i) then None
     else Some \<lparr>tr_phys = phys_add (pte_addr (m T i)) (page_offset v), tr_flags = pte_flags (m T i), tr_page_size = PAGE_SIZE\<rparr>)"
  using trp_append [OF assms(1), of "[i]" v] assms(2) by (simp add: translate_trp)

lemma translate_leaf_2m:
  assumes "table_at m root P = Some T" "vpath v = P @ [i, j]" "pte_is_present (m T i)" "pte_is_huge (m T i)"
  shows "translate m root v =
    Some \<lparr>tr_phys = (pte_addr (m T i) AND NOT (PAGE_2M - 1)) + (v AND (PAGE_2M - 1)),
          tr_flags = flags_without (pte_flags (m T i)) PF_HUGE, tr_page_size = PAGE_2M\<rparr>"
  using trp_append [OF assms(1), of "[i, j]" v] assms(2-4) by (simp add: translate_trp Let_def)

text \<open>Adding an empty table changes no translation.\<close>

lemma link_table:
  assumes inv: "pt_inv m root A" and P: "length P \<le> 2" "\<forall>i\<in>set P. i < 512" "table_at m root P = Some T"
    and i: "i < 512" "\<not> pte_is_present (m T i)" and f: "frame \<in> A" and link: "bit link 0" "\<not> bit link 7"
  defines "m' \<equiv> pt_write T i (pte_new frame link) (table_zero frame m)"
  shows "table_at m' root (P @ [i]) = Some frame"
    and "\<And>v. translate m' root v = translate m root v"
    and "pt_inv m' root (A - {frame})"
    and "\<And>p T'. path_ok p \<Longrightarrow> table_at m' root p = Some T' \<longleftrightarrow> table_at m root p = Some T' \<or> p = P @ [i] \<and> T' = frame"
proof -
  have P': "path_ok P" using P by (simp add: path_ok_def)
  have ff: "frame AND ADDR_MASK = frame" using inv f by (simp add: pt_inv_def)
  have nf: "T' \<noteq> frame" if "path_ok p" "table_at m root p = Some T'" for p T'
    using pt_invD(1) [OF inv that] f by blast
  have same: "m' T' j = m T' j" if "path_ok p" "table_at m root p = Some T'" "p = P \<Longrightarrow> j \<noteq> i" for p T' j
    using nf [OF that(1,2)] nf [OF P' P(3)] pt_invD(2) [OF inv P' P(3) that(1)] that(2,3)
    by (auto simp: m'_def pt_write_def table_zero_def)
  have keep: "table_at m' root Q = table_at m root Q" if "path_ok Q" "\<And>R. Q \<noteq> P @ i # R" for Q
    by (rule table_at_cong, rule same) (use that in \<open>auto simp: path_ok_def\<close>)
  have tP: "table_at m' root P = Some T" using keep [OF P'] P(3) by simp
  have entry: "m' T i = pte_new frame link" "m' frame j = 0" for j
    using nf [OF P' P(3)] by (auto simp: m'_def pt_write_def table_zero_def pte_empty_def)
  show new: "table_at m' root (P @ [i]) = Some frame"
    by (simp add: table_at_append tP entry link ff)
  have below: "table_at m' root (P @ i # R) = (if R = [] then Some frame else None)" for R
    by (cases R) (simp_all add: table_at_append tP entry link ff)
  show "translate m' root v = translate m root v" for v
  proof (cases "\<exists>R. vpath v = P @ i # R")
    case True
    then obtain R where R: "vpath v = P @ i # R" by blast
    have "R \<noteq> []" using arg_cong [OF R, of length] P(1) by auto
    then obtain j R' where R: "vpath v = P @ i # j # R'" using R by (metis list.exhaust)
    have "trp v m' root (vpath v) = None"
      using trp_append [OF new, of "j # R'" v] by (cases R') (simp_all add: R entry)
    moreover have "trp v m root (vpath v) = None"
      using trp_append [OF P(3), of "i # j # R'" v] i(2) by (simp add: R)
    ultimately show ?thesis by (simp add: translate_trp)
  next
    case False
    show ?thesis
    proof (rule translate_cong [OF inv], rule same)
      fix p j q T' assume q: "vpath v = p @ j # q"
      have "length p \<le> 3" using arg_cong [OF q, of length] by simp
      then show "path_ok p" using vpath_bound [of _ v] q by (auto simp: path_ok_def)
      show "j \<noteq> i" if "p = P" using False q that by blast
    qed
  qed
  have tables: "table_at m' root p = Some T' \<longleftrightarrow> table_at m root p = Some T' \<or> p = P @ [i] \<and> T' = frame" if "path_ok p" for p T'
  proof (cases "\<exists>R. p = P @ i # R")
    case True
    then obtain R where R: "p = P @ i # R" by blast
    have "table_at m root p = None" using P(3) i(2) by (simp add: R table_at_append)
    then show ?thesis using below [of R] R by auto
  qed (use keep [OF that] in auto)
  have root: "pte_is_present (m' root j) \<longrightarrow> \<not> pte_is_huge (m' root j)" if "j < 512" for j
  proof (cases "P = [] \<and> j = i")
    case True
    then show ?thesis using P(3) entry(1) link by auto
  next
    case False
    then have "m' root j = m root j" using same [of "[]" root j] by (auto simp: path_ok_simps)
    then show ?thesis using inv that by (simp add: pt_inv_def)
  qed
  have "p = q" if "path_ok p" "path_ok q" "table_at m' root p = Some T'" "table_at m' root q = Some T'" for p q T'
    using that tables [OF that(1)] tables [OF that(2)] nf pt_invD(2) [OF inv] by metis
  moreover have "T' \<notin> A - {frame}" if "path_ok p" "table_at m' root p = Some T'" for p T'
    using that tables [OF that(1)] pt_invD(1) [OF inv] by blast
  moreover have "\<forall>a\<in>A - {frame}. a AND ADDR_MASK = a" using inv by (simp add: pt_inv_def)
  ultimately show "pt_inv m' root (A - {frame})" using root unfolding pt_inv_def by blast
  show "table_at m' root p = Some T' \<longleftrightarrow> table_at m root p = Some T' \<or> p = P @ [i] \<and> T' = frame" if "path_ok p" for p T'
    by (rule tables [OF that])
qed

section \<open>Mapping with any frame allocator\<close>

lemma levels_above_simps [simp]: "levels_above (Suc 0) = [4, 3, 2]" "levels_above 2 = [4, 3]"
  by (simp_all add: levels_above_def upt_rec eval_nat_numeral)

lemma vpath_split:
  "vpath v = map (table_index v) (levels_above 1) @ [table_index v 1]"
  "vpath v = map (table_index v) (levels_above 2) @ [table_index v 2, table_index v 1]"
  by (simp_all add: vpath_def)

lemma levels_path_ok: "path_ok (map (table_index v) (levels_above 1))" "path_ok (map (table_index v) (levels_above 2))"
  using table_index_less by (simp_all add: path_ok_def)

lemma walk_loop_table_at:
  "walk_loop m v ls t = Ok T \<longleftrightarrow> table_at m t (map (table_index v) ls) = Some T"
  by (induction ls arbitrary: t) (auto simp: Let_def)

context frame_allocator
begin

text \<open>One step of the walk and then the rest: nothing but the available frames and empty tables changes.\<close>

lemma walk_create_loop_inv:
  assumes "walk_create_loop alloc_f link virt ls t (m, s) = (r, (m', s'))"
    and "fal_inv s" "pt_inv m root (avail s)" "table_at m root P = Some t"
    and "length P + length ls \<le> 3" "\<forall>i\<in>set P. i < 512" "bit link 0" "\<not> bit link 7"
  shows "fal_inv s' \<and> pt_inv m' root (avail s') \<and> avail s' \<subseteq> avail s \<and> (\<forall>v. translate m' root v = translate m root v) \<and>
    (\<forall>T. r = Ok T \<longrightarrow> table_at m' root (P @ map (table_index virt) ls) = Some T) \<and>
    (r = Err OutOfFrames \<longrightarrow> avail s' = {}) \<and> (\<forall>e. r = Err e \<longrightarrow> e = OutOfFrames \<or> e = HugePageInWay virt)"
  using assms
proof (induction ls arbitrary: t m s P)
  case (Cons level ls)
  let ?i = "table_index virt level"
  show ?case
  proof (cases "pte_is_present (m t ?i)")
    case True
    show ?thesis
    proof (cases "pte_is_huge (m t ?i)")
      case True
      then show ?thesis using Cons.prems \<open>pte_is_present (m t ?i)\<close> by (auto simp: Let_def)
    next
      case False
      have "table_at m root (P @ [?i]) = Some (pte_addr (m t ?i))"
        using Cons.prems(4) True False by (simp add: table_at_append)
      then show ?thesis
        using Cons.IH [of "pte_addr (m t ?i)" m s "P @ [?i]"] Cons.prems True False table_index_less
        by (simp add: Let_def)
    qed
  next
    case False
    show ?thesis
    proof (cases "alloc_f s")
      case (Pair f s1)
      show ?thesis
      proof (cases f)
        case None
        then show ?thesis using Cons.prems False Pair alloc_None [of s s1] by (auto simp: Let_def pt_inv_def)
      next
        case (Some frame)
        let ?m = "pt_write t ?i (pte_new frame link) (table_zero frame m)"
        have a: "fal_inv s1" "frame \<in> avail s" "avail s1 = avail s - {frame}"
          using alloc_Some [of s frame s1] Cons.prems(2) Pair Some by auto
        have P: "length P \<le> 2" using Cons.prems(5) by simp
        note l = link_table [OF Cons.prems(3) P Cons.prems(6,4) table_index_less False a(2) Cons.prems(7,8)]
        have "walk_create_loop alloc_f link virt ls frame (?m, s1) = (r, (m', s'))"
          using Cons.prems(1) False Pair Some by (simp add: Let_def)
        from Cons.IH [OF this a(1) _ l(1)] show ?thesis
          using l(2,3) a(3) Cons.prems(5-8) table_index_less by auto
      qed
    qed
  qed
qed auto

lemma walk_create_inv:
  assumes "walk_create alloc_f root virt target user (m, s) = (r, (m', s'))"
    and "fal_inv s" "pt_inv m root (avail s)" "target = 1 \<or> target = 2"
  shows "fal_inv s' \<and> pt_inv m' root (avail s') \<and> avail s' \<subseteq> avail s \<and> (\<forall>v. translate m' root v = translate m root v) \<and>
    (\<forall>T. r = Ok T \<longrightarrow> table_at m' root (map (table_index virt) (levels_above target)) = Some T) \<and>
    (r = Err OutOfFrames \<longrightarrow> avail s' = {}) \<and> (\<forall>e. r = Err e \<longrightarrow> e = OutOfFrames \<or> e = HugePageInWay virt)"
proof -
  have "length (levels_above target) \<le> 3" using assms(4) by auto
  then show ?thesis
    using walk_create_loop_inv [OF assms(1) [unfolded walk_create_def Let_def] assms(2,3), of "[]"] link_bits by simp
qed

end

section \<open>Pages\<close>

text \<open>The number of the 4 KiB page an address lies in, within the 48 bits the tables translate.\<close>

definition vpn :: "virt_addr \<Rightarrow> nat" where
  "vpn v = unat v div 4096 mod 2 ^ 36"

lemma mod_mult_eq_iff:
  assumes "0 < (b::nat)"
  shows "x mod (b * c) = y mod (b * c) \<longleftrightarrow> x mod b = y mod b \<and> x div b mod c = y div b mod c"
proof
  assume a: "x mod (b * c) = y mod (b * c)"
  have "x mod b = x mod (b * c) mod b" "y mod b = y mod (b * c) mod b" by (simp_all add: mod_mult2_eq)
  then have 1: "x mod b = y mod b" using a by simp
  have "b * (x div b mod c) + x mod b = b * (y div b mod c) + y mod b" using a by (simp add: mod_mult2_eq)
  then show "x mod b = y mod b \<and> x div b mod c = y div b mod c" using 1 assms by simp
qed (simp add: mod_mult2_eq)

lemma vpath_eq_iff: "vpath v = vpath w \<longleftrightarrow> vpn v = vpn w"
proof -
  have d: "unat u div 2 ^ (12 + 9 * k) = unat u div 4096 div 512 ^ k" for u :: virt_addr and k
    by (simp add: div_mult2_eq [symmetric] power_add power_mult)
  have idx: "table_index u 1 = unat u div 4096 mod 512" "table_index u 2 = unat u div 4096 div 512 mod 512"
    "table_index u 3 = unat u div 4096 div 512 div 512 mod 512"
    "table_index u 4 = unat u div 4096 div 512 div 512 div 512 mod 512" for u
    using d [of u 0] d [of u 1] d [of u 2] d [of u 3]
    by (simp_all add: table_index_unat div_mult2_eq [symmetric])
  have "(2::nat) ^ 36 = 512 * (512 * (512 * 512))" by simp
  then show ?thesis
    unfolding vpn_def vpath_def by (simp only: mod_mult_eq_iff list.map idx) (auto simp: mod_mult_eq_iff idx)
qed

lemma vpath_leaf_iff:
  "vpath v = map (table_index w) (levels_above 1) @ table_index w 1 # R \<longleftrightarrow> R = [] \<and> vpn v = vpn w"
proof -
  have "length (vpath v) = 4" "length (map (table_index w) (levels_above 1) @ table_index w 1 # R) = 4 + length R" by simp_all
  then have "vpath v = map (table_index w) (levels_above 1) @ table_index w 1 # R \<Longrightarrow> R = []" by fastforce
  then show ?thesis using vpath_eq_iff [of v w] vpath_split(1) [of w] by auto
qed

text \<open>Setting the entry of one page to \<open>e\<close>.\<close>

lemma set_leaf_4k:
  fixes e :: u64
  assumes inv: "pt_inv m root A" and t: "table_at m root (map (table_index virt) (levels_above 1)) = Some T"
  defines "m' \<equiv> pt_write T (table_index virt 1) e m"
  shows "pt_inv m' root A"
    and "vpn v \<noteq> vpn virt \<Longrightarrow> translate m' root v = translate m root v"
    and "vpn v = vpn virt \<Longrightarrow> translate m' root v =
      (if \<not> pte_is_present e then None
       else Some \<lparr>tr_phys = phys_add (pte_addr e) (page_offset v), tr_flags = pte_flags e, tr_page_size = PAGE_SIZE\<rparr>)"
    and "vpn v = vpn virt \<Longrightarrow> translate m root v =
      (if \<not> pte_is_present (m T (table_index virt 1)) then None
       else Some \<lparr>tr_phys = phys_add (pte_addr (m T (table_index virt 1))) (page_offset v),
                  tr_flags = pte_flags (m T (table_index virt 1)), tr_page_size = PAGE_SIZE\<rparr>)"
proof -
  let ?P = "map (table_index virt) (levels_above 1)"
  have leaf: "leaf_pos m T ?P (table_index virt 1) e" by (simp add: leaf_pos_def)
  note w = inv levels_path_ok(1) t
  show "pt_inv m' root A" unfolding m'_def by (rule leaf_write_inv [OF w leaf table_index_less])
  show "translate m' root v = translate m root v" if "vpn v \<noteq> vpn virt"
    unfolding m'_def by (rule translate_write_other [OF w]) (use that vpath_leaf_iff in blast)
  have t': "table_at m' root ?P = Some T"
    unfolding m'_def using leaf_write_tables [OF w leaf table_index_less levels_path_ok(1)] t by simp
  have p: "vpath v = ?P @ [table_index virt 1]" if "vpn v = vpn virt" using that vpath_leaf_iff by blast
  show "vpn v = vpn virt \<Longrightarrow> translate m' root v =
      (if \<not> pte_is_present e then None
       else Some \<lparr>tr_phys = phys_add (pte_addr e) (page_offset v), tr_flags = pte_flags e, tr_page_size = PAGE_SIZE\<rparr>)"
    using translate_leaf_4k [OF t' p] by (simp add: m'_def pt_write_def)
  show "vpn v = vpn virt \<Longrightarrow> translate m root v =
      (if \<not> pte_is_present (m T (table_index virt 1)) then None
       else Some \<lparr>tr_phys = phys_add (pte_addr (m T (table_index virt 1))) (page_offset v),
                  tr_flags = pte_flags (m T (table_index virt 1)), tr_page_size = PAGE_SIZE\<rparr>)"
    using translate_leaf_4k [OF t p] by simp
qed

text \<open>What a page translates to after it was mapped.\<close>

definition mapped_as :: "phys_addr \<Rightarrow> page_flags \<Rightarrow> virt_addr \<Rightarrow> translation" where
  "mapped_as phys flags v =
     \<lparr>tr_phys = phys_add (phys AND ADDR_MASK) (page_offset v), tr_flags = flags_bits (flags_union flags PF_PRESENT),
      tr_page_size = PAGE_SIZE\<rparr>"

context frame_allocator
begin

lemma map_4k_inv:
  assumes r: "map_4k alloc_f root virt phys flags (m, s) = (r, (m', s'))"
    and inv: "fal_inv s" "pt_inv m root (avail s)"
  shows "fal_inv s' \<and> pt_inv m' root (avail s') \<and> avail s' \<subseteq> avail s \<and>
    (\<forall>v. r \<noteq> Ok () \<or> vpn v \<noteq> vpn virt \<longrightarrow> translate m' root v = translate m root v) \<and>
    (r = Ok () \<longrightarrow> (\<forall>v. vpn v = vpn virt \<longrightarrow>
       translate m root v = None \<and> translate m' root v = Some (mapped_as phys flags v))) \<and>
    (r = Err (AlreadyMapped virt) \<longrightarrow> translate m root virt \<noteq> None) \<and> (r = Err OutOfFrames \<longrightarrow> avail s' = {})"
proof (cases "\<not> virt_is_aligned virt PAGE_SIZE \<or> \<not> phys_is_aligned phys PAGE_SIZE")
  case True
  then have "r = Err (UnalignedVirt virt)" "m' = m" "s' = s" using r by (auto simp: map_4k_def)
  then show ?thesis using inv by simp
next
  case False
  obtain wr m1 s1 where w: "walk_create alloc_f root virt 1 (flags_contains flags PF_USER) (m, s) = (wr, (m1, s1))"
    by (metis surj_pair)
  have W: "fal_inv s1" "pt_inv m1 root (avail s1)" "avail s1 \<subseteq> avail s" "\<And>v. translate m1 root v = translate m root v"
    "\<And>T. wr = Ok T \<Longrightarrow> table_at m1 root (map (table_index virt) (levels_above 1)) = Some T"
    "wr = Err OutOfFrames \<Longrightarrow> avail s1 = {}" "\<And>e. wr = Err e \<Longrightarrow> e = OutOfFrames \<or> e = HugePageInWay virt"
    using walk_create_inv [OF w inv] by auto
  show ?thesis
  proof (cases wr)
    case (Inl e)
    then have "r = Err e" "m' = m1" "s' = s1" using r False w by (simp_all add: map_4k_def)
    then show ?thesis using W Inl by auto
  next
    case (Inr T)
    note L = set_leaf_4k [OF W(2) W(5) [OF Inr]]
    show ?thesis
    proof (cases "pte_is_present (m1 T (table_index virt 1))")
      case True
      then have "r = Err (AlreadyMapped virt)" "m' = m1" "s' = s1" using r False w Inr by (simp_all add: map_4k_def)
      then show ?thesis using W(1-4) L(4) [of virt] True by auto
    next
      case absent: False
      let ?e = "pte_new phys (flags_union flags PF_PRESENT)"
      have r': "r = Ok ()" "m' = pt_write T (table_index virt 1) ?e m1" "s' = s1"
        using r False w Inr absent by (simp_all add: map_4k_def Let_def)
      have "translate m root v = None \<and> translate m' root v = Some (mapped_as phys flags v)" if "vpn v = vpn virt" for v
        using L(4) [OF that] L(3) [OF that, of ?e] absent flag_bits(1) W(4) [of v] by (simp add: r' mapped_as_def)
      then show ?thesis using W(1-4) L(1,2) by (simp add: r')
    qed
  qed
qed

lemma map_range_loop_inv:
  assumes "map_range_loop alloc_f root virt phys flags ns (m, s) = (r, (m', s'))"
    and "fal_inv s" "pt_inv m root (avail s)"
  defines "page \<equiv> \<lambda>n. virt_add virt (word_of_nat n * PAGE_SIZE)"
  shows "fal_inv s' \<and> pt_inv m' root (avail s') \<and> (\<forall>v. translate m root v \<noteq> None \<longrightarrow> translate m' root v = translate m root v) \<and>
    (\<forall>v. vpn v \<notin> (vpn \<circ> page) ` set ns \<longrightarrow> translate m' root v = translate m root v) \<and>
    (r = Ok () \<longrightarrow> (\<forall>n\<in>set ns. \<forall>v. vpn v = vpn (page n) \<longrightarrow>
       translate m' root v = Some (mapped_as (phys_add phys (word_of_nat n * PAGE_SIZE)) flags v)))"
  using assms(1-3)
proof (induction ns arbitrary: m s)
  case (Cons n ns)
  obtain r1 m1 s1 where 1: "map_4k alloc_f root (page n) (phys_add phys (word_of_nat n * PAGE_SIZE)) flags (m, s) = (r1, (m1, s1))"
    by (metis surj_pair)
  note M = map_4k_inv [OF 1 Cons.prems(2,3)]
  have mono: "translate m1 root v = translate m root v" if "translate m root v \<noteq> None" for v
    using M that by (cases "r1 = Ok () \<and> vpn v = vpn (page n)") auto
  show ?case
  proof (cases r1)
    case (Inl e)
    then have "r = Err e" "m' = m1" "s' = s1" using Cons.prems(1) 1 by (simp_all add: Let_def page_def)
    then show ?thesis using M Inl by auto
  next
    case (Inr u)
    then have l: "map_range_loop alloc_f root virt phys flags ns (m1, s1) = (r, (m', s'))"
      using Cons.prems(1) 1 by (simp add: Let_def page_def)
    have "fal_inv s1" "pt_inv m1 root (avail s1)" using M by simp_all
    note IH = Cons.IH [OF l this]
    have new: "translate m1 root v = Some (mapped_as (phys_add phys (word_of_nat n * PAGE_SIZE)) flags v)"
      if "vpn v = vpn (page n)" for v
      using M Inr that by simp
    then have "translate m' root v = Some (mapped_as (phys_add phys (word_of_nat n * PAGE_SIZE)) flags v)"
      if "vpn v = vpn (page n)" for v
      using IH that by (metis option.distinct(1))
    then show ?thesis using M IH mono Inr by auto
  qed
qed simp

end

text \<open>A 4 KiB translation comes from a table of the last level.\<close>

lemma translate_4k_table:
  assumes "translate m root v = Some t" "tr_page_size t = PAGE_SIZE" "\<forall>i<512. pte_is_present (m root i) \<longrightarrow> \<not> pte_is_huge (m root i)"
  shows "\<exists>T. table_at m root (map (table_index v) (levels_above 1)) = Some T"
proof -
  have ne: "PAGE_2M \<noteq> PAGE_SIZE" "PAGE_1G \<noteq> PAGE_SIZE" by (simp_all add: PAGE_2M_def PAGE_1G_def PAGE_SIZE_val)
  have "table_index v 4 < 512" by (rule table_index_less)
  then show ?thesis
    using assms ne by (auto simp: translate_trp vpath_def Let_def split: if_splits)
qed

lemma pt_walk_Ok: "pt_walk m root v n = Ok T \<longleftrightarrow> table_at m root (map (table_index v) (levels_above n)) = Some T"
  by (simp only: pt_walk_def walk_loop_table_at)

lemma unmap_4k_inv:
  assumes r: "unmap_4k root virt m = (r, m')" and inv: "pt_inv m root A"
  shows "pt_inv m' root A \<and>
    (\<forall>v. (\<exists>e. r = Err e) \<or> vpn v \<noteq> vpn virt \<longrightarrow> translate m' root v = translate m root v) \<and>
    (\<forall>p. r = Ok p \<longrightarrow> (\<forall>v. vpn v = vpn virt \<longrightarrow> translate m' root v = None \<and>
       (\<exists>fl. translate m root v = Some \<lparr>tr_phys = phys_add p (page_offset v), tr_flags = fl, tr_page_size = PAGE_SIZE\<rparr>)))"
proof (cases "virt_is_aligned virt PAGE_SIZE")
  case True
  show ?thesis
  proof (cases "pt_walk m root virt 1")
    case (Inr T)
    then have t: "table_at m root (map (table_index virt) (levels_above 1)) = Some T" by (simp only: pt_walk_Ok)
    note L = set_leaf_4k [OF inv t]
    let ?e = "m T (table_index virt 1)"
    show ?thesis
    proof (cases "pte_is_present ?e")
      case p: True
      then have r': "r = Ok (pte_addr ?e)" "m' = pt_write T (table_index virt 1) pte_empty m"
        using r True Inr by (simp_all add: unmap_4k_def Let_def)
      have "translate m' root v = None \<and>
          translate m root v = Some \<lparr>tr_phys = phys_add (pte_addr ?e) (page_offset v), tr_flags = pte_flags ?e, tr_page_size = PAGE_SIZE\<rparr>"
        if "vpn v = vpn virt" for v
        using L(3) [OF that, of pte_empty] L(4) [OF that] p by (simp add: r')
      then show ?thesis using L(1,2) by (auto simp: r')
    qed (use r True Inr inv in \<open>auto simp: unmap_4k_def Let_def\<close>)
  qed (use r True inv in \<open>auto simp: unmap_4k_def\<close>)
qed (use r inv in \<open>auto simp: unmap_4k_def\<close>)

lemma unmap_4k_succeeds:
  assumes "pt_inv m root A" "virt_is_aligned virt PAGE_SIZE" "translate m root virt = Some t" "tr_page_size t = PAGE_SIZE"
  shows "\<exists>p m'. unmap_4k root virt m = (Ok p, m')"
proof -
  obtain T where T: "table_at m root (map (table_index virt) (levels_above 1)) = Some T"
    using translate_4k_table [OF assms(3,4)] assms(1) by (auto simp: pt_inv_def)
  then have "pt_walk m root virt 1 = Ok T" by (simp only: pt_walk_Ok)
  moreover have "pte_is_present (m T (table_index virt 1))"
    using set_leaf_4k(4) [OF assms(1) T, of virt] assms(3) by (simp split: if_splits)
  ultimately show ?thesis using assms(2) by (simp add: unmap_4k_def Let_def)
qed

lemma update_flags_4k_inv:
  assumes r: "update_flags_4k root virt flags m = (r, m')" and inv: "pt_inv m root A"
  shows "pt_inv m' root A \<and>
    (\<forall>v. r \<noteq> Ok () \<or> vpn v \<noteq> vpn virt \<longrightarrow> translate m' root v = translate m root v) \<and>
    (r = Ok () \<longrightarrow> (\<forall>v. vpn v = vpn virt \<longrightarrow> (\<exists>t. translate m root v = Some t \<and>
       translate m' root v = Some (t\<lparr>tr_flags := flags_bits (flags_union flags PF_PRESENT)\<rparr>))))"
proof (cases "virt_is_aligned virt PAGE_SIZE")
  case True
  show ?thesis
  proof (cases "pt_walk m root virt 1")
    case (Inr T)
    then have t: "table_at m root (map (table_index virt) (levels_above 1)) = Some T" by (simp only: pt_walk_Ok)
    note L = set_leaf_4k [OF inv t]
    let ?e = "m T (table_index virt 1)"
    show ?thesis
    proof (cases "pte_is_present ?e")
      case p: True
      let ?n = "pte_new (pte_addr ?e) (flags_union flags PF_PRESENT)"
      have r': "r = Ok ()" "m' = pt_write T (table_index virt 1) ?n m"
        using r True Inr p by (simp_all add: update_flags_4k_def Let_def)
      have "\<exists>t. translate m root v = Some t \<and> translate m' root v = Some (t\<lparr>tr_flags := flags_bits (flags_union flags PF_PRESENT)\<rparr>)"
        if "vpn v = vpn virt" for v
        using L(3) [OF that, of ?n] L(4) [OF that] p flag_bits(1) by (simp add: r')
      then show ?thesis using L(1,2) by (simp add: r')
    qed (use r True Inr inv in \<open>auto simp: update_flags_4k_def Let_def\<close>)
  qed (use r True inv in \<open>auto simp: update_flags_4k_def\<close>)
qed (use r inv in \<open>auto simp: update_flags_4k_def\<close>)

section \<open>Large pages\<close>

definition vhn :: "virt_addr \<Rightarrow> nat" where
  "vhn v = unat v div 2 ^ 21 mod 2 ^ 27"

lemma vpath_huge_iff:
  "(\<exists>j. vpath v = map (table_index w) (levels_above 2) @ [table_index w 2, j]) \<longleftrightarrow> vhn v = vhn w"
proof -
  have d: "unat u div 2 ^ (12 + 9 * Suc k) = unat u div 2 ^ 21 div 512 ^ k" for u :: virt_addr and k
    by (simp add: div_mult2_eq [symmetric] power_add power_mult)
  have idx: "table_index u 2 = unat u div 2 ^ 21 mod 512" "table_index u 3 = unat u div 2 ^ 21 div 512 mod 512"
    "table_index u 4 = unat u div 2 ^ 21 div 512 div 512 mod 512" for u
    using d [of u 0] d [of u 1] d [of u 2] by (simp_all add: table_index_unat div_mult2_eq [symmetric])
  have "(2::nat) ^ 27 = 512 * (512 * 512)" by simp
  then have "vhn v = vhn w \<longleftrightarrow> table_index v 2 = table_index w 2 \<and> table_index v 3 = table_index w 3 \<and> table_index v 4 = table_index w 4"
    unfolding vhn_def by (simp only: mod_mult_eq_iff idx)
  then show ?thesis by (auto simp: vpath_def)
qed

definition mapped_2m_as :: "phys_addr \<Rightarrow> page_flags \<Rightarrow> virt_addr \<Rightarrow> translation" where
  "mapped_2m_as phys flags v =
     \<lparr>tr_phys = ((phys AND ADDR_MASK) AND NOT (PAGE_2M - 1)) + (v AND (PAGE_2M - 1)),
      tr_flags = flags_without (flags_bits (flags_union (flags_union flags PF_PRESENT) PF_HUGE)) PF_HUGE,
      tr_page_size = PAGE_2M\<rparr>"

lemma set_leaf_2m:
  fixes e :: u64
  assumes inv: "pt_inv m root A" and t: "table_at m root (map (table_index virt) (levels_above 2)) = Some T"
    and e: "\<not> pte_is_present (m T (table_index virt 2))" "pte_is_present e" "pte_is_huge e"
  defines "m' \<equiv> pt_write T (table_index virt 2) e m"
  shows "pt_inv m' root A"
    and "vhn v \<noteq> vhn virt \<Longrightarrow> translate m' root v = translate m root v"
    and "vhn v = vhn virt \<Longrightarrow> translate m' root v =
      Some \<lparr>tr_phys = (pte_addr e AND NOT (PAGE_2M - 1)) + (v AND (PAGE_2M - 1)),
            tr_flags = flags_without (pte_flags e) PF_HUGE, tr_page_size = PAGE_2M\<rparr> \<and> translate m root v = None"
proof -
  let ?P = "map (table_index virt) (levels_above 2)"
  have leaf: "leaf_pos m T ?P (table_index virt 2) e" using e by (simp add: leaf_pos_def)
  note w = inv levels_path_ok(2) t
  show "pt_inv m' root A" unfolding m'_def by (rule leaf_write_inv [OF w leaf table_index_less])
  have one: "\<exists>j. R = [j]" if "vpath v = ?P @ table_index virt 2 # R" for R
    using arg_cong [OF that, of length] by (cases R) simp_all
  show "translate m' root v = translate m root v" if "vhn v \<noteq> vhn virt"
    unfolding m'_def by (rule translate_write_other [OF w]) (use that vpath_huge_iff [of v virt] one in auto)
  have t': "table_at m' root ?P = Some T"
    unfolding m'_def using leaf_write_tables [OF w leaf table_index_less levels_path_ok(2)] t by simp
  have m'e: "m' T (table_index virt 2) = e" by (simp add: m'_def pt_write_def)
  show "translate m' root v =
      Some \<lparr>tr_phys = (pte_addr e AND NOT (PAGE_2M - 1)) + (v AND (PAGE_2M - 1)),
            tr_flags = flags_without (pte_flags e) PF_HUGE, tr_page_size = PAGE_2M\<rparr> \<and> translate m root v = None"
    if same: "vhn v = vhn virt"
  proof -
    obtain j where j: "vpath v = ?P @ [table_index virt 2, j]"
      using iffD2 [OF vpath_huge_iff same] by (elim exE)
    have "translate m root v = None"
      using trp_append [OF t, of "[table_index virt 2, j]" v] e(1) by (simp add: translate_trp j)
    then show ?thesis using translate_leaf_2m [OF t' j] e(2,3) by (simp add: m'e)
  qed
qed

context frame_allocator
begin

lemma map_2m_inv:
  assumes r: "map_2m alloc_f root virt phys flags (m, s) = (r, (m', s'))"
    and inv: "fal_inv s" "pt_inv m root (avail s)"
  shows "fal_inv s' \<and> pt_inv m' root (avail s') \<and> avail s' \<subseteq> avail s \<and>
    (\<forall>v. r \<noteq> Ok () \<or> vhn v \<noteq> vhn virt \<longrightarrow> translate m' root v = translate m root v) \<and>
    (r = Ok () \<longrightarrow> (\<forall>v. vhn v = vhn virt \<longrightarrow>
       translate m root v = None \<and> translate m' root v = Some (mapped_2m_as phys flags v)))"
proof (cases "\<not> virt_is_aligned virt PAGE_2M \<or> \<not> phys_is_aligned phys PAGE_2M")
  case True
  then have "r = Err (UnalignedVirt virt)" "m' = m" "s' = s" using r by (auto simp: map_2m_def)
  then show ?thesis using inv by simp
next
  case False
  obtain wr m1 s1 where w: "walk_create alloc_f root virt 2 (flags_contains flags PF_USER) (m, s) = (wr, (m1, s1))"
    by (metis surj_pair)
  have W: "fal_inv s1" "pt_inv m1 root (avail s1)" "avail s1 \<subseteq> avail s" "\<And>v. translate m1 root v = translate m root v"
    "\<And>T. wr = Ok T \<Longrightarrow> table_at m1 root (map (table_index virt) (levels_above 2)) = Some T"
    using walk_create_inv [OF w inv] by auto
  show ?thesis
  proof (cases wr)
    case (Inl e)
    then have "r = Err e" "m' = m1" "s' = s1" using r False w by (simp_all add: map_2m_def)
    then show ?thesis using W by auto
  next
    case (Inr T)
    show ?thesis
    proof (cases "pte_is_present (m1 T (table_index virt 2))")
      case True
      then have "r = Err (AlreadyMapped virt)" "m' = m1" "s' = s1" using r False w Inr by (simp_all add: map_2m_def)
      then show ?thesis using W(1-4) by auto
    next
      case absent: False
      let ?e = "pte_new phys (flags_union (flags_union flags PF_PRESENT) PF_HUGE)"
      have "pte_is_present ?e" "pte_is_huge ?e" using flag_bits(2,3) by simp_all
      note L = set_leaf_2m [OF W(2) W(5) [OF Inr] absent this]
      have r': "r = Ok ()" "m' = pt_write T (table_index virt 2) ?e m1" "s' = s1"
        using r False w Inr absent by (simp_all add: map_2m_def Let_def)
      show ?thesis using W(1-4) L by (simp add: r' mapped_2m_as_def)
    qed
  qed
qed

end

section \<open>Footprint\<close>

text \<open>
  What an operation on the page of \<open>virt\<close> may change: frames it took from the allocator, and entries
  on the path to the page. Every table that is new was taken from the allocator, every frame that was taken is a table
  now, and every table is still where it was.
\<close>

definition pt_step :: "phys_addr \<Rightarrow> virt_addr \<Rightarrow> pt_mem \<Rightarrow> phys_addr set \<Rightarrow> pt_mem \<Rightarrow> phys_addr set \<Rightarrow> bool" where
  "pt_step root virt m A m' A' \<longleftrightarrow> A' \<subseteq> A \<and>
     (\<forall>a i. m' a i \<noteq> m a i \<longrightarrow> a \<in> A - A' \<or> (\<exists>p q. vpath virt = p @ i # q \<and> table_at m root p = Some a)) \<and>
     (\<forall>p T. path_ok p \<and> table_at m' root p = Some T \<longrightarrow> table_at m root p = Some T \<or> T \<in> A - A') \<and>
     (\<forall>p T. path_ok p \<and> table_at m root p = Some T \<longrightarrow> table_at m' root p = Some T) \<and>
     (\<forall>T\<in>A - A'. \<exists>p. path_ok p \<and> table_at m' root p = Some T)"

lemma pt_step_refl [simp]: "pt_step root virt m A m A"
  by (simp add: pt_step_def)

lemma vpath_prefix_ok: "vpath v = p @ i # q \<Longrightarrow> path_ok p"
proof -
  assume v: "vpath v = p @ i # q"
  then have "length p \<le> 3" using length_vpath [of v] by (simp del: length_vpath)
  then show ?thesis using vpath_bound [of _ v] v by (auto simp: path_ok_def)
qed

lemma pt_step_trans:
  assumes 1: "pt_step root virt m A m1 A1" and 2: "pt_step root virt m1 A1 m2 A2"
  shows "pt_step root virt m A m2 A2"
proof -
  have sub: "A2 \<subseteq> A1" "A1 \<subseteq> A" using 1 2 by (simp_all add: pt_step_def)
  have t1: "table_at m root p = Some T \<or> T \<in> A - A1" if "path_ok p" "table_at m1 root p = Some T" for p T
    using 1 that by (simp add: pt_step_def)
  have "a \<in> A - A2 \<or> (\<exists>p q. vpath virt = p @ i # q \<and> table_at m root p = Some a)" if ne: "m2 a i \<noteq> m a i" for a i
  proof (cases "m2 a i = m1 a i")
    case True
    then have "m1 a i \<noteq> m a i" using ne by simp
    then show ?thesis using 1 sub unfolding pt_step_def by blast
  next
    case False
    then consider "a \<in> A1 - A2" | p q where "vpath virt = p @ i # q" "table_at m1 root p = Some a"
      using 2 unfolding pt_step_def by blast
    then show ?thesis
    proof cases
      case 2
      then show ?thesis using t1 [OF vpath_prefix_ok [OF 2(1)] 2(2)] sub by blast
    qed (use sub in blast)
  qed
  moreover have "table_at m root p = Some T \<or> T \<in> A - A2" if "path_ok p" "table_at m2 root p = Some T" for p T
  proof -
    have "table_at m1 root p = Some T \<or> T \<in> A1 - A2" using 2 that by (simp add: pt_step_def)
    then show ?thesis using t1 [OF that(1)] sub by blast
  qed
  moreover have keep: "path_ok p \<longrightarrow> (table_at m root p = Some T \<longrightarrow> table_at m1 root p = Some T) \<and> (table_at m1 root p = Some T \<longrightarrow> table_at m2 root p = Some T)" for p T
    using 1 2 by (simp add: pt_step_def)
  moreover have "\<exists>p. path_ok p \<and> table_at m2 root p = Some T" if "T \<in> A - A2" for T
  proof (cases "T \<in> A1")
    case True
    then show ?thesis using 2 that by (simp add: pt_step_def)
  next
    case False
    then have "\<exists>p. path_ok p \<and> table_at m1 root p = Some T" using 1 that by (simp add: pt_step_def)
    then show ?thesis using keep by blast
  qed
  ultimately show ?thesis using sub by (auto simp: pt_step_def)
qed

lemma link_pt_step:
  assumes "pt_inv m root A" "length P \<le> 2" "table_at m root P = Some T" "\<not> pte_is_present (m T i)" "frame \<in> A"
    "bit link 0" "\<not> bit link 7" "vpath virt = P @ i # q"
  shows "pt_step root virt m A (pt_write T i (pte_new frame link) (table_zero frame m)) (A - {frame})"
proof -
  have b: "\<forall>j\<in>set P. j < 512" "i < 512" using vpath_bound [of _ virt] assms(8) by auto
  note l = link_table(4) [OF assms(1,2) b(1) assms(3) b(2) assms(4,5,6,7)]
  have "path_ok (P @ [i])" using b assms(2) by (simp add: path_ok_def)
  then show ?thesis using l assms(3,5,8) unfolding pt_step_def by (auto simp: pt_write_def table_zero_def split: if_splits)
qed

lemma leaf_pt_step:
  assumes "pt_inv m root A" "table_at m root P = Some T" "leaf_pos m T P i e" "vpath virt = P @ i # q"
  shows "pt_step root virt m A (pt_write T i e m) A"
proof -
  have "path_ok P" "i < 512" using vpath_prefix_ok [OF assms(4)] vpath_bound [of i virt] assms(4) by auto
  then show ?thesis
    using leaf_write_tables [OF assms(1) _ assms(2,3)] assms(2,4) by (auto simp: pt_step_def pt_write_def split: if_splits)
qed

lemma unmap_4k_step:
  assumes r: "unmap_4k root virt m = (r, m')" and inv: "pt_inv m root A"
  shows "pt_step root virt m A m' A"
proof -
  have "pt_step root virt m A (pt_write T (table_index virt 1) e m) A" if "pt_walk m root virt 1 = Ok T" for T e
    by (rule leaf_pt_step [OF inv iffD1 [OF pt_walk_Ok that] _ vpath_split(1)]) (simp add: leaf_pos_def)
  then show ?thesis using r by (auto simp: unmap_4k_def Let_def split: if_splits sum.splits)
qed

context frame_allocator
begin

lemma walk_create_loop_step:
  assumes "walk_create_loop alloc_f link virt ls t (m, s) = (r, (m', s'))"
    and "fal_inv s" "pt_inv m root (avail s)" "table_at m root P = Some t"
    and "length P + length ls \<le> 3" "vpath virt = P @ map (table_index virt) ls @ q" "bit link 0" "\<not> bit link 7"
  shows "pt_step root virt m (avail s) m' (avail s')"
  using assms
proof (induction ls arbitrary: t m s P)
  case (Cons level ls)
  let ?i = "table_index virt level"
  have vp: "vpath virt = P @ ?i # (map (table_index virt) ls @ q)" using Cons.prems(6) by simp
  have P: "length P \<le> 2" "\<forall>i\<in>set P. i < 512" using Cons.prems(5) vpath_bound [of _ virt] vp by auto
  obtain f s1 where al: "alloc_f s = (f, s1)" by (metis surj_pair)
  show ?case
  proof (cases "pte_is_present (m t ?i)")
    case True
    show ?thesis
    proof (cases "pte_is_huge (m t ?i)")
      case False
      have "table_at m root (P @ [?i]) = Some (pte_addr (m t ?i))"
        using Cons.prems(4) True False by (simp add: table_at_append)
      then show ?thesis
        using Cons.IH [of "pte_addr (m t ?i)" m s "P @ [?i]"] Cons.prems True False by (simp add: Let_def)
    qed (use Cons.prems True in \<open>auto simp: Let_def\<close>)
  next
    case False
    show ?thesis
    proof (cases f)
      case None
      then have "m' = m" "s' = s1" "avail s1 = avail s"
        using Cons.prems(1,2) False al alloc_None [of s s1] by (simp_all add: Let_def)
      then show ?thesis by simp
    next
      case (Some frame)
      let ?m = "pt_write t ?i (pte_new frame link) (table_zero frame m)"
      have a: "fal_inv s1" "frame \<in> avail s" "avail s1 = avail s - {frame}"
        using alloc_Some [of s frame s1] Cons.prems(2) al Some by auto
      note l = link_table [OF Cons.prems(3) P Cons.prems(4) table_index_less False a(2) Cons.prems(7,8)]
      have w: "walk_create_loop alloc_f link virt ls frame (?m, s1) = (r, (m', s'))"
        using Cons.prems(1) False al Some by (simp add: Let_def)
      have "pt_step root virt ?m (avail s1) m' (avail s')"
        by (rule Cons.IH [OF w a(1) _ l(1)]) (use l(3) a(3) Cons.prems(5-8) in auto)
      then show ?thesis
        using pt_step_trans link_pt_step [OF Cons.prems(3) P(1) Cons.prems(4) False a(2) Cons.prems(7,8) vp] a(3) by metis
    qed
  qed
qed simp

lemma map_4k_step:
  assumes r: "map_4k alloc_f root virt phys flags (m, s) = (r, (m', s'))"
    and inv: "fal_inv s" "pt_inv m root (avail s)"
  shows "pt_step root virt m (avail s) m' (avail s')"
proof (cases "\<not> virt_is_aligned virt PAGE_SIZE \<or> \<not> phys_is_aligned phys PAGE_SIZE")
  case True
  then have "m' = m" "s' = s" using r by (auto simp: map_4k_def)
  then show ?thesis by simp
next
  case False
  obtain wr m1 s1 where w: "walk_create alloc_f root virt 1 (flags_contains flags PF_USER) (m, s) = (wr, (m1, s1))"
    by (metis surj_pair)
  have W: "pt_inv m1 root (avail s1)" "\<And>T. wr = Ok T \<Longrightarrow> table_at m1 root (map (table_index virt) (levels_above 1)) = Some T"
    using walk_create_inv [OF w inv] by auto
  have st: "pt_step root virt m (avail s) m1 (avail s1)"
    by (rule walk_create_loop_step [OF w [unfolded walk_create_def Let_def] inv, of "[]" "[table_index virt 1]"])
       (use link_bits in \<open>auto simp: vpath_def\<close>)
  have "pt_step root virt m1 (avail s1) (pt_write T (table_index virt 1) e m1) (avail s1)" if "wr = Ok T" for T e
    by (rule leaf_pt_step [OF W(1) W(2) [OF that] _ vpath_split(1)]) (simp add: leaf_pos_def)
  then show ?thesis
    using r False w st by (cases wr) (auto simp: map_4k_def Let_def intro: pt_step_trans split: if_splits)
qed

end

section \<open>Properties\<close>

text \<open>
  C4: mapping a page with frames from the bitmap allocator. On success the page was not mapped
  before and every address in it now translates to the same offset in the given frame with the
  given flags; no other address changes its translation. On an error no translation changes at
  all, even if intermediate tables were created. The table and allocator invariants are kept.
\<close>

theorem map_4k_correct:
  assumes "map_4k allocate root virt phys flags (m, a) = (r, (m', a'))"
    and "fa_inv a" "pt_inv m root (avail_addrs a)"
  shows "fa_inv a' \<and> pt_inv m' root (avail_addrs a') \<and>
    (\<forall>v. r \<noteq> Ok () \<or> vpn v \<noteq> vpn virt \<longrightarrow> translate m' root v = translate m root v) \<and>
    (r = Ok () \<longrightarrow> (\<forall>v. vpn v = vpn virt \<longrightarrow>
       translate m root v = None \<and> translate m' root v = Some (mapped_as phys flags v))) \<and>
    (r = Err (AlreadyMapped virt) \<longrightarrow> translate m root virt \<noteq> None) \<and> (r = Err OutOfFrames \<longrightarrow> avail_addrs a' = {})"
  using bitmap.map_4k_inv [OF assms] by blast

text \<open>An empty root table at 0x1000 and the sample allocator.\<close>

lemma table_at_zero: "table_at (\<lambda>_ _. 0) t p = (if p = [] then Some t else None)"
  by (cases p) auto

lemma sample_avail: "avail_addrs sample_alloc \<subseteq> {0x41000, 0x42000, 0x43000}"
proof -
  have t: "list_all (\<lambda>f. test_frame sample_alloc f \<or> f \<in> {65, 66, 67}) [0..<70]" "fa_capacity sample_alloc = 70" by code_simp+
  have "f \<in> {65, 66, 67}" if "f \<in> free_frames sample_alloc" for f
    using that t by (auto simp: free_frames_def list_all_iff)
  then show ?thesis by (fastforce simp: avail_addrs_def PAGE_SIZE_val)
qed

lemma sample_pt_inv: "pt_inv (\<lambda>_ _. 0) 0x1000 (avail_addrs sample_alloc)"
proof -
  have "a AND ADDR_MASK = a" if "a \<in> {0x41000, 0x42000, 0x43000}" for a
    using that by (auto simp: ADDR_MASK_def)
  then show ?thesis
    using sample_avail by (auto simp: pt_inv_def table_at_zero split: if_splits)
qed

definition sample_mapped :: "(pt_error, unit) result \<times> (pt_mem \<times> frame_alloc)" where
  "sample_mapped = map_4k allocate 0x1000 0x7000 0x9000 PF_KERNEL_RW ((\<lambda>_ _. 0), sample_alloc)"

lemma sample_mapped_ok: "fst sample_mapped = Ok ()"
  unfolding sample_mapped_def by code_simp

theorem map_4k_correct_witness:
  "translate (fst (snd sample_mapped)) 0x1000 0x7123 = Some (mapped_as 0x9000 PF_KERNEL_RW 0x7123)"
proof -
  obtain m' a' where s: "sample_mapped = (Ok (), (m', a'))" using sample_mapped_ok by (metis prod.collapse)
  have "vpn 0x7123 = vpn 0x7000" by (simp add: vpn_def)
  then show ?thesis
    using map_4k_correct [OF s [unfolded sample_mapped_def] sample_alloc_inv sample_pt_inv] by (simp add: s)
qed

text \<open>
  C25: unmapping right after mapping gives the frame back and restores the translation of every
  address; in general unmapping removes one page only and fails only without effect.
\<close>

theorem map_unmap_roundtrip:
  assumes "map_4k allocate root virt phys flags (m, a) = (Ok (), (m', a'))"
    and "fa_inv a" "pt_inv m root (avail_addrs a)"
  shows "\<exists>m''. unmap_4k root virt m' = (Ok (phys AND ADDR_MASK), m'') \<and> pt_inv m'' root (avail_addrs a') \<and>
    (\<forall>v. translate m'' root v = translate m root v)"
proof -
  note M = bitmap.map_4k_inv [OF assms]
  have al: "virt_is_aligned virt PAGE_SIZE" using assms(1) by (auto simp: map_4k_def split: if_splits)
  have t: "translate m' root virt = Some (mapped_as phys flags virt)" using M by simp
  obtain p m'' where u: "unmap_4k root virt m' = (Ok p, m'')"
    using unmap_4k_succeeds [of m' root "avail_addrs a'" virt, OF _ al t] M by (auto simp: mapped_as_def)
  have inv': "pt_inv m' root (avail_addrs a')" using M by simp
  note U = unmap_4k_inv [OF u inv']
  have off: "page_offset virt = 0" using al by (simp add: virt_is_aligned_def page_offset_def)
  have "p = phys AND ADDR_MASK" using U t off by (auto simp: mapped_as_def phys_add_def)
  moreover have "translate m'' root v = translate m root v" for v
    using U M by (cases "vpn v = vpn virt") auto
  ultimately show ?thesis using u U by blast
qed

theorem map_unmap_roundtrip_witness:
  "\<exists>m''. unmap_4k 0x1000 0x7000 (fst (snd sample_mapped)) = (Ok 0x9000, m'') \<and> translate m'' 0x1000 0x7123 = None"
proof -
  obtain m' a' where s: "sample_mapped = (Ok (), (m', a'))" using sample_mapped_ok by (metis prod.collapse)
  have "translate (\<lambda>_ _. 0) 0x1000 0x7123 = None" by (simp add: translate_trp vpath_def)
  then show ?thesis
    using map_unmap_roundtrip [OF s [unfolded sample_mapped_def] sample_alloc_inv sample_pt_inv]
    by (auto simp: s ADDR_MASK_def)
qed

text \<open>
  C26: mapping a range. Whatever happens, no existing translation changes and pages outside of the
  range stay as they were; on success every page of the range is mapped to the frame at the same
  distance from the start.
\<close>

theorem map_range_4k_correct:
  assumes "map_range_4k allocate root virt phys len flags (m, a) = (r, (m', a'))"
    and "fa_inv a" "pt_inv m root (avail_addrs a)"
  defines "page \<equiv> \<lambda>n. virt_add virt (word_of_nat n * PAGE_SIZE)"
  shows "fa_inv a' \<and> pt_inv m' root (avail_addrs a') \<and>
    (\<forall>v. translate m root v \<noteq> None \<longrightarrow> translate m' root v = translate m root v) \<and>
    (\<forall>v. (\<forall>n<div_ceil (unat len) 4096. vpn v \<noteq> vpn (page n)) \<longrightarrow> translate m' root v = translate m root v) \<and>
    (r = Ok () \<longrightarrow> (\<forall>n<div_ceil (unat len) 4096. \<forall>v. vpn v = vpn (page n) \<longrightarrow>
       translate m' root v = Some (mapped_as (phys_add phys (word_of_nat n * PAGE_SIZE)) flags v)))"
  using bitmap.map_range_loop_inv [OF assms(1) [unfolded map_range_4k_def] assms(2,3)]
  unfolding page_def by (auto simp: image_iff)

definition sample_range :: "(pt_error, unit) result \<times> (pt_mem \<times> frame_alloc)" where
  "sample_range = map_range_4k allocate 0x1000 0x7000 0x9000 0x1800 PF_KERNEL_RW ((\<lambda>_ _. 0), sample_alloc)"

lemma sample_range_ok: "fst sample_range = Ok ()"
proof -
  have "div_ceil (unat (0x1800 :: u64)) 4096 = 2" by (simp add: div_ceil_def)
  then have "sample_range = map_range_loop allocate 0x1000 0x7000 0x9000 PF_KERNEL_RW [0, 1] ((\<lambda>_ _. 0), sample_alloc)"
    by (simp add: sample_range_def map_range_4k_def upt_rec)
  moreover have "fst (map_range_loop allocate 0x1000 0x7000 0x9000 PF_KERNEL_RW [0, 1] ((\<lambda>_ _. 0), sample_alloc)) = Ok ()"
    by code_simp
  ultimately show ?thesis by simp
qed

theorem map_range_4k_correct_witness:
  "translate (fst (snd sample_range)) 0x1000 0x8010 = Some (mapped_as 0xA000 PF_KERNEL_RW 0x8010)"
proof -
  obtain m' a' where s: "sample_range = (Ok (), (m', a'))" using sample_range_ok by (metis prod.collapse)
  have "vpn 0x8010 = vpn (virt_add 0x7000 (word_of_nat 1 * PAGE_SIZE))" "1 < div_ceil (unat (0x1800 :: u64)) 4096"
    "phys_add 0x9000 (word_of_nat 1 * PAGE_SIZE) = 0xA000"
    by (simp_all add: vpn_def virt_add_def phys_add_def PAGE_SIZE_val div_ceil_def)
  then show ?thesis
    using map_range_4k_correct [OF s [unfolded sample_range_def] sample_alloc_inv sample_pt_inv] by (metis s fst_conv snd_conv)
qed

end
