(* ===== verification/Frame_Pool.thy ===== *)
theory Frame_Pool
  imports Phys_Mem Paging
begin

text \<open>
  The adapter \<^verbatim>\<open>GlobalFrameAllocator\<close> of \<^verbatim>\<open>kernel/src/mm/phys.rs\<close> as a pool of frames: the interface of
  a frame allocator together with the frames that are out and may come back. The page-table lemmas
  that were proved for any frame allocator hold for it by interpretation (\<open>global_fa\<close>).
\<close>

section \<open>The global allocator as a pool\<close>

text \<open>
  The adapter \<^verbatim>\<open>GlobalFrameAllocator\<close> through which the page tables take their frames. A pool adds to
  the allocator interface the frames that are out: each of them can be given back, in any order.
\<close>

definition global_deallocate_frame :: "phys_state option \<Rightarrow> phys_addr \<Rightarrow> phys_state option option" where
  "global_deallocate_frame st f = Some (snd (phys_free_frame st f))"

locale frame_pool = frame_allocator +
  fixes taken :: "'a \<Rightarrow> phys_addr set"
  assumes taken_not_avail: "fal_inv s \<Longrightarrow> avail s \<inter> taken s = {}"
    and alloc_taken: "fal_inv s \<Longrightarrow> alloc_f s = (r, s') \<Longrightarrow> taken s' = set_option r \<union> taken s"
    and dealloc_any: "fal_inv s \<Longrightarrow> p \<in> taken s \<Longrightarrow>
      \<exists>s'. dealloc_f s p = Some s' \<and> fal_inv s' \<and> avail s' = insert p (avail s) \<and> taken s' = taken s - {p}"
begin

lemma dealloc_all:
  assumes "fal_inv s" "distinct fs" "set fs \<subseteq> taken s"
  shows "\<exists>s'. fold (\<lambda>f s. Option.bind s (\<lambda>s. dealloc_f s f)) fs (Some s) = Some s' \<and> fal_inv s' \<and>
    avail s' = avail s \<union> set fs \<and> taken s' = taken s - set fs"
  using assms
proof (induction fs arbitrary: s)
  case (Cons f fs)
  obtain s1 where s1: "dealloc_f s f = Some s1" "fal_inv s1" "avail s1 = insert f (avail s)" "taken s1 = taken s - {f}"
    using dealloc_any [of s f] Cons.prems by auto
  have "set fs \<subseteq> taken s1" using Cons.prems s1(4) by auto
  from Cons.IH [OF s1(2) _ this] Cons.prems(2) show ?case using s1 by auto
qed simp

end

definition taken_addrs :: "frame_alloc \<Rightarrow> phys_addr set" where
  "taken_addrs a = (\<lambda>f. frame_addr f) ` (usable_frames a - free_frames a)"

definition phys_inv :: "phys_state option \<Rightarrow> bool" where
  [nexo_inv]: "phys_inv st \<longleftrightarrow> (\<forall>p. st = Some p \<longrightarrow> fa_inv (ph_alloc p))"

definition phys_avail :: "phys_state option \<Rightarrow> phys_addr set" where
  "phys_avail st = (case st of None \<Rightarrow> {} | Some p \<Rightarrow> avail_addrs (ph_alloc p))"

definition phys_taken :: "phys_state option \<Rightarrow> phys_addr set" where
  "phys_taken st = (case st of None \<Rightarrow> {} | Some p \<Rightarrow> taken_addrs (ph_alloc p))"

lemma usable_inj: "fa_inv a \<Longrightarrow> inj_on (\<lambda>f. frame_addr f) (usable_frames a)"
  using inj_frame_addr by (rule inj_on_subset) (auto simp: usable_frames_def)

lemma free_usable: "fa_inv a \<Longrightarrow> free_frames a \<subseteq> usable_frames a"
  using frame_word_in_range by (fastforce simp: fa_inv_def free_frames_def usable_frames_def)

lemma avail_taken_disjoint: "fa_inv a \<Longrightarrow> avail_addrs a \<inter> taken_addrs a = {}"
  using usable_inj free_usable inj_on_image_set_diff [of "\<lambda>f. frame_addr f" "usable_frames a" "usable_frames a" "free_frames a"]
  by (fastforce simp: avail_addrs_def taken_addrs_def)

lemma took_taken:
  assumes inv: "fa_inv a" and f: "f \<in> free_frames a" and t: "took_frame f a b"
  shows "taken_addrs b = insert (frame_addr f) (taken_addrs a)"
proof -
  have "usable_frames b - free_frames b = insert f (usable_frames a - free_frames a)"
    using took_frame_inv [OF assms] free_usable [OF inv] f by auto
  then show ?thesis by (simp add: taken_addrs_def)
qed

lemma put_taken:
  assumes inv: "fa_inv a" and f: "f \<in> usable_frames a - free_frames a" and p: "put_frame f a b"
  shows "fa_inv b" "avail_addrs b = insert (frame_addr f) (avail_addrs a)" "taken_addrs b = taken_addrs a - {frame_addr f}"
proof -
  have "f < fa_capacity a" "is_usable_frame a f" "test_frame a f" using f by (auto simp: free_frames_def usable_frames_def)
  note i = put_frame_inv [OF inv this p]
  show "fa_inv b" "avail_addrs b = insert (frame_addr f) (avail_addrs a)" using i by (simp_all add: avail_addrs_def)
  have "usable_frames b - free_frames b = (usable_frames a - free_frames a) - {f}" using i by auto
  then show "taken_addrs b = taken_addrs a - {frame_addr f}"
    using inj_on_image_set_diff [OF usable_inj [OF inv], of "usable_frames a - free_frames a" "{f}"] f
    by (auto simp: taken_addrs_def)
qed

lemma phys_free_taken:
  assumes inv: "phys_inv st" and p: "p \<in> phys_taken st"
  shows "\<exists>st'. phys_free_frame st p = (Ok (), st') \<and> phys_inv st' \<and> phys_avail st' = insert p (phys_avail st) \<and>
    phys_taken st' = phys_taken st - {p}"
proof (cases st)
  case (Some q)
  let ?a = "ph_alloc q"
  have a: "fa_inv ?a" using inv Some by (simp add: phys_inv_def)
  obtain f where f: "p = frame_addr f" "f \<in> usable_frames ?a - free_frames ?a"
    using p Some by (auto simp: phys_taken_def taken_addrs_def)
  then have "f < fa_capacity ?a" "is_usable_frame ?a f" "test_frame ?a f"
    by (auto simp: free_frames_def usable_frames_def)
  from free_frame_Ok [OF a this] obtain b where b: "free_frame ?a p = (Ok (), b)" "put_frame f ?a b" using f(1) by auto
  from put_taken [OF a f(2) b(2)] show ?thesis
    using b(1) Some f(1) by (simp add: phys_free_frame_def phys_inv_def phys_avail_def phys_taken_def)
qed (use p in \<open>simp add: phys_taken_def\<close>)

lemma phys_alloc_cases:
  assumes inv: "phys_inv st" and al: "phys_allocate_frame st = (r, st')"
  shows "phys_inv st' \<and> phys_taken st' = set_option r \<union> phys_taken st \<and>
    (case r of None \<Rightarrow> phys_avail st = {} \<and> phys_avail st' = {}
     | Some p \<Rightarrow> p \<in> phys_avail st \<and> phys_avail st' = phys_avail st - {p} \<and> 4096 dvd unat p)"
proof (cases st)
  case (Some q)
  let ?a = "ph_alloc q"
  have a: "fa_inv ?a" using inv Some by (simp add: phys_inv_def)
  obtain b where b: "allocate ?a = (r, b)" "st' = Some (q\<lparr>ph_alloc := b\<rparr>)"
    using al Some by (auto simp: phys_allocate_frame_def split: prod.splits)
  show ?thesis
  proof (cases r)
    case None
    have n: "b = ?a\<lparr>fa_stats := (fa_stats ?a)\<lparr>st_failures := st_failures (fa_stats ?a) + 1\<rparr>\<rparr>"
      using a by (rule allocate_cases) (use b(1) None in auto)
    have "taken_addrs b = taken_addrs ?a" unfolding n by (simp add: taken_addrs_def usable_frames_def free_frames_def)
    then show ?thesis using bitmap.alloc_None [OF a, of b] b None Some
      by (simp add: phys_inv_def phys_avail_def phys_taken_def)
  next
    case (Some p)
    obtain f where f: "f \<in> free_frames ?a" "took_frame f ?a b" "p = frame_addr f"
      using a by (rule allocate_cases) (use b(1) Some in auto)
    then show ?thesis using bitmap.alloc_Some [OF a, of p b] took_taken [OF a f(1,2)] b Some \<open>st = Some q\<close>
      by (simp add: phys_inv_def phys_avail_def phys_taken_def)
  qed
qed (use al in \<open>simp add: phys_allocate_frame_def phys_inv_def phys_avail_def phys_taken_def\<close>)

interpretation global_fa: frame_pool phys_allocate_frame global_deallocate_frame phys_inv phys_avail phys_taken
proof
  fix s :: "phys_state option" and p s'
  assume inv: "phys_inv s"
  show disj: "phys_avail s \<inter> phys_taken s = {}"
    using inv avail_taken_disjoint by (auto simp: phys_inv_def phys_avail_def phys_taken_def split: option.splits)
  show "finite (phys_avail s)" by (simp add: phys_avail_def avail_addrs_def split: option.splits)
  show "\<exists>s'. global_deallocate_frame s p = Some s' \<and> phys_inv s' \<and> phys_avail s' = insert p (phys_avail s) \<and>
      phys_taken s' = phys_taken s - {p}" if "p \<in> phys_taken s"
    using phys_free_taken [OF inv that] by (auto simp: global_deallocate_frame_def)
  show "phys_inv s' \<and> phys_avail s = {} \<and> phys_avail s' = {}" if "phys_allocate_frame s = (None, s')"
    using phys_alloc_cases [OF inv that] by simp
  assume al: "phys_allocate_frame s = (Some p, s')"
  note c = phys_alloc_cases [OF inv al]
  show "phys_inv s' \<and> p \<in> phys_avail s \<and> phys_avail s' = phys_avail s - {p} \<and> 4096 dvd unat p" using c by simp
  have "phys_inv s'" "p \<in> phys_taken s'" using c by auto
  from phys_free_taken [OF this] show "\<exists>s''. global_deallocate_frame s' p = Some s'' \<and> phys_inv s'' \<and> phys_avail s'' = phys_avail s"
    using c by (auto simp: global_deallocate_frame_def)
next
  fix s r s' assume "phys_inv s" "phys_allocate_frame s = (r, s')"
  from phys_alloc_cases [OF this] show "phys_taken s' = set_option r \<union> phys_taken s" by simp
qed

end
