(* ===== verification/Addr_Space.thy ===== *)
theory Addr_Space
  imports Frame_Pool Syscall_Abi
begin

text \<open>
  \<^verbatim>\<open>kernel/src/mm/virt.rs\<close> (mappings of the kernel), the address spaces of
  \<^verbatim>\<open>kernel/src/process.rs\<close>, and \<^verbatim>\<open>sys_memory_unmap\<close> of \<^verbatim>\<open>kernel/src/x86/syscall.rs\<close>.

  The state is the physical memory as 64-bit words (page tables and data pages alike; the linear map
  makes every frame addressable) together with the global frame allocator. Registers that the code
  reads (CR3) are arguments. Invalidating the TLB has no effect here, the processor is assumed to see
  the tables; interrupt masks and locks only order the operations.

  The second half follows a machine with any number of address spaces through creation, mapping,
  unmapping and destruction, and shows that no space ever sees the changes of another one.
\<close>

type_synonym mm_state = "pt_mem \<times> phys_state option"

section \<open>Frames\<close>

definition allocate_zeroed_frame :: "mm_state \<Rightarrow> phys_addr option \<times> mm_state" where
  "allocate_zeroed_frame st =
     (case st of (m, ps) \<Rightarrow>
        case phys_allocate_frame ps of
          (None, ps') \<Rightarrow> (None, (m, ps'))
        | (Some f, ps') \<Rightarrow> (Some f, (table_zero f m, ps')))"

definition mm_free_frame :: "phys_addr \<Rightarrow> mm_state \<Rightarrow> mm_state" where
  "mm_free_frame f st = (fst st, snd (phys_free_frame (snd st) f))"

section \<open>Mappings of the kernel\<close>

definition PHYS_MAP_OFFSET :: u64 where "PHYS_MAP_OFFSET = 0xffff800000000000"

definition phys_to_virt :: "phys_addr \<Rightarrow> virt_addr" where
  "phys_to_virt p = PHYS_MAP_OFFSET + p"

definition kernel_mapper :: "u64 \<Rightarrow> phys_addr" where
  "kernel_mapper cr3 = cr3 AND 0x000ffffffffff000"

text \<open>The loader maps low memory one to one; \<^verbatim>\<open>init\<close> takes this alias away.\<close>

definition virt_init :: "u64 \<Rightarrow> pt_mem \<Rightarrow> pt_mem" where
  "virt_init cr3 m =
     (let root = kernel_mapper cr3 in
      if pte_is_present (m root 0) then pt_write root 0 pte_empty m else m)"

definition map_page :: "u64 \<Rightarrow> virt_addr \<Rightarrow> phys_addr \<Rightarrow> page_flags \<Rightarrow> mm_state \<Rightarrow> (pt_error, unit) result \<times> mm_state" where
  "map_page cr3 virt phys flags st = map_4k phys_allocate_frame (kernel_mapper cr3) virt phys flags st"

definition unmap_page :: "u64 \<Rightarrow> virt_addr \<Rightarrow> mm_state \<Rightarrow> (pt_error, phys_addr) result \<times> mm_state" where
  "unmap_page cr3 virt st =
     (case unmap_4k (kernel_mapper cr3) virt (fst st) of (r, m') \<Rightarrow> (r, (m', snd st)))"

definition update_flags :: "u64 \<Rightarrow> virt_addr \<Rightarrow> page_flags \<Rightarrow> mm_state \<Rightarrow> (pt_error, unit) result \<times> mm_state" where
  "update_flags cr3 virt flags st =
     (case update_flags_4k (kernel_mapper cr3) virt flags (fst st) of (r, m') \<Rightarrow> (r, (m', snd st)))"

definition virt_translate :: "u64 \<Rightarrow> virt_addr \<Rightarrow> mm_state \<Rightarrow> translation option" where
  "virt_translate cr3 virt st = translate (fst st) (kernel_mapper cr3) virt"

text \<open>The raw entries of the path to an address, written over the array \<open>saida\<close> of four.\<close>

fun walk_raw_loop :: "pt_mem \<Rightarrow> nat list \<Rightarrow> nat \<Rightarrow> phys_addr \<Rightarrow> u64 list \<Rightarrow> nat \<times> u64 list" where
  "walk_raw_loop m [] nivel tabela saida = (4, saida)"
| "walk_raw_loop m (idx # rest) nivel tabela saida =
     (let entrada = m tabela idx; saida' = saida[nivel := entrada] in
      if \<not> pte_is_present entrada \<or> pte_is_huge entrada then (nivel + 1, saida')
      else walk_raw_loop m rest (nivel + 1) (entrada AND 0x000ffffffffff000) saida')"

definition walk_raw :: "u64 \<Rightarrow> pt_mem \<Rightarrow> virt_addr \<Rightarrow> u64 list \<Rightarrow> nat \<times> u64 list" where
  "walk_raw cr3 m virt saida =
     (let indices = map (\<lambda>k. unat (drop_bit k virt AND 0x1ff)) [39, 30, 21, 12]
      in walk_raw_loop m indices 0 (cr3 AND 0x000ffffffffff000) saida)"

definition alloc_and_map :: "u64 \<Rightarrow> virt_addr \<Rightarrow> page_flags \<Rightarrow> mm_state \<Rightarrow> (pt_error, phys_addr) result \<times> mm_state" where
  "alloc_and_map cr3 virt flags st =
     (case allocate_zeroed_frame st of
        (None, st1) \<Rightarrow> (Err OutOfFrames, st1)
      | (Some frame, st1) \<Rightarrow>
          (case map_page cr3 virt frame flags st1 of
             (Inr _, st2) \<Rightarrow> (Ok frame, st2)
           | (Inl e, st2) \<Rightarrow> (Err e, mm_free_frame frame st2)))"

definition unmap_and_free :: "u64 \<Rightarrow> virt_addr \<Rightarrow> mm_state \<Rightarrow> (pt_error, unit) result \<times> mm_state" where
  "unmap_and_free cr3 virt st =
     (case unmap_page cr3 virt st of
        (Inl e, st1) \<Rightarrow> (Err e, st1)
      | (Inr frame, st1) \<Rightarrow> (Ok (), mm_free_frame frame st1))"

section \<open>Address spaces\<close>

record addr_space =
  as_root :: phys_addr
  as_id :: u64
  as_frames :: "phys_addr list"

text \<open>
  The allocator \<^verbatim>\<open>Recording\<close> remembers every frame it hands out. It zeroes the frame; its only client,
  the walk that creates tables, zeroes it again before linking it, so the zeroing is left to the walk.
\<close>

definition recording_allocate ::
  "phys_state option \<times> phys_addr list \<Rightarrow> phys_addr option \<times> (phys_state option \<times> phys_addr list)" where
  "recording_allocate s =
     (case s of (ps, fs) \<Rightarrow>
        case phys_allocate_frame ps of
          (None, ps') \<Rightarrow> (None, (ps', fs))
        | (Some f, ps') \<Rightarrow> (Some f, (ps', fs @ [f])))"

definition recording_deallocate ::
  "phys_state option \<times> phys_addr list \<Rightarrow> phys_addr \<Rightarrow> (phys_state option \<times> phys_addr list) option" where
  "recording_deallocate s f = Some (snd (phys_free_frame (fst s) f), snd s)"

text \<open>\<open>kr\<close> is the root of the kernel (\<^verbatim>\<open>sched::kernel_pml4\<close>), \<open>nid\<close> the next identity.\<close>

definition as_new :: "phys_addr \<Rightarrow> u64 \<Rightarrow> mm_state \<Rightarrow> addr_space option \<times> u64 \<times> mm_state" where
  "as_new kr nid st =
     (case allocate_zeroed_frame st of
        (None, st1) \<Rightarrow> (None, nid, st1)
      | (Some root, (m, ps)) \<Rightarrow>
          (Some \<lparr>as_root = root, as_id = nid, as_frames = []\<rparr>, nid + 1,
           (m(root := (\<lambda>i. if 256 \<le> i \<and> i < 512 then m kr i else m root i)), ps)))"

text \<open>A call of \<^verbatim>\<open>map_4k\<close> on the tables of a space, with the recording allocator.\<close>

definition as_map_4k ::
  "addr_space \<Rightarrow> virt_addr \<Rightarrow> phys_addr \<Rightarrow> page_flags \<Rightarrow> mm_state \<Rightarrow> (pt_error, unit) result \<times> addr_space \<times> mm_state" where
  "as_map_4k s virt phys flags st =
     (case map_4k recording_allocate (as_root s) virt phys flags (fst st, (snd st, as_frames s)) of
        (r, (m', (ps', fs'))) \<Rightarrow> (r, s\<lparr>as_frames := fs'\<rparr>, (m', ps')))"

definition map_user_page ::
  "addr_space \<Rightarrow> virt_addr \<Rightarrow> page_flags \<Rightarrow> mm_state \<Rightarrow> (pt_error, phys_addr) result \<times> addr_space \<times> mm_state" where
  "map_user_page s virt flags st =
     (if virt \<ge> USER_ADDRESS_LIMIT then (Err (UnalignedVirt virt), s, st)
      else (case allocate_zeroed_frame st of
              (None, st1) \<Rightarrow> (Err OutOfFrames, s, st1)
            | (Some frame, st1) \<Rightarrow>
                (case as_map_4k (s\<lparr>as_frames := as_frames s @ [frame]\<rparr>) virt frame
                        (flags_union (flags_union flags PF_USER) PF_PRESENT) st1 of
                   (Inl e, s', st2) \<Rightarrow> (Err e, s', st2)
                 | (Inr _, s', st2) \<Rightarrow> (Ok frame, s', st2))))"

definition map_user_mmio ::
  "addr_space \<Rightarrow> virt_addr \<Rightarrow> phys_addr \<Rightarrow> mm_state \<Rightarrow> (pt_error, unit) result \<times> addr_space \<times> mm_state" where
  "map_user_mmio s virt phys st =
     (if virt \<ge> USER_ADDRESS_LIMIT then (Err (UnalignedVirt virt), s, st)
      else as_map_4k s virt phys
             (flags_union (flags_union (flags_union PF_KERNEL_RW PF_USER) PF_NO_CACHE) PF_WRITE_THROUGH) st)"

definition map_user_shared ::
  "addr_space \<Rightarrow> virt_addr \<Rightarrow> phys_addr \<Rightarrow> mm_state \<Rightarrow> (pt_error, unit) result \<times> addr_space \<times> mm_state" where
  "map_user_shared s virt phys st =
     (if virt \<ge> USER_ADDRESS_LIMIT then (Err (UnalignedVirt virt), s, st)
      else as_map_4k s virt phys (flags_union PF_KERNEL_RW PF_USER) st)"

fun unmap_shared_loop :: "phys_addr \<Rightarrow> virt_addr \<Rightarrow> nat list \<Rightarrow> pt_mem \<Rightarrow> (pt_error, unit) result \<times> pt_mem" where
  "unmap_shared_loop root base [] m = (Ok (), m)"
| "unmap_shared_loop root base (i # is) m =
     (case unmap_4k root (virt_add base (word_of_nat i * PAGE_SIZE)) m of
        (Inr _, m') \<Rightarrow> unmap_shared_loop root base is m'
      | (Inl (NotMapped _), m') \<Rightarrow> unmap_shared_loop root base is m'
      | (Inl e, m') \<Rightarrow> (Err e, m'))"

definition unmap_user_shared :: "addr_space \<Rightarrow> virt_addr \<Rightarrow> u64 \<Rightarrow> pt_mem \<Rightarrow> (pt_error, unit) result \<times> pt_mem" where
  "unmap_user_shared s base len m =
     (if base \<ge> USER_ADDRESS_LIMIT \<or> checked_add base len = None then (Err (UnalignedVirt base), m)
      else unmap_shared_loop (as_root s) base [0..<unat (align_up len PAGE_SIZE div PAGE_SIZE)] m)"

definition as_translate :: "addr_space \<Rightarrow> virt_addr \<Rightarrow> pt_mem \<Rightarrow> phys_addr option" where
  "as_translate s virt m = map_option tr_phys (translate m (as_root s) virt)"

text \<open>Bytes in the memory of words, in the little-endian order of the processor.\<close>

definition mem_frame :: "phys_addr \<Rightarrow> phys_addr" where
  "mem_frame p = p AND NOT 0xfff"

definition mem_slot :: "phys_addr \<Rightarrow> nat" where
  "mem_slot p = unat (p AND 0xfff) div 8"

definition mem_shift :: "phys_addr \<Rightarrow> nat" where
  "mem_shift p = 8 * (unat (p AND 0xfff) mod 8)"

definition read_byte :: "pt_mem \<Rightarrow> phys_addr \<Rightarrow> u8" where
  "read_byte m p = ucast (drop_bit (mem_shift p) (m (mem_frame p) (mem_slot p)))"

definition write_byte :: "phys_addr \<Rightarrow> u8 \<Rightarrow> pt_mem \<Rightarrow> pt_mem" where
  "write_byte p b m =
     pt_write (mem_frame p) (mem_slot p)
       ((m (mem_frame p) (mem_slot p) AND NOT (push_bit (mem_shift p) 0xff)) OR push_bit (mem_shift p) (ucast b)) m"

fun write_bytes :: "phys_addr \<Rightarrow> u8 list \<Rightarrow> pt_mem \<Rightarrow> pt_mem" where
  "write_bytes p [] m = m"
| "write_bytes p (b # bs) m = write_bytes (p + 1) bs (write_byte p b m)"

lemma page_offset_less: "unat (page_offset v) < 4096"
  using word_and_le1 [of v "PAGE_SIZE - 1"] by (simp add: page_offset_def PAGE_SIZE_val word_le_nat_alt)

text \<open>The loop of \<^verbatim>\<open>write\<close>: \<open>v\<close> is the address of the first byte of \<open>data\<close>, the rest of the slice.\<close>

function as_write :: "addr_space \<Rightarrow> virt_addr \<Rightarrow> u8 list \<Rightarrow> pt_mem \<Rightarrow> (pt_error, unit) result \<times> pt_mem" where
  "as_write s v data m =
     (if data = [] then (Ok (), m)
      else (case as_translate s v m of
              None \<Rightarrow> (Err (NotMapped v), m)
            | Some phys \<Rightarrow>
                let chunk = unat (PAGE_SIZE - page_offset v);
                    n = min chunk (length data)
                in as_write s (virt_add v (word_of_nat n)) (drop n data) (write_bytes phys (take n data) m)))"
  by pat_completeness auto

lemma chunk_pos: "0 < unat (PAGE_SIZE - page_offset v)"
proof -
  have "page_offset v \<noteq> PAGE_SIZE" using page_offset_less [of v] by (auto simp: PAGE_SIZE_val)
  then show ?thesis by (simp add: unat_gt_0)
qed

termination as_write
  by (relation "measure (\<lambda>(s, v, data, m). length data)") (use chunk_pos in auto)

declare as_write.simps [simp del]

definition frame_count :: "addr_space \<Rightarrow> nat" where
  "frame_count s = length (as_frames s)"

text \<open>Destruction. The first component is the value of CR3 afterwards.\<close>

definition as_drop :: "phys_addr \<Rightarrow> u64 \<Rightarrow> addr_space \<Rightarrow> mm_state \<Rightarrow> u64 \<times> mm_state" where
  "as_drop kr cr3 s st =
     (if cr3 AND 0x000ffffffffff000 = as_root s then kr else cr3,
      mm_free_frame (as_root s) (fold mm_free_frame (as_frames s) st))"

definition sys_memory_unmap :: "addr_space \<Rightarrow> u64 \<Rightarrow> u64 \<Rightarrow> pt_mem \<Rightarrow> (status \<times> u64) \<times> pt_mem" where
  "sys_memory_unmap s base len m =
     (if base = 0 \<or> len = 0 \<or> base mod PAGE_SIZE \<noteq> 0 \<or> len mod PAGE_SIZE \<noteq> 0 \<or> base < USER_DEVICE_REGION \<or>
         (case checked_add base len of None \<Rightarrow> True | Some e \<Rightarrow> e > USER_ADDRESS_LIMIT)
      then ((InvalidArgs, 0), m)
      else (case unmap_user_shared s base len m of
              (Inr _, m') \<Rightarrow> ((StOk, 0), m')
            | (Inl _, m') \<Rightarrow> ((InvalidArgs, 0), m')))"

section \<open>The recording allocator is a pool\<close>

definition rec_inv :: "phys_state option \<times> phys_addr list \<Rightarrow> bool" where
  "rec_inv s = phys_inv (fst s)"

definition rec_avail :: "phys_state option \<times> phys_addr list \<Rightarrow> phys_addr set" where
  "rec_avail s = phys_avail (fst s)"

definition rec_taken :: "phys_state option \<times> phys_addr list \<Rightarrow> phys_addr set" where
  "rec_taken s = phys_taken (fst s)"

lemma recording_allocate_phys:
  "recording_allocate s = (r, s') \<longleftrightarrow>
   (\<exists>ps'. phys_allocate_frame (fst s) = (r, ps') \<and> s' = (ps', snd s @ (case r of None \<Rightarrow> [] | Some f \<Rightarrow> [f])))"
  by (cases s) (auto simp: recording_allocate_def split: prod.splits option.splits)

interpretation rec_fa: frame_pool recording_allocate recording_deallocate rec_inv rec_avail rec_taken
proof
  fix s :: "phys_state option \<times> phys_addr list" and r p s'
  assume inv: "rec_inv s"
  note i = inv [unfolded rec_inv_def]
  show "rec_avail s \<inter> rec_taken s = {}" using global_fa.taken_not_avail [OF i] by (simp add: rec_avail_def rec_taken_def)
  show "finite (rec_avail s)" using global_fa.avail_finite [OF i] by (simp add: rec_avail_def)
  show "rec_taken s' = set_option r \<union> rec_taken s" if "recording_allocate s = (r, s')"
    using that global_fa.alloc_taken [OF i] by (auto simp: recording_allocate_phys rec_taken_def)
  show "rec_inv s' \<and> rec_avail s = {} \<and> rec_avail s' = {}" if "recording_allocate s = (None, s')"
    using that global_fa.alloc_None [OF i] by (auto simp: recording_allocate_phys rec_inv_def rec_avail_def)
  show "rec_inv s' \<and> p \<in> rec_avail s \<and> rec_avail s' = rec_avail s - {p} \<and> 4096 dvd unat p"
    if "recording_allocate s = (Some p, s')"
    using that global_fa.alloc_Some [OF i] by (auto simp: recording_allocate_phys rec_inv_def rec_avail_def)
  show "\<exists>s''. recording_deallocate s' p = Some s'' \<and> rec_inv s'' \<and> rec_avail s'' = rec_avail s"
    if "recording_allocate s = (Some p, s')"
    using that global_fa.dealloc_taken [OF i]
    by (auto simp: recording_allocate_phys rec_inv_def rec_avail_def recording_deallocate_def global_deallocate_frame_def)
  show "\<exists>s'. recording_deallocate s p = Some s' \<and> rec_inv s' \<and> rec_avail s' = insert p (rec_avail s) \<and>
      rec_taken s' = rec_taken s - {p}" if "p \<in> rec_taken s"
    using that global_fa.dealloc_any [OF i]
    by (auto simp: rec_inv_def rec_avail_def rec_taken_def recording_deallocate_def global_deallocate_frame_def)
qed

text \<open>A property of the allocator state that allocation keeps is kept by a mapping.\<close>

lemma walk_create_loop_keeps:
  assumes "walk_create_loop al link virt ls t (m, s) = (r, (m', s'))" "Q s" "\<And>s r s'. al s = (r, s') \<Longrightarrow> Q s \<Longrightarrow> Q s'"
  shows "Q s'"
  using assms(1,2)
proof (induction ls arbitrary: t m s)
  case (Cons l ls)
  obtain f s1 where al: "al s = (f, s1)" by (metis surj_pair)
  show ?case using Cons assms(3) [OF al] al by (auto simp: Let_def split: if_splits option.splits)
qed simp

lemma map_4k_keeps:
  assumes r: "map_4k al root virt phys flags (m, s) = (r, (m', s'))" and Q: "Q s" "\<And>s r s'. al s = (r, s') \<Longrightarrow> Q s \<Longrightarrow> Q s'"
  shows "Q s'"
proof -
  obtain wr m1 s1 where w: "walk_create al root virt 1 (flags_contains flags PF_USER) (m, s) = (wr, (m1, s1))"
    by (metis surj_pair)
  have "Q s1" by (rule walk_create_loop_keeps [where Q = Q, OF w [unfolded walk_create_def Let_def]]) (fact Q)+
  then show ?thesis using r w Q(1) by (auto simp: map_4k_def Let_def split: if_splits sum.splits)
qed

text \<open>What the recording allocator has recorded is what left the pool.\<close>

definition recorded :: "phys_state option \<Rightarrow> phys_addr list \<Rightarrow> phys_state option \<Rightarrow> phys_addr list \<Rightarrow> bool" where
  "recorded ps fs ps' fs' \<longleftrightarrow> phys_inv ps' \<and> phys_avail ps' \<subseteq> phys_avail ps \<and>
     (\<exists>new. fs' = fs @ new \<and> distinct new \<and> set new = phys_avail ps - phys_avail ps' \<and> phys_taken ps' = phys_taken ps \<union> set new)"

lemma recorded_refl [simp]: "recorded ps fs ps fs \<longleftrightarrow> phys_inv ps"
  by (simp add: recorded_def)

lemma recorded_allocate:
  assumes "recorded ps fs ps1 fs1" "phys_allocate_frame ps1 = (r, ps2)"
  shows "recorded ps fs ps2 (fs1 @ (case r of None \<Rightarrow> [] | Some f \<Rightarrow> [f]))"
proof -
  obtain new where n: "phys_inv ps1" "phys_avail ps1 \<subseteq> phys_avail ps" "fs1 = fs @ new" "distinct new"
    "set new = phys_avail ps - phys_avail ps1" "phys_taken ps1 = phys_taken ps \<union> set new"
    using assms(1) by (auto simp: recorded_def)
  note c = phys_alloc_cases [OF n(1) assms(2)]
  show ?thesis
  proof (cases r)
    case None
    then show ?thesis using n c by (auto simp: recorded_def)
  next
    case (Some f)
    then show ?thesis using n c by (auto simp: recorded_def intro!: exI [of _ "new @ [f]"])
  qed
qed

lemma as_map_4k_cases:
  assumes r: "as_map_4k s virt phys flags (m, ps) = (r, s', (m', ps'))"
    and inv: "phys_inv ps" "pt_inv m (as_root s) (phys_avail ps)"
  shows "as_root s' = as_root s" "recorded ps (as_frames s) ps' (as_frames s')"
    "pt_step (as_root s) virt m (phys_avail ps) m' (phys_avail ps')" "pt_inv m' (as_root s) (phys_avail ps')"
    "\<And>v. r \<noteq> Ok () \<or> vpn v \<noteq> vpn virt \<Longrightarrow> translate m' (as_root s) v = translate m (as_root s) v"
    "\<And>v. r = Ok () \<Longrightarrow> vpn v = vpn virt \<Longrightarrow> translate m' (as_root s) v = Some (mapped_as phys flags v)"
proof -
  obtain fs' where mp: "map_4k recording_allocate (as_root s) virt phys flags (m, (ps, as_frames s)) = (r, (m', (ps', fs')))"
    and s': "s' = s\<lparr>as_frames := fs'\<rparr>"
    using r by (auto simp: as_map_4k_def split: prod.splits)
  have i: "rec_inv (ps, as_frames s)" "pt_inv m (as_root s) (rec_avail (ps, as_frames s))"
    using inv by (simp_all add: rec_inv_def rec_avail_def)
  note c = rec_fa.map_4k_inv [OF mp i] rec_fa.map_4k_step [OF mp i]
  show "as_root s' = as_root s" by (simp add: s')
  show "pt_step (as_root s) virt m (phys_avail ps) m' (phys_avail ps')" "pt_inv m' (as_root s) (phys_avail ps')"
    "\<And>v. r \<noteq> Ok () \<or> vpn v \<noteq> vpn virt \<Longrightarrow> translate m' (as_root s) v = translate m (as_root s) v"
    "\<And>v. r = Ok () \<Longrightarrow> vpn v = vpn virt \<Longrightarrow> translate m' (as_root s) v = Some (mapped_as phys flags v)"
    using c by (auto simp: rec_avail_def)
  have "(\<lambda>(p, f). recorded ps (as_frames s) p f) (ps', fs')"
    by (rule map_4k_keeps [OF mp, where Q = "\<lambda>(p, f). recorded ps (as_frames s) p f"])
       (use inv recorded_allocate in \<open>auto simp: recording_allocate_phys\<close>)
  then show "recorded ps (as_frames s) ps' (as_frames s')" by (simp add: s')
qed

section \<open>Many address spaces\<close>

definition pt_tables :: "pt_mem \<Rightarrow> phys_addr \<Rightarrow> phys_addr set" where
  "pt_tables m root = {T. \<exists>p. path_ok p \<and> table_at m root p = Some T}"

definition user_tables :: "pt_mem \<Rightarrow> phys_addr \<Rightarrow> phys_addr set" where
  "user_tables m root = {T. \<exists>i p. path_ok (i # p) \<and> i < 256 \<and> table_at m root (i # p) = Some T}"

text \<open>Addresses below \<open>USER_ADDRESS_LIMIT\<close> use the lower half of the root table.\<close>

abbreviation user_half :: "virt_addr \<Rightarrow> bool" where
  "user_half v \<equiv> table_index v 4 < 256"

definition owned :: "addr_space \<Rightarrow> phys_addr list" where
  "owned s = as_root s # as_frames s"

text \<open>
  A page that a space maps in its half is a lent frame (\<open>X\<close>: device memory and memory objects) or a
  frame of the space that is not one of its tables.
\<close>

definition user_leaves :: "pt_mem \<Rightarrow> phys_addr \<Rightarrow> phys_addr set \<Rightarrow> phys_addr set \<Rightarrow> bool" where
  "user_leaves m root F X \<longleftrightarrow> (\<forall>v t. user_half v \<and> translate m root v = Some t \<longrightarrow>
     tr_phys t = mem_frame (tr_phys t) + page_offset v \<and> mem_frame (tr_phys t) \<in> X \<union> (F - pt_tables m root))"

definition space_ok :: "phys_addr \<Rightarrow> phys_addr set \<Rightarrow> pt_mem \<Rightarrow> phys_addr set \<Rightarrow> addr_space \<Rightarrow> bool" where
  "space_ok kr X m A s \<longleftrightarrow> pt_inv m (as_root s) A \<and> (\<forall>i. 256 \<le> i \<and> i < 512 \<longrightarrow> m (as_root s) i = m kr i) \<and>
     user_tables m (as_root s) \<subseteq> set (as_frames s) \<and> user_leaves m (as_root s) (set (as_frames s)) X"

definition spaces_inv :: "phys_addr \<Rightarrow> phys_addr set \<Rightarrow> phys_addr set \<Rightarrow> addr_space list \<Rightarrow> mm_state \<Rightarrow> bool" where
  [nexo_inv]: "spaces_inv kr X P S st \<longleftrightarrow> (case st of (m, ps) \<Rightarrow>
     phys_inv ps \<and> P = phys_avail ps \<union> set (concat (map owned S)) \<and>
     pt_inv m kr (phys_avail ps) \<and> distinct (concat (map owned S)) \<and>
     set (concat (map owned S)) \<subseteq> phys_taken ps \<and> set (concat (map owned S)) \<inter> pt_tables m kr = {} \<and>
     X \<inter> (phys_avail ps \<union> set (concat (map owned S)) \<union> pt_tables m kr) = {} \<and>
     (\<forall>x\<in>X \<union> set (concat (map owned S)). x AND ADDR_MASK = x) \<and> (\<forall>s\<in>set S. space_ok kr X m (phys_avail ps) s))"

text \<open>\<open>P\<close> is the set of frames that are available or belong to some space; it never changes.\<close>

text \<open>What the kernel and the other spaces \<open>ts\<close> see of a change of memory: nothing.\<close>

definition unseen :: "phys_addr \<Rightarrow> addr_space list \<Rightarrow> pt_mem \<Rightarrow> pt_mem \<Rightarrow> bool" where
  "unseen kr ts m m' \<longleftrightarrow> (\<forall>v. translate m' kr v = translate m kr v) \<and>
     (\<forall>t\<in>set ts. (\<forall>v. translate m' (as_root t) v = translate m (as_root t) v) \<and> (\<forall>f\<in>set (owned t). m' f = m f))"

lemma unseen_refl [simp]: "unseen kr ts m m"
  by (simp add: unseen_def)

lemma unseen_trans: "unseen kr ts m m1 \<Longrightarrow> unseen kr ts m1 m2 \<Longrightarrow> unseen kr ts m m2"
  by (simp add: unseen_def)

subsection \<open>Tables that do not change\<close>

lemma pt_tablesI: "path_ok p \<Longrightarrow> table_at m root p = Some T \<Longrightarrow> T \<in> pt_tables m root"
  by (auto simp: pt_tables_def)

lemma user_tablesI: "path_ok (i # p) \<Longrightarrow> i < 256 \<Longrightarrow> table_at m root (i # p) = Some T \<Longrightarrow> T \<in> user_tables m root"
  unfolding user_tables_def by blast

lemma pt_tables_root: "root \<in> pt_tables m root"
  by (auto simp: pt_tables_def path_ok_simps intro: exI [of _ "[]"])

lemma same_tables:
  assumes inv: "pt_inv m r A" and same: "\<And>T. T \<in> pt_tables m r \<Longrightarrow> m' T = m T" and A: "A' \<subseteq> A"
  shows "path_ok p \<Longrightarrow> table_at m' r p = table_at m r p" and "translate m' r v = translate m r v"
    and "pt_inv m' r A'" and "pt_tables m' r = pt_tables m r" and "user_tables m' r = user_tables m r"
proof -
  have t: "table_at m' r p = table_at m r p" if "path_ok p" for p
  proof (rule table_at_cong)
    fix q i p' T assume "p = q @ i # p'" and T: "table_at m r q = Some T"
    then have "path_ok q" using that path_ok_simps(1) by blast
    then show "m' T i = m T i" using same [OF pt_tablesI [OF _ T]] by simp
  qed
  then show "path_ok p \<Longrightarrow> table_at m' r p = table_at m r p" .
  show "translate m' r v = translate m r v"
  proof (rule translate_cong [OF inv])
    fix p i q T assume v: "vpath v = p @ i # q" and T: "table_at m r p = Some T"
    show "m' T i = m T i" using same [OF pt_tablesI [OF vpath_prefix_ok [OF v] T]] by simp
  qed
  have "m' r = m r" using same pt_tables_root by blast
  then show "pt_inv m' r A'" using inv A t unfolding pt_inv_def by (auto simp: subset_iff)
  show "pt_tables m' r = pt_tables m r" "user_tables m' r = user_tables m r"
    using t by (simp_all add: pt_tables_def user_tables_def del: table_at.simps cong: conj_cong)
qed

text \<open>The tables of a space: its root, its own tables, and tables of the kernel.\<close>

lemma upper_table_at:
  assumes "\<forall>i. 256 \<le> i \<and> i < 512 \<longrightarrow> m r i = m kr i" "256 \<le> i" "i < 512"
  shows "table_at m r (i # p) = table_at m kr (i # p)"
  using assms by simp

lemma space_tables:
  assumes "space_ok kr X m A s"
  shows "pt_tables m (as_root s) \<subseteq> set (owned s) \<union> pt_tables m kr"
proof
  fix T assume "T \<in> pt_tables m (as_root s)"
  then obtain p where p: "path_ok p" "table_at m (as_root s) p = Some T" by (auto simp: pt_tables_def)
  show "T \<in> set (owned s) \<union> pt_tables m kr"
  proof (cases p)
    case Nil
    then show ?thesis using p by (simp add: owned_def)
  next
    case (Cons i q)
    then have i: "i < 512" using p(1) by (simp add: path_ok_def)
    show ?thesis
    proof (cases "i < 256")
      case True
      then have "T \<in> user_tables m (as_root s)" using p Cons user_tablesI by blast
      then show ?thesis using assms by (auto simp: space_ok_def owned_def)
    next
      case False
      then have "table_at m kr p = Some T"
        using assms p(2) i Cons upper_table_at [of m "as_root s" kr i q] by (simp add: space_ok_def del: table_at.simps)
      then show ?thesis using p(1) by (auto simp: pt_tables_def)
    qed
  qed
qed

lemma kernel_half_shared:
  assumes ok: "space_ok kr X m A s" and k: "pt_inv m kr A" and v: "\<not> user_half v"
  shows "translate m (as_root s) v = translate m kr v"
proof -
  have "table_index v 4 < 512" by (rule table_index_less)
  then have e: "m (as_root s) (table_index v 4) = m kr (table_index v 4)" using ok v by (simp add: space_ok_def)
  then show ?thesis by (simp add: translate_trp vpath_def Let_def)
qed

lemma user_leaves_cong:
  assumes "user_leaves m r F X" "\<And>v. translate m' r v = translate m r v" "pt_tables m' r = pt_tables m r"
  shows "user_leaves m' r F X"
  using assms by (simp add: user_leaves_def)

subsection \<open>Changes made for one space\<close>

lemma spaces_invD:
  assumes "spaces_inv kr X P (xs @ s # ys) (m, ps)"
  shows "phys_inv ps" "pt_inv m kr (phys_avail ps)" "space_ok kr X m (phys_avail ps) s"
    "\<And>t. t \<in> set (xs @ ys) \<Longrightarrow> space_ok kr X m (phys_avail ps) t"
    "\<And>t. t \<in> set (xs @ ys) \<Longrightarrow> set (owned t) \<inter> set (owned s) = {}"
    "distinct (owned s)" "set (owned s) \<subseteq> phys_taken ps" "set (owned s) \<inter> pt_tables m kr = {}"
    "X \<inter> (phys_avail ps \<union> set (owned s) \<union> pt_tables m kr) = {}" "\<And>x. x \<in> X \<Longrightarrow> x AND ADDR_MASK = x"
    "\<And>t. t \<in> set (xs @ ys) \<Longrightarrow> X \<inter> set (owned t) = {}" "\<And>t. t \<in> set (xs @ ys) \<Longrightarrow> set (owned t) \<subseteq> phys_taken ps"
    "\<And>t f. t \<in> set (xs @ s # ys) \<Longrightarrow> f \<in> set (owned t) \<Longrightarrow> f AND ADDR_MASK = f"
  using assms by (auto simp: spaces_inv_def)

text \<open>
  If memory changes only in frames of \<open>s\<close>, in frames \<open>s\<close> has newly taken and in lent frames, then the
  other spaces and the kernel see nothing, and the whole invariant depends on \<open>s\<close> alone.
\<close>

lemma local_change:
  assumes inv: "spaces_inv kr X P (xs @ s # ys) (m, ps)"
    and root: "as_root s' = as_root s" and rec: "recorded ps (as_frames s) ps' (as_frames s')"
    and m': "\<And>a. m' a \<noteq> m a \<Longrightarrow> a \<in> phys_avail ps \<union> set (owned s) \<union> X"
    and s': "space_ok kr X m' (phys_avail ps') s'"
  shows "spaces_inv kr X P (xs @ s' # ys) (m', ps') \<and> unseen kr (xs @ ys) m m'"
proof -
  let ?A = "phys_avail ps" and ?A' = "phys_avail ps'"
  note D = spaces_invD [OF inv]
  have dis: "?A \<inter> phys_taken ps = {}" by (rule global_fa.taken_not_avail [OF D(1)])
  obtain new where new: "as_frames s' = as_frames s @ new" "distinct new" "set new = ?A - ?A'"
    "phys_taken ps' = phys_taken ps \<union> set new" "phys_inv ps'" "?A' \<subseteq> ?A"
    using rec by (auto simp: recorded_def)
  have ow: "owned s' = owned s @ new" by (simp add: owned_def root new(1))
  have kt: "m' T = m T" if T: "T \<in> pt_tables m kr" for T
  proof -
    have "T \<notin> ?A" using T D(2) by (auto simp: pt_tables_def pt_inv_def)
    then show ?thesis using m' [of T] T D(8,9) by blast
  qed
  note K = same_tables [OF D(2) kt new(6)]
  have tt: "m' T = m T" if t: "t \<in> set (xs @ ys)" and T: "T \<in> set (owned t) \<union> pt_tables m kr" for t T
  proof (cases "T \<in> pt_tables m kr")
    case False
    then have o: "T \<in> set (owned t)" using T by simp
    then have "T \<notin> ?A" "T \<notin> set (owned s)" "T \<notin> X" using D(5,11,12) [OF t] dis by auto
    then show ?thesis using m' by blast
  qed (rule kt)
  have other: "space_ok kr X m' ?A' t \<and> (\<forall>v. translate m' (as_root t) v = translate m (as_root t) v) \<and> (\<forall>f\<in>set (owned t). m' f = m f)"
    if t: "t \<in> set (xs @ ys)" for t
  proof -
    have ok: "space_ok kr X m ?A t" by (rule D(4) [OF t])
    have pt: "pt_inv m (as_root t) ?A" using ok by (simp add: space_ok_def)
    have same: "m' T = m T" if "T \<in> pt_tables m (as_root t)" for T
      using tt [OF t] space_tables [OF ok] that by blast
    note S = same_tables [OF pt same new(6)]
    have "m' (as_root t) = m (as_root t)" "m' kr = m kr" using same kt pt_tables_root by blast+
    then have "space_ok kr X m' ?A' t"
      using ok S user_leaves_cong [OF _ S(2,4)] by (simp add: space_ok_def)
    then show ?thesis using S(2) tt [OF t] by blast
  qed
  have fresh: "set new \<inter> phys_taken ps = {}" "set new \<inter> pt_tables m kr = {}" "set new \<inter> X = {}"
    using new(3) dis D(2,9) by (auto simp: pt_tables_def pt_inv_def)
  have cs: "set (concat (map owned (xs @ s' # ys))) = set (concat (map owned (xs @ s # ys))) \<union> set new" by (auto simp: ow)
  have i: "distinct (concat (map owned (xs @ s # ys)))" "set (concat (map owned (xs @ s # ys))) \<subseteq> phys_taken ps"
    "set (concat (map owned (xs @ s # ys))) \<inter> pt_tables m kr = {}" "X \<inter> set (concat (map owned (xs @ s # ys))) = {}"
    using inv by (auto simp: spaces_inv_def)
  have "distinct (concat (map owned (xs @ s' # ys)))" using i(1,2) fresh(1) new(2) by (auto simp: ow)
  moreover have "P = ?A' \<union> set (concat (map owned (xs @ s' # ys)))"
    unfolding cs using inv new(3,6) by (auto simp: spaces_inv_def)
  moreover have "set (concat (map owned (xs @ s' # ys))) \<subseteq> phys_taken ps'" unfolding cs using i(2) new(4) by blast
  moreover have "set (concat (map owned (xs @ s' # ys))) \<inter> pt_tables m' kr = {}" unfolding cs using i(3) K(4) fresh(2) by blast
  moreover have "X \<inter> (?A' \<union> set (concat (map owned (xs @ s' # ys))) \<union> pt_tables m' kr) = {}"
    unfolding cs using i(4) K(4) fresh(3) D(9) new(6) by blast
  moreover have "x AND ADDR_MASK = x" if "x \<in> X \<union> set (concat (map owned (xs @ s' # ys)))" for x
    using that unfolding cs using inv D(2) new(3) by (auto simp: spaces_inv_def pt_inv_def)
  ultimately have "spaces_inv kr X P (xs @ s' # ys) (m', ps')"
    using new(5) K(3) other s' unfolding spaces_inv_def by auto
  moreover have "unseen kr (xs @ ys) m m'" using other K(2) by (auto simp: unseen_def)
  ultimately show ?thesis ..
qed

subsection \<open>Frames of addresses\<close>

lemma unat_mem_frame: "unat (mem_frame p) = unat p div 4096 * 4096"
proof -
  have "(0xfff :: u64) = mask 12" by (simp add: mask_eq_decr_exp)
  then show ?thesis using and_not_mask_unat [of p 12] by (simp add: mem_frame_def)
qed

lemma mem_frame_add:
  assumes "4096 dvd unat f" "unat off < 4096"
  shows "mem_frame (f + off) = f" and "unat (f + off) = unat f + unat off"
proof -
  obtain q where q: "unat f = 4096 * q" using assms(1) by (elim dvdE)
  have "unat f < 2 ^ 64" using unsigned_less [of f] by simp
  then have "4096 * q < 4096 * 2 ^ 52" using q by simp
  then have "q < 2 ^ 52" by simp
  then have no: "unat f + unat off < 2 ^ 64" using assms(2) q by simp
  then show u: "unat (f + off) = unat f + unat off" by (intro unat_add_no_overflow) simp
  show "mem_frame (f + off) = f"
    by (rule word_unat_eq_iff [THEN iffD2]) (use assms(2) q in \<open>simp add: unat_mem_frame u\<close>)
qed

lemma masked_aligned: "p AND ADDR_MASK = p \<Longrightarrow> 4096 dvd unat p"
proof -
  assume p: "p AND ADDR_MASK = p"
  have "p AND mask 12 = 0"
  proof (rule bit_word_eqI)
    fix n assume "n < LENGTH(64)"
    have "bit p n \<Longrightarrow> bit ADDR_MASK n" using arg_cong [OF p, of "\<lambda>x. bit x n"] by (auto simp: bit_simps)
    then show "bit (p AND mask 12) n \<longleftrightarrow> bit (0 :: u64) n" by (auto simp: bit_simps ADDR_MASK_bit)
  qed
  then show ?thesis using and_mask_dvd_nat [of 12 p] by simp
qed

lemma mapped_as_frame:
  assumes "phys AND ADDR_MASK = phys"
  shows "mem_frame (tr_phys (mapped_as phys flags v)) = phys"
    and "tr_phys (mapped_as phys flags v) = phys + page_offset v"
  using mem_frame_add(1) [OF masked_aligned [OF assms] page_offset_less [of v]] assms
  by (simp_all add: mapped_as_def phys_add_def)

lemma user_half_limit: "v < USER_ADDRESS_LIMIT \<Longrightarrow> user_half v"
proof -
  assume "v < USER_ADDRESS_LIMIT"
  then have "unat v < 2 ^ 47" by (simp add: USER_ADDRESS_LIMIT_def word_less_nat_alt)
  then have "unat v div 2 ^ 39 < 256" by (simp add: less_mult_imp_div_less)
  then show ?thesis by (simp add: table_index_unat)
qed

lemma write_bytes_frame:
  assumes "4096 dvd unat f" "unat off + length bs \<le> 4096" "a \<noteq> f"
  shows "write_bytes (f + off) bs m a = m a"
  using assms(2)
proof (induction bs arbitrary: off m)
  case (Cons b bs)
  have o: "unat off < 4096" using Cons.prems by simp
  have w: "write_byte (f + off) b m a = m a"
    using assms(3) mem_frame_add(1) [OF assms(1) o] by (simp add: write_byte_def pt_write_def)
  show ?case
  proof (cases "bs = []")
    case False
    then have "unat off + 1 < 4096" using Cons.prems by (cases bs) auto
    then have "unat (off + 1) = unat off + 1" by (subst unat_add_no_overflow) auto
    then show ?thesis using Cons.IH [of "off + 1" "write_byte (f + off) b m"] Cons.prems w by (simp add: add.assoc)
  qed (use w in simp)
qed simp

subsection \<open>Mapping, unmapping and writing\<close>

lemma pt_step_user:
  assumes st: "pt_step (as_root s) virt m A m' A'" and v: "user_half virt" and ok: "space_ok kr X m A s"
  shows "m' a \<noteq> m a \<Longrightarrow> a \<in> A \<union> set (owned s)"
    and "256 \<le> i \<Longrightarrow> m' (as_root s) i = m (as_root s) i"
    and "user_tables m' (as_root s) \<subseteq> set (as_frames s) \<union> (A - A')"
    and "pt_tables m' (as_root s) \<subseteq> pt_tables m (as_root s) \<union> (A - A')"
proof -
  have pt: "pt_inv m (as_root s) A" using ok by (simp add: space_ok_def)
  have c: "a \<in> A \<or> (\<exists>p q. vpath virt = p @ i # q \<and> table_at m (as_root s) p = Some a)" if "m' a i \<noteq> m a i" for a i
    using st that unfolding pt_step_def by blast
  have path: "a = as_root s \<and> i < 256 \<or> p \<noteq> [] \<and> a \<in> set (as_frames s)"
    if p: "vpath virt = p @ i # q" "table_at m (as_root s) p = Some a" for p i q a
  proof (cases p)
    case Nil
    then show ?thesis using p v by (simp add: vpath_def)
  next
    case (Cons j r)
    then have "j = table_index virt 4" using p(1) by (simp add: vpath_def)
    then have "a \<in> user_tables m (as_root s)" using user_tablesI vpath_prefix_ok [OF p(1)] p(2) Cons v by blast
    then show ?thesis using ok Cons by (auto simp: space_ok_def)
  qed
  show "a \<in> A \<union> set (owned s)" if ne: "m' a \<noteq> m a" for a
  proof -
    obtain i where "m' a i \<noteq> m a i" using ne by blast
    then show ?thesis using c [of a i] path [of _ i _ a] by (auto simp: owned_def)
  qed
  show "m' (as_root s) i = m (as_root s) i" if i: "256 \<le> i" for i
  proof (rule ccontr)
    assume ne: "m' (as_root s) i \<noteq> m (as_root s) i"
    have "as_root s \<notin> A" using pt_invD(1) [OF pt path_ok_simps(2)] by simp
    then obtain p q where p: "vpath virt = p @ i # q" "table_at m (as_root s) p = Some (as_root s)" using c [OF ne] by blast
    have "p = []" using pt_invD(2) [OF pt path_ok_simps(2) _ vpath_prefix_ok [OF p(1)] p(2)] by simp
    then show False using path [OF p] i by simp
  qed
  have t: "table_at m (as_root s) p = Some T \<or> T \<in> A - A'" if "path_ok p" "table_at m' (as_root s) p = Some T" for p T
    using st that unfolding pt_step_def by blast
  show "user_tables m' (as_root s) \<subseteq> set (as_frames s) \<union> (A - A')"
  proof
    fix T assume "T \<in> user_tables m' (as_root s)"
    then obtain i p where ip: "path_ok (i # p)" "i < 256" "table_at m' (as_root s) (i # p) = Some T" unfolding user_tables_def by blast
    have "user_tables m (as_root s) \<subseteq> set (as_frames s)" using ok by (simp add: space_ok_def)
    then show "T \<in> set (as_frames s) \<union> (A - A')"
      using t [OF ip(1,3)] user_tablesI [OF ip(1,2), of m "as_root s" T] by blast
  qed
  show "pt_tables m' (as_root s) \<subseteq> pt_tables m (as_root s) \<union> (A - A')" using t by (auto simp: pt_tables_def)
qed

text \<open>Frames of the space and lent frames are not among the frames a mapping takes.\<close>

lemma leaf_not_table:
  assumes inv: "spaces_inv kr X P (xs @ s # ys) (m, ps)" and st: "pt_step (as_root s) virt m (phys_avail ps) m' A'"
    and v: "user_half virt" and f: "f \<in> X \<union> (set (as_frames s) - pt_tables m (as_root s))"
  shows "f \<in> X \<union> (set (as_frames s) - pt_tables m' (as_root s))"
  using pt_step_user(4) [OF st v spaces_invD(3) [OF inv]] f spaces_invD(7) [OF inv]
    global_fa.taken_not_avail [OF spaces_invD(1) [OF inv]]
  by (auto simp: owned_def)

lemma as_map_4k_local:
  assumes inv: "spaces_inv kr X P (xs @ s # ys) (m, ps)" and v: "user_half virt"
    and r: "as_map_4k s virt phys flags (m, ps) = (r, s', (m', ps'))"
    and p: "phys \<in> X \<union> (set (as_frames s) - pt_tables m (as_root s))" "phys AND ADDR_MASK = phys"
  shows "spaces_inv kr X P (xs @ s' # ys) (m', ps') \<and> unseen kr (xs @ ys) m m'"
proof -
  note D = spaces_invD [OF inv]
  have pt: "pt_inv m (as_root s) (phys_avail ps)" using D(3) by (simp add: space_ok_def)
  note c = as_map_4k_cases [OF r D(1) pt]
  note u = pt_step_user [OF c(3) v D(3)]
  obtain new where new: "as_frames s' = as_frames s @ new" "set new = phys_avail ps - phys_avail ps'"
    using c(2) by (auto simp: recorded_def)
  have kr: "m' kr i = m kr i" for i
  proof (rule ccontr)
    assume "m' kr i \<noteq> m kr i"
    then have "kr \<in> phys_avail ps \<union> set (owned s)" using u(1) [of kr] by metis
    then show False using D(2,8) pt_tables_root [of kr m] by (auto simp: pt_inv_def pt_tables_def)
  qed
  have lv: "user_leaves m (as_root s) (set (as_frames s)) X" using D(3) by (simp add: space_ok_def)
  have "tr_phys t = mem_frame (tr_phys t) + page_offset w \<and> mem_frame (tr_phys t) \<in> X \<union> (set (as_frames s') - pt_tables m' (as_root s))"
    if w: "user_half w" "translate m' (as_root s) w = Some t" for w t
  proof (cases "r = Ok () \<and> vpn w = vpn virt")
    case True
    then have "t = mapped_as phys flags w" using c(6) [of w] w(2) by simp
    then show ?thesis using mapped_as_frame [OF p(2)] leaf_not_table [OF inv c(3) v p(1)] new(1) by auto
  next
    case False
    then have "translate m (as_root s) w = Some t" using c(5) [of w] w(2) by auto
    then show ?thesis
      using lv w(1) leaf_not_table [OF inv c(3) v, of "mem_frame (tr_phys t)"] new(1) unfolding user_leaves_def by auto
  qed
  then have "space_ok kr X m' (phys_avail ps') s'"
    using c(1,4) u(2,3) kr new D(3) by (auto simp: space_ok_def user_leaves_def)
  then show ?thesis using u(1) by (intro local_change [OF inv c(1,2)]) auto
qed

lemma data_local:
  assumes inv: "spaces_inv kr X P (xs @ s # ys) (m, ps)"
    and root: "as_root s' = as_root s" and rec: "recorded ps (as_frames s) ps' (as_frames s')"
    and m': "\<And>a. m' a \<noteq> m a \<Longrightarrow> a \<in> phys_avail ps \<union> X \<union> (set (as_frames s) - pt_tables m (as_root s))"
  shows "spaces_inv kr X P (xs @ s' # ys) (m', ps') \<and> unseen kr (xs @ ys) m m' \<and> pt_tables m' (as_root s) = pt_tables m (as_root s)"
proof -
  note D = spaces_invD [OF inv]
  have pt: "pt_inv m (as_root s) (phys_avail ps)" using D(3) by (simp add: space_ok_def)
  obtain new where new: "as_frames s' = as_frames s @ new" "phys_avail ps' \<subseteq> phys_avail ps" using rec by (auto simp: recorded_def)
  have na: "T \<notin> phys_avail ps" if "T \<in> pt_tables m (as_root s)" for T using pt that by (auto simp: pt_tables_def pt_inv_def)
  have nx: "T \<notin> X" if "T \<in> pt_tables m (as_root s)" for T using space_tables [OF D(3)] that D(9) by auto
  have same: "m' T = m T" if "T \<in> pt_tables m (as_root s)" for T
    using m' [of T] na nx that by blast
  note S = same_tables [OF pt same new(2)]
  have "kr \<notin> phys_avail ps \<union> X \<union> set (as_frames s)"
    using D(2,8,9) pt_tables_root [of kr m] by (auto simp: pt_inv_def pt_tables_def owned_def)
  then have "m' kr = m kr" "m' (as_root s) = m (as_root s)" using m' same pt_tables_root by blast+
  then have "space_ok kr X m' (phys_avail ps') s'"
    using D(3) S user_leaves_cong [OF _ S(2,4)] by (auto simp: space_ok_def root new(1) user_leaves_def)
  then show ?thesis using m' S(4) local_change [OF inv root rec, of m'] by (auto simp: owned_def)
qed

lemma map_user_page_local:
  assumes inv: "spaces_inv kr X P (xs @ s # ys) (m, ps)" and r: "map_user_page s virt flags (m, ps) = (r, s', (m', ps'))"
  shows "spaces_inv kr X P (xs @ s' # ys) (m', ps') \<and> unseen kr (xs @ ys) m m'"
proof (cases "virt \<ge> USER_ADDRESS_LIMIT")
  case True
  then show ?thesis using r inv by (simp add: map_user_page_def)
next
  case False
  then have v: "user_half virt" by (intro user_half_limit) simp
  note D = spaces_invD [OF inv]
  obtain f ps1 where al: "phys_allocate_frame ps = (f, ps1)" by (metis surj_pair)
  have rec: "recorded ps (as_frames s) ps1 (as_frames s @ (case f of None \<Rightarrow> [] | Some f \<Rightarrow> [f]))"
    using recorded_allocate [of ps "as_frames s" ps "as_frames s"] al D(1) by simp
  show ?thesis
  proof (cases f)
    case None
    then have "s' = s" "m' = m" "ps' = ps1"
      using r False al by (auto simp: map_user_page_def allocate_zeroed_frame_def)
    then show ?thesis using data_local [OF inv refl, of ps1 m] rec None by simp
  next
    case (Some frame)
    let ?s = "s\<lparr>as_frames := as_frames s @ [frame]\<rparr>" and ?m = "table_zero frame m"
    have fr: "frame \<in> phys_avail ps" using phys_alloc_cases [OF D(1) al] Some by simp
    have z: "spaces_inv kr X P (xs @ ?s # ys) (?m, ps1) \<and> unseen kr (xs @ ys) m ?m \<and> pt_tables ?m (as_root s) = pt_tables m (as_root s)"
      by (rule data_local [OF inv]) (use rec Some fr in \<open>auto simp: table_zero_def split: if_splits\<close>)
    obtain r1 where mp: "as_map_4k ?s virt frame (flags_union (flags_union flags PF_USER) PF_PRESENT) (?m, ps1) = (r1, s', (m', ps'))"
      using r False al Some by (auto simp: map_user_page_def allocate_zeroed_frame_def split: prod.splits sum.splits)
    have pt: "pt_inv m (as_root s) (phys_avail ps)" using D(3) by (simp add: space_ok_def)
    then have f: "frame AND ADDR_MASK = frame" "frame \<notin> pt_tables m (as_root s)" using fr by (auto simp: pt_inv_def pt_tables_def)
    have "spaces_inv kr X P (xs @ s' # ys) (m', ps') \<and> unseen kr (xs @ ys) ?m m'"
      by (rule as_map_4k_local [OF _ v mp]) (use z f in auto)
    then show ?thesis using z unseen_trans by blast
  qed
qed

lemma unmap_4k_local:
  assumes inv: "spaces_inv kr X P (xs @ s # ys) (m, ps)" and v: "user_half virt"
    and r: "unmap_4k (as_root s) virt m = (r, m')"
  shows "spaces_inv kr X P (xs @ s # ys) (m', ps) \<and> unseen kr (xs @ ys) m m'"
proof -
  note D = spaces_invD [OF inv]
  have pt: "pt_inv m (as_root s) (phys_avail ps)" using D(3) by (simp add: space_ok_def)
  note st = unmap_4k_step [OF r pt]
  note u = pt_step_user [OF st v D(3)]
  have kr: "m' kr = m kr"
    using u(1) [of kr] D(2,8) pt_tables_root [of kr m] by (auto simp: pt_inv_def pt_tables_def)
  have "translate m' (as_root s) w = None \<or> translate m' (as_root s) w = translate m (as_root s) w" for w
    using unmap_4k_inv [OF r pt] by (cases r) auto
  then have "user_leaves m' (as_root s) (set (as_frames s)) X"
    using D(3) leaf_not_table [OF inv st v] unfolding space_ok_def user_leaves_def by (metis option.distinct(1))
  then have "space_ok kr X m' (phys_avail ps) s"
    using unmap_4k_inv [OF r pt] u(2,3) kr D(3) by (auto simp: space_ok_def)
  then show ?thesis using u(1) D(1) by (intro local_change [OF inv refl]) auto
qed

lemma unmap_shared_loop_local:
  assumes "spaces_inv kr X P (xs @ s # ys) (m, ps)" "\<And>i. i \<in> set is \<Longrightarrow> user_half (virt_add base (word_of_nat i * PAGE_SIZE))"
    and "unmap_shared_loop (as_root s) base is m = (r, m')"
  shows "spaces_inv kr X P (xs @ s # ys) (m', ps) \<and> unseen kr (xs @ ys) m m'"
  using assms
proof (induction "is" arbitrary: m)
  case (Cons i "is")
  obtain r1 m1 where 1: "unmap_4k (as_root s) (virt_add base (word_of_nat i * PAGE_SIZE)) m = (r1, m1)" by (metis surj_pair)
  have l: "spaces_inv kr X P (xs @ s # ys) (m1, ps) \<and> unseen kr (xs @ ys) m m1"
    by (rule unmap_4k_local [OF Cons.prems(1) _ 1]) (rule Cons.prems(2), simp)
  then have "spaces_inv kr X P (xs @ s # ys) (m', ps) \<and> unseen kr (xs @ ys) m1 m'" if "unmap_shared_loop (as_root s) base is m1 = (r, m')"
    using Cons.IH [of m1] Cons.prems(2) that by auto
  then show ?case
    using Cons.prems(3) 1 l unseen_trans [of kr "xs @ ys" m m1 m']
    by (auto split: sum.splits pt_error.splits)
qed simp

lemma sys_memory_unmap_local:
  assumes inv: "spaces_inv kr X P (xs @ s # ys) (m, ps)" and r: "sys_memory_unmap s base len m = (r, m')"
  shows "spaces_inv kr X P (xs @ s # ys) (m', ps) \<and> unseen kr (xs @ ys) m m'"
proof (cases "checked_add base len")
  case None
  then show ?thesis using r inv by (simp add: sys_memory_unmap_def)
next
  case (Some e)
  have e: "unat base + unat len = unat e" using Some by (auto simp: checked_add_def unat_add_no_overflow split: if_splits)
  have half: "user_half (virt_add base (word_of_nat i * PAGE_SIZE))"
    if g: "len mod PAGE_SIZE = 0" "e \<le> USER_ADDRESS_LIMIT" "i < unat (align_up len PAGE_SIZE div PAGE_SIZE)" for i
  proof (rule user_half_limit)
    have lim: "unat USER_ADDRESS_LIMIT = 2 ^ 47" by (simp add: USER_ADDRESS_LIMIT_def)
    then have le: "unat base + unat len \<le> 2 ^ 47" using g(2) e by (simp add: word_le_nat_alt)
    have "unat (len mod PAGE_SIZE) = 0" using g(1) by simp
    then have d: "4096 dvd unat len" by (simp add: unat_mod_distrib dvd_eq_mod_eq_0)
    then obtain q where q: "unat len = 4096 * q" by (elim dvdE)
    have "unat (align_up len PAGE_SIZE) = (unat len + 4095) div 4096 * 4096"
      using unat_align_up [of 12 len] le by (simp add: PAGE_SIZE_pow2)
    then have "unat (align_up len PAGE_SIZE div PAGE_SIZE) = q" using q by (simp add: unat_div_distrib)
    then have i: "i < q" using g(3) by simp
    then have "unat (word_of_nat i * PAGE_SIZE :: u64) = i * 4096"
      using le q by (simp add: PAGE_SIZE_val unat_word_ariths unat_of_nat)
    then have "unat (base + word_of_nat i * PAGE_SIZE) = unat base + i * 4096"
      using le q i by (subst unat_add_no_overflow) auto
    then show "virt_add base (word_of_nat i * PAGE_SIZE) < USER_ADDRESS_LIMIT"
      using le q i by (simp add: virt_add_def word_less_nat_alt lim)
  qed
  show ?thesis
  proof (cases "len mod PAGE_SIZE = 0 \<and> e \<le> USER_ADDRESS_LIMIT \<and> \<not> USER_ADDRESS_LIMIT \<le> base \<and> m' \<noteq> m")
    case True
    then obtain r' where "unmap_shared_loop (as_root s) base [0..<unat (align_up len PAGE_SIZE div PAGE_SIZE)] m = (r', m')"
      using r Some by (auto simp: sys_memory_unmap_def unmap_user_shared_def split: if_splits prod.splits sum.splits)
    then show ?thesis using True half by (intro unmap_shared_loop_local [OF inv]) auto
  next
    case False
    then have "m' = m"
      using r Some by (auto simp: sys_memory_unmap_def unmap_user_shared_def not_le split: if_splits prod.splits sum.splits)
    then show ?thesis using inv by simp
  qed
qed

lemma as_write_local:
  assumes "spaces_inv kr X P (xs @ s # ys) (m, ps)" "unat v + length data \<le> unat USER_ADDRESS_LIMIT"
    and "as_write s v data m = (r, m')"
  shows "spaces_inv kr X P (xs @ s # ys) (m', ps) \<and> unseen kr (xs @ ys) m m'"
  using assms
proof (induction s v data m rule: as_write.induct)
  case (1 s v data m)
  show ?case
  proof (cases "data = [] \<or> as_translate s v m = None")
    case True
    then have "m' = m" using "1.prems"(3) as_write.simps [of s v data m] by (auto split: if_splits)
    then show ?thesis using "1.prems"(1) by simp
  next
    case False
    then obtain phys t where t: "as_translate s v m = Some phys" "translate m (as_root s) v = Some t" "phys = tr_phys t" "data \<noteq> []"
      by (auto simp: as_translate_def)
    let ?c = "unat (PAGE_SIZE - page_offset v)"
    let ?n = "min ?c (length data)"
    let ?m = "write_bytes phys (take ?n data) m"
    note D = spaces_invD [OF "1.prems"(1)]
    have "v < USER_ADDRESS_LIMIT" using "1.prems"(2) t(4) by (cases data) (auto simp: word_less_nat_alt)
    then have v: "user_half v" by (rule user_half_limit)
    have lv: "phys = mem_frame phys + page_offset v" "mem_frame phys \<in> X \<union> (set (as_frames s) - pt_tables m (as_root s))"
      using D(3) v t by (simp_all add: space_ok_def user_leaves_def)
    have al: "4096 dvd unat (mem_frame phys)" by (simp add: unat_mem_frame)
    have "page_offset v \<le> PAGE_SIZE" using page_offset_less [of v] by (simp add: word_le_nat_alt)
    then have c: "unat (page_offset v) + ?n \<le> 4096" using page_offset_less [of v] by (simp add: unat_sub)
    have ch: "a = mem_frame phys" if "?m a \<noteq> m a" for a
      using write_bytes_frame [OF al, of "page_offset v" "take ?n data" a m] c lv(1) that by auto
    have z: "spaces_inv kr X P (xs @ s # ys) (?m, ps) \<and> unseen kr (xs @ ys) m ?m \<and> pt_tables ?m (as_root s) = pt_tables m (as_root s)"
    proof (rule data_local [OF "1.prems"(1) refl])
      show "recorded ps (as_frames s) ps (as_frames s)" using D(1) by simp
      show "a \<in> phys_avail ps \<union> X \<union> (set (as_frames s) - pt_tables m (as_root s))" if "?m a \<noteq> m a" for a
        using ch [OF that] lv(2) by simp
    qed
    have w: "as_write s (virt_add v (word_of_nat ?n)) (drop ?n data) ?m = (r, m')"
      using "1.prems"(3) as_write.simps [of s v data m] t by (simp add: Let_def)
    have "?n \<le> 4096" using c by simp
    moreover have lim: "unat USER_ADDRESS_LIMIT = 2 ^ 47" by (simp add: USER_ADDRESS_LIMIT_def)
    ultimately have "unat (virt_add v (word_of_nat ?n)) = unat v + ?n"
      using "1.prems"(2) unfolding virt_add_def by (subst unat_add_no_overflow) (auto simp: unat_of_nat)
    then have "spaces_inv kr X P (xs @ s # ys) (m', ps) \<and> unseen kr (xs @ ys) ?m m'"
      using "1.IH" [OF t(4) t(1) refl refl] z "1.prems"(2) w by auto
    then show ?thesis using z unseen_trans by blast
  qed
qed

subsection \<open>Creating and destroying spaces\<close>

lemma as_new_inv:
  assumes inv: "spaces_inv kr X P S (m, ps)" and r: "as_new kr nid (m, ps) = (Some s, nid', (m', ps'))"
  shows "spaces_inv kr X P (s # S) (m', ps') \<and> unseen kr S m m' \<and> as_root s \<in> phys_avail ps"
proof -
  have I: "phys_inv ps" "pt_inv m kr (phys_avail ps)" "set (concat (map owned S)) \<subseteq> phys_taken ps"
    "set (concat (map owned S)) \<inter> pt_tables m kr = {}" "\<And>t. t \<in> set S \<Longrightarrow> space_ok kr X m (phys_avail ps) t"
    "X \<inter> (phys_avail ps \<union> set (concat (map owned S)) \<union> pt_tables m kr) = {}" "distinct (concat (map owned S))"
    "P = phys_avail ps \<union> set (concat (map owned S))"
    "\<And>x. x \<in> X \<union> set (concat (map owned S)) \<Longrightarrow> x AND ADDR_MASK = x"
    using inv unfolding spaces_inv_def by auto
  obtain root where al: "phys_allocate_frame ps = (Some root, ps')" and s: "s = \<lparr>as_root = root, as_id = nid, as_frames = []\<rparr>"
    and m': "m' = (table_zero root m)(root := (\<lambda>i. if 256 \<le> i \<and> i < 512 then table_zero root m kr i else table_zero root m root i))"
    using r by (auto simp: as_new_def allocate_zeroed_frame_def split: prod.splits option.splits)
  have c: "phys_inv ps'" "root \<in> phys_avail ps" "phys_avail ps' = phys_avail ps - {root}" "phys_taken ps' = insert root (phys_taken ps)"
    using phys_alloc_cases [OF I(1) al] by auto
  have dis: "phys_avail ps \<inter> phys_taken ps = {}" by (rule global_fa.taken_not_avail [OF I(1)])
  have nk: "root \<notin> pt_tables m kr" using I(2) c(2) by (auto simp: pt_tables_def pt_inv_def)
  then have ne: "kr \<noteq> root" using pt_tables_root by blast
  have same: "m' T = m T" if "T \<noteq> root" for T using that by (simp add: m' table_zero_def)
  have new: "m' root i = (if 256 \<le> i \<and> i < 512 then m kr i else 0)" for i
    using ne by (auto simp: m' table_zero_def pte_empty_def)
  have sub: "phys_avail ps' \<subseteq> phys_avail ps" using c(3) by blast
  have kt: "m' T = m T" if "T \<in> pt_tables m kr" for T using same [of T] that nk by metis
  note K = same_tables [OF I(2) kt sub]
  have others: "space_ok kr X m' (phys_avail ps') t \<and> (\<forall>v. translate m' (as_root t) v = translate m (as_root t) v) \<and> (\<forall>f\<in>set (owned t). m' f = m f)"
    if t: "t \<in> set S" for t
  proof -
    have ok: "space_ok kr X m (phys_avail ps) t" by (rule I(5) [OF t])
    have no: "root \<notin> set (owned t)" using t I(3) c(2) dis by auto
    have st: "m' T = m T" if "T \<in> pt_tables m (as_root t)" for T
      using space_tables [OF ok] that nk no same [of T] by (metis Un_iff subsetD)
    have pt: "pt_inv m (as_root t) (phys_avail ps)" using ok by (simp add: space_ok_def)
    note S = same_tables [OF pt st sub]
    have "m' (as_root t) = m (as_root t)" "m' kr = m kr" using st kt pt_tables_root by blast+
    then have "space_ok kr X m' (phys_avail ps') t" using ok S user_leaves_cong [OF _ S(2,4)] by (simp add: space_ok_def)
    then show ?thesis using S(2) no same by metis
  qed
  have up: "table_at m' root (i # p) = (if 256 \<le> i \<and> i < 512 then table_at m' kr (i # p) else None)" for i p
    using same [OF ne] by (auto simp: new)
  have tk: "table_at m' kr p = table_at m kr p" if "path_ok p" for p using K(1) that by blast
  have tp: "p = [] \<and> T = root \<or> p \<noteq> [] \<and> 256 \<le> hd p \<and> table_at m kr p = Some T"
    if "path_ok p" "table_at m' root p = Some T" for p T
    using that up tk [OF that(1)] by (cases p) (auto simp del: table_at.simps(2) split: if_splits)
  have "p = q" if "path_ok p" "path_ok q" "table_at m' root p = Some T" "table_at m' root q = Some T" for p q T
    using tp [OF that(1,3)] tp [OF that(2,4)] nk pt_tablesI that(1,2) pt_invD(2) [OF I(2)] by blast
  moreover have "T \<notin> phys_avail ps'" if "path_ok p" "table_at m' root p = Some T" for p T
    using tp [OF that] pt_invD(1) [OF I(2) that(1)] c(3) by blast
  moreover have "\<forall>i<512. pte_is_present (m' root i) \<longrightarrow> \<not> pte_is_huge (m' root i)" "\<forall>a\<in>phys_avail ps'. a AND ADDR_MASK = a"
    using I(2) c(3) by (auto simp: new pt_inv_def)
  ultimately have "pt_inv m' root (phys_avail ps')" unfolding pt_inv_def by blast
  moreover have "user_tables m' root = {}" using tp by (fastforce simp: user_tables_def simp del: table_at.simps)
  moreover have "translate m' root v = None" if "user_half v" for v
    using that by (simp add: translate_trp vpath_def new)
  ultimately have ok: "space_ok kr X m' (phys_avail ps') s"
    using same [OF ne] by (auto simp: space_ok_def s user_leaves_def new)
  have "root AND ADDR_MASK = root" using I(2) c(2) by (simp add: pt_inv_def)
  then have "spaces_inv kr X P (s # S) (m', ps')"
    using c I K(3,4) others ok nk dis by (auto simp: spaces_inv_def owned_def s)
  then show ?thesis using others K(2) c(2) by (auto simp: unseen_def s)
qed

lemma as_new_fail:
  assumes inv: "spaces_inv kr X P S (m, ps)" and r: "as_new kr nid (m, ps) = (None, nid', (m', ps'))"
  shows "m' = m \<and> spaces_inv kr X P S (m', ps')"
proof -
  have i: "phys_inv ps" using inv by (simp add: spaces_inv_def)
  obtain al: "phys_allocate_frame ps = (None, ps')" and m: "m' = m"
    using r by (auto simp: as_new_def allocate_zeroed_frame_def split: prod.splits option.splits)
  have "phys_inv ps'" "phys_avail ps' = phys_avail ps" "phys_taken ps' = phys_taken ps"
    using phys_alloc_cases [OF i al] by auto
  then show ?thesis using inv m by (simp add: spaces_inv_def)
qed

lemma fold_free:
  assumes "phys_inv ps" "distinct fs" "set fs \<subseteq> phys_taken ps"
  shows "\<exists>ps'. fold mm_free_frame fs (m, ps) = (m, ps') \<and> phys_inv ps' \<and>
    phys_avail ps' = phys_avail ps \<union> set fs \<and> phys_taken ps' = phys_taken ps - set fs"
proof -
  have 1: "fold (\<lambda>f s. Option.bind s (\<lambda>s. global_deallocate_frame s f)) fs (Some ps) =
      Some (snd (fold mm_free_frame fs (m, ps))) \<and> fst (fold mm_free_frame fs (m, ps)) = m" for ps
    by (induction fs arbitrary: ps) (simp_all add: global_deallocate_frame_def mm_free_frame_def)
  show ?thesis
    using global_fa.dealloc_all [OF assms] 1 [of ps] by (metis option.inject prod.collapse)
qed

lemma as_drop_inv:
  assumes inv: "spaces_inv kr X P (xs @ s # ys) (m, ps)" and r: "as_drop kr cr3 s (m, ps) = (cr3', (m', ps'))"
  shows "m' = m \<and> spaces_inv kr X P (xs @ ys) (m', ps') \<and> phys_avail ps' = phys_avail ps \<union> set (owned s)"
proof -
  note D = spaces_invD [OF inv]
  have o: "owned s = as_root s # as_frames s" by (simp add: owned_def)
  obtain ps1 where 1: "fold mm_free_frame (as_frames s) (m, ps) = (m, ps1)" "phys_inv ps1"
    "phys_avail ps1 = phys_avail ps \<union> set (as_frames s)" "phys_taken ps1 = phys_taken ps - set (as_frames s)"
    using fold_free [OF D(1), of "as_frames s" m] D(6,7) by (auto simp: o)
  obtain ps2 where 2: "fold mm_free_frame [as_root s] (m, ps1) = (m, ps2)" "phys_inv ps2"
    "phys_avail ps2 = phys_avail ps1 \<union> {as_root s}" "phys_taken ps2 = phys_taken ps1 - {as_root s}"
    using fold_free [OF 1(2), of "[as_root s]" m] D(6,7) 1(4) by (auto simp: o)
  have m: "m' = m" "ps' = ps2"
    using r 1(1) 2(1) by (auto simp: as_drop_def)
  have av: "phys_avail ps2 = phys_avail ps \<union> set (owned s)" "phys_taken ps2 = phys_taken ps - set (owned s)" "phys_inv ps2"
    using 1 2 by (auto simp: o)
  have mask: "\<forall>a\<in>set (owned s). a AND ADDR_MASK = a" using D(13) by auto
  have pk: "pt_inv m kr (phys_avail ps2)" using D(2,8) mask av(1) by (auto simp: pt_inv_def pt_tables_def)
  have ok: "space_ok kr X m (phys_avail ps2) t" if t: "t \<in> set (xs @ ys)" for t
  proof -
    have "pt_tables m (as_root t) \<inter> set (owned s) = {}" using space_tables [OF D(4) [OF t]] D(5) [OF t] D(8) by blast
    then show ?thesis using D(4) [OF t] mask av(1) by (auto simp: space_ok_def pt_inv_def pt_tables_def)
  qed
  have od: "set (concat (map owned (xs @ ys))) \<inter> set (owned s) = {}" using D(5) by auto
  have "spaces_inv kr X P (xs @ ys) (m, ps2)"
    using inv av pk ok od by (auto simp: spaces_inv_def)
  then show ?thesis using m av(1) by simp
qed

subsection \<open>Runs\<close>

text \<open>
  The steps a machine takes on its address spaces. The label is the root of the space a step works on.
  Lent frames (\<open>X\<close>) are the only ones that device and shared mappings may name.
\<close>

type_synonym spaces_state = "u64 \<times> addr_space list \<times> mm_state"

inductive space_step :: "phys_addr \<Rightarrow> phys_addr set \<Rightarrow> phys_addr option \<Rightarrow> spaces_state \<Rightarrow> spaces_state \<Rightarrow> bool" for kr X where
  new: "as_new kr nid st = (Some s, nid', st') \<Longrightarrow> space_step kr X (Some (as_root s)) (nid, S, st) (nid', s # S, st')"
| new_fail: "as_new kr nid st = (None, nid', st') \<Longrightarrow> space_step kr X None (nid, S, st) (nid', S, st')"
| page: "map_user_page s virt flags st = (r, s', st') \<Longrightarrow>
    space_step kr X (Some (as_root s)) (nid, xs @ s # ys, st) (nid, xs @ s' # ys, st')"
| mmio: "map_user_mmio s virt phys st = (r', s', st') \<Longrightarrow> phys \<in> X \<Longrightarrow>
    space_step kr X (Some (as_root s)) (nid, xs @ s # ys, st) (nid, xs @ s' # ys, st')"
| shared: "map_user_shared s virt phys st = (r', s', st') \<Longrightarrow> phys \<in> X \<Longrightarrow>
    space_step kr X (Some (as_root s)) (nid, xs @ s # ys, st) (nid, xs @ s' # ys, st')"
| unmap: "sys_memory_unmap s base len m = (rr, m') \<Longrightarrow>
    space_step kr X (Some (as_root s)) (nid, xs @ s # ys, (m, ps)) (nid, xs @ s # ys, (m', ps))"
| store: "as_write s v data m = (r', m') \<Longrightarrow> unat v + length data \<le> unat USER_ADDRESS_LIMIT \<Longrightarrow>
    space_step kr X (Some (as_root s)) (nid, xs @ s # ys, (m, ps)) (nid, xs @ s # ys, (m', ps))"
| drop: "as_drop kr cr3 s st = (cr3', st') \<Longrightarrow>
    space_step kr X (Some (as_root s)) (nid, xs @ s # ys, st) (nid, xs @ ys, st')"

inductive space_run :: "phys_addr \<Rightarrow> phys_addr set \<Rightarrow> phys_addr option list \<Rightarrow> spaces_state \<Rightarrow> spaces_state \<Rightarrow> bool" for kr X where
  stop: "space_run kr X [] w w"
| more: "space_step kr X l w w1 \<Longrightarrow> space_run kr X ls w1 w2 \<Longrightarrow> space_run kr X (l # ls) w w2"

text \<open>One step: the invariant holds again, and the spaces that the step does not work on stay as they are.\<close>

definition others :: "phys_addr option \<Rightarrow> addr_space list \<Rightarrow> addr_space list" where
  "others l S = filter (\<lambda>t. Some (as_root t) \<noteq> l) S"

lemma others_one:
  assumes "spaces_inv kr X P (xs @ s # ys) st"
  shows "others (Some (as_root s)) (xs @ s # ys) = xs @ ys"
proof -
  have "as_root t \<noteq> as_root s" if "t \<in> set (xs @ ys)" for t
  proof -
    have "set (owned t) \<inter> set (owned s) = {}" using assms that by (cases st) (metis spaces_invD(5))
    then show ?thesis by (auto simp: owned_def)
  qed
  then show ?thesis by (simp add: others_def filter_id_conv)
qed

lemma map_shared_local:
  assumes inv: "spaces_inv kr X P (xs @ s # ys) (m, ps)" and x: "phys \<in> X"
    and r: "map_user_mmio s virt phys (m, ps) = (r, s', (m', ps')) \<or> map_user_shared s virt phys (m, ps) = (r, s', (m', ps'))"
  shows "spaces_inv kr X P (xs @ s' # ys) (m', ps') \<and> unseen kr (xs @ ys) m m'"
proof (cases "virt \<ge> USER_ADDRESS_LIMIT")
  case True
  then show ?thesis using r inv by (auto simp: map_user_mmio_def map_user_shared_def)
next
  case False
  then have v: "user_half virt" by (intro user_half_limit) simp
  obtain flags where "as_map_4k s virt phys flags (m, ps) = (r, s', (m', ps'))"
    using r False by (auto simp: map_user_mmio_def map_user_shared_def)
  then show ?thesis using x spaces_invD(10) [OF inv x] by (intro as_map_4k_local [OF inv v]) auto
qed

lemma space_step_inv:
  assumes "space_step kr X l (nid, S, (m, ps)) (nid', S', (m', ps'))" "spaces_inv kr X P S (m, ps)"
  shows "spaces_inv kr X P S' (m', ps') \<and> unseen kr (others l S) m m' \<and> set (others l S) \<subseteq> set S'"
  using assms(1)
proof cases
  case (new s)
  have i: "spaces_inv kr X P (s # S) (m', ps') \<and> unseen kr S m m' \<and> as_root s \<in> phys_avail ps"
    by (rule as_new_inv [OF assms(2) new(3)])
  then show ?thesis using new by (auto simp: others_def unseen_def)
next
  case new_fail
  have i: "m' = m \<and> spaces_inv kr X P S (m', ps')" by (rule as_new_fail [OF assms(2) new_fail(3)])
  then show ?thesis using new_fail by (auto simp: others_def)
next
  case (page s virt flags r s' xs ys)
  note inv = assms(2) [unfolded page]
  show ?thesis using map_user_page_local [OF inv page(5)] others_one [OF inv] page by auto
next
  case (mmio s virt phys r' s' xs ys)
  note inv = assms(2) [unfolded mmio]
  show ?thesis using map_shared_local [OF inv mmio(6), of virt r' s' m' ps'] others_one [OF inv] mmio by auto
next
  case (shared s virt phys r' s' xs ys)
  note inv = assms(2) [unfolded shared]
  show ?thesis using map_shared_local [OF inv shared(6), of virt r' s' m' ps'] others_one [OF inv] shared by auto
next
  case (unmap s base len rr xs ys)
  note inv = assms(2) [unfolded unmap]
  show ?thesis using sys_memory_unmap_local [OF inv unmap(6)] others_one [OF inv] unmap by auto
next
  case (store s v data r' xs ys)
  note inv = assms(2) [unfolded store]
  show ?thesis using as_write_local [OF inv store(7,6)] others_one [OF inv] store by auto
next
  case (drop cr3 s cr3' xs ys)
  note inv = assms(2) [unfolded drop]
  show ?thesis using as_drop_inv [OF inv drop(5)] others_one [OF inv] drop by auto
qed

lemma unseen_subset: "unseen kr ts m m' \<Longrightarrow> set us \<subseteq> set ts \<Longrightarrow> unseen kr us m m'"
  by (auto simp: unseen_def)

lemma space_run_inv:
  assumes "space_run kr X ls (nid, S, (m, ps)) (nid', S', (m', ps'))" "spaces_inv kr X P S (m, ps)"
  shows "spaces_inv kr X P S' (m', ps') \<and> unseen kr (filter (\<lambda>t. Some (as_root t) \<notin> set ls) S) m m' \<and>
    set (filter (\<lambda>t. Some (as_root t) \<notin> set ls) S) \<subseteq> set S'"
  using assms
proof (induction ls "(nid, S, (m, ps))" "(nid', S', (m', ps'))" arbitrary: nid S m ps rule: space_run.induct)
  case (more l w1 ls)
  obtain nid1 S1 m1 ps1 where w1: "w1 = (nid1, S1, (m1, ps1))" by (metis surj_pair)
  have 1: "spaces_inv kr X P S1 (m1, ps1) \<and> unseen kr (others l S) m m1 \<and> set (others l S) \<subseteq> set S1"
    using space_step_inv [OF more.hyps(1) [unfolded w1] more.prems] .
  have 2: "spaces_inv kr X P S' (m', ps') \<and> unseen kr (filter (\<lambda>t. Some (as_root t) \<notin> set ls) S1) m1 m' \<and>
      set (filter (\<lambda>t. Some (as_root t) \<notin> set ls) S1) \<subseteq> set S'"
    using more.hyps(3) [OF w1] 1 by blast
  let ?T = "filter (\<lambda>t. Some (as_root t) \<notin> set (l # ls)) S"
  have sub: "set ?T \<subseteq> set (others l S)" "set ?T \<subseteq> set (filter (\<lambda>t. Some (as_root t) \<notin> set ls) S1)"
    using 1 by (auto simp: others_def)
  have "unseen kr ?T m m'" using unseen_trans unseen_subset [OF _ sub(1)] unseen_subset [OF _ sub(2)] 1 2 by blast
  then show ?case using 2 sub(2) by auto
qed simp

text \<open>What the invariant says of the pages a space maps in its own half.\<close>

lemma user_page_frames:
  assumes inv: "spaces_inv kr X P S (m, ps)" and s: "s \<in> set S" and v: "user_half v" and t: "translate m (as_root s) v = Some tr"
  shows "mem_frame (tr_phys tr) \<in> X \<union> set (as_frames s)" "mem_frame (tr_phys tr) \<notin> phys_avail ps"
    "mem_frame (tr_phys tr) \<notin> pt_tables m kr" "u \<in> set S \<Longrightarrow> mem_frame (tr_phys tr) \<notin> pt_tables m (as_root u)"
    "u \<in> set S \<Longrightarrow> u \<noteq> s \<Longrightarrow> mem_frame (tr_phys tr) \<notin> set (owned u)"
proof -
  obtain xs ys where S: "S = xs @ s # ys" using split_list [OF s] by blast
  note D = spaces_invD [OF inv [unfolded S]]
  let ?f = "mem_frame (tr_phys tr)"
  have f: "?f \<in> X \<union> (set (as_frames s) - pt_tables m (as_root s))"
    using D(3) v t by (simp add: space_ok_def user_leaves_def)
  then show "?f \<in> X \<union> set (as_frames s)" by blast
  show "?f \<notin> phys_avail ps"
    using f D(7,9) global_fa.taken_not_avail [OF D(1)] by (auto simp: owned_def)
  show k: "?f \<notin> pt_tables m kr" using f D(8,9) by (auto simp: owned_def)
  have o: "?f \<notin> set (owned u)" if u: "u \<in> set (xs @ ys)" for u
    using f D(5,11) [OF u] by (auto simp: owned_def)
  then show "u \<in> set S \<Longrightarrow> u \<noteq> s \<Longrightarrow> ?f \<notin> set (owned u)" by (auto simp: S)
  have "?f \<notin> pt_tables m (as_root s)" using f space_tables [OF D(3)] D(9) by auto
  then show "u \<in> set S \<Longrightarrow> ?f \<notin> pt_tables m (as_root u)" using space_tables [OF D(4)] o k by (auto simp: S)
qed

subsection \<open>Kernel mappings\<close>

lemma pt_inv_table_zero:
  assumes "pt_inv m root A" "f \<in> A" "A' \<subseteq> A"
  shows "pt_inv (table_zero f m) root A'" "translate (table_zero f m) root v = translate m root v"
    "pt_tables (table_zero f m) root = pt_tables m root"
proof -
  have "table_zero f m T = m T" if "T \<in> pt_tables m root" for T
    using assms(1,2) that by (auto simp: table_zero_def pt_tables_def pt_inv_def)
  note same = same_tables [OF assms(1) this assms(3)]
  show "pt_inv (table_zero f m) root A'" "translate (table_zero f m) root v = translate m root v"
    "pt_tables (table_zero f m) root = pt_tables m root"
    using same by blast+
qed

text \<open>A mapping of the kernel for a frame that was just taken out of the pool.\<close>

lemma map_page_taken:
  assumes r: "map_page cr3 virt f flags (m, ps) = (r, (m', ps'))" and inv: "phys_inv ps" "pt_inv m (kernel_mapper cr3) (phys_avail ps)"
    and f: "f \<notin> phys_avail ps" "f \<notin> pt_tables m (kernel_mapper cr3)" "f \<in> phys_taken ps"
  shows "m' f = m f" "f \<notin> phys_avail ps'" "f \<notin> pt_tables m' (kernel_mapper cr3)" "f \<in> phys_taken ps'"
    "phys_avail ps' \<subseteq> phys_avail ps"
proof -
  note mp = r [unfolded map_page_def]
  note st = global_fa.map_4k_step [OF mp inv]
  have "m' f i = m f i" for i
    using st f(1,2) vpath_prefix_ok pt_tablesI unfolding pt_step_def by blast
  then show "m' f = m f" by blast
  show "f \<notin> phys_avail ps'" "phys_avail ps' \<subseteq> phys_avail ps" using st f(1) unfolding pt_step_def by blast+
  show "f \<notin> pt_tables m' (kernel_mapper cr3)"
    using st f(1,2) pt_tablesI unfolding pt_step_def pt_tables_def by blast
  show "f \<in> phys_taken ps'"
    by (rule map_4k_keeps [OF mp, where Q = "\<lambda>p. phys_inv p \<and> f \<in> phys_taken p", THEN conjunct2])
       (use inv f(3) phys_alloc_cases in blast)+
qed

lemma mm_free_taken:
  assumes inv: "phys_inv ps" "pt_inv m root (phys_avail ps)" and f: "f \<in> phys_taken ps" "f \<notin> pt_tables m root" "f AND ADDR_MASK = f"
    and r: "mm_free_frame f (m, ps) = (m', ps')"
  shows "m' = m" "phys_inv ps'" "pt_inv m root (phys_avail ps')" "phys_avail ps' = insert f (phys_avail ps)"
proof -
  obtain q where q: "phys_free_frame ps f = (Ok (), q)" "phys_inv q" "phys_avail q = insert f (phys_avail ps)"
    using phys_free_taken [OF inv(1) f(1)] by auto
  then show "m' = m" "phys_inv ps'" "phys_avail ps' = insert f (phys_avail ps)" using r by (auto simp: mm_free_frame_def)
  then show "pt_inv m root (phys_avail ps')" using inv(2) f(2,3) by (auto simp: pt_inv_def pt_tables_def)
qed

lemma pt_step_tables:
  assumes "pt_step root virt m A m' A'"
  shows "pt_tables m' root = pt_tables m root \<union> (A - A')"
proof
  show "pt_tables m' root \<subseteq> pt_tables m root \<union> (A - A')" using assms unfolding pt_step_def pt_tables_def by blast
  show "pt_tables m root \<union> (A - A') \<subseteq> pt_tables m' root" using assms unfolding pt_step_def pt_tables_def by blast
qed

text \<open>A mapping of the kernel turns the frames it takes into tables.\<close>

lemma map_page_accounts:
  assumes r: "map_page cr3 virt f flags (m, ps) = (r, (m', ps'))" and inv: "phys_inv ps" "pt_inv m (kernel_mapper cr3) (phys_avail ps)"
  shows "phys_avail ps = phys_avail ps' \<union> (pt_tables m' (kernel_mapper cr3) - pt_tables m (kernel_mapper cr3))"
proof -
  note st = global_fa.map_4k_step [OF r [unfolded map_page_def] inv]
  have "pt_tables m (kernel_mapper cr3) \<inter> phys_avail ps = {}" using inv(2) by (auto simp: pt_inv_def pt_tables_def)
  then show ?thesis using pt_step_tables [OF st] st by (auto simp: pt_step_def)
qed

text \<open>\<^verbatim>\<open>unmap_and_free\<close> of a page that shows a frame out of the pool.\<close>

lemma unmap_and_free_page:
  assumes inv: "phys_inv ps" "pt_inv m (kernel_mapper cr3) (phys_avail ps)" and al: "virt_is_aligned virt PAGE_SIZE"
    and tr: "translate m (kernel_mapper cr3) virt = Some (mapped_as f flags virt)"
    and f: "f \<in> phys_taken ps" "f \<notin> pt_tables m (kernel_mapper cr3)" "f AND ADDR_MASK = f"
  shows "\<exists>m' ps'. unmap_and_free cr3 virt (m, ps) = (Ok (), (m', ps')) \<and> phys_avail ps' = insert f (phys_avail ps) \<and>
    (\<forall>v. translate m' (kernel_mapper cr3) v = (if vpn v = vpn virt then None else translate m (kernel_mapper cr3) v))"
proof -
  let ?root = "kernel_mapper cr3"
  obtain p m1 where u: "unmap_4k ?root virt m = (Ok p, m1)" using unmap_4k_succeeds [OF inv(2) al tr] by (auto simp: mapped_as_def)
  note U = unmap_4k_inv [OF u inv(2)]
  have "page_offset virt = 0" using al by (simp add: virt_is_aligned_def page_offset_def)
  then have p: "p = f" using U tr f(3) by (auto simp: mapped_as_def phys_add_def)
  have f1: "f \<notin> pt_tables m1 ?root" using pt_step_tables [OF unmap_4k_step [OF u inv(2)]] f(2) by simp
  obtain m2 ps2 where fr: "mm_free_frame f (m1, ps) = (m2, ps2)" by (metis surj_pair)
  have "pt_inv m1 ?root (phys_avail ps)" using U by simp
  note q = mm_free_taken [OF inv(1) this f(1) f1 f(3) fr]
  have "unmap_and_free cr3 virt (m, ps) = (Ok (), (m2, ps2))" using u fr p by (simp add: unmap_and_free_def unmap_page_def)
  then show ?thesis using q(1,4) U by auto
qed

section \<open>Properties\<close>

text \<open>
  C12: isolation of address spaces. Along every run of creations, mappings, unmappings, writes and
  destructions, the translations of the kernel never change; a space that no step works on keeps
  all its translations and the contents of all its frames; every space sees the kernel half
  exactly as the kernel does; and a page a space can reach in its own half is a lent frame or one
  of its own, never a page table, never a free frame, never a frame of another space.
\<close>

theorem space_isolation:
  assumes "spaces_inv kr X P S (m, ps)" and "space_run kr X ls (nid, S, (m, ps)) (nid', S', (m', ps'))"
  shows "spaces_inv kr X P S' (m', ps') \<and> (\<forall>v. translate m' kr v = translate m kr v) \<and>
    (\<forall>t\<in>set S. Some (as_root t) \<notin> set ls \<longrightarrow>
       t \<in> set S' \<and> (\<forall>v. translate m' (as_root t) v = translate m (as_root t) v) \<and> (\<forall>f\<in>set (owned t). m' f = m f)) \<and>
    (\<forall>s\<in>set S'. \<forall>v. \<not> user_half v \<longrightarrow> translate m' (as_root s) v = translate m kr v) \<and>
    (\<forall>s\<in>set S'. \<forall>v tr. user_half v \<and> translate m' (as_root s) v = Some tr \<longrightarrow>
       mem_frame (tr_phys tr) \<in> X \<union> set (as_frames s) \<and> mem_frame (tr_phys tr) \<notin> phys_avail ps' \<union> pt_tables m' kr \<and>
       (\<forall>u\<in>set S'. mem_frame (tr_phys tr) \<notin> pt_tables m' (as_root u) \<and> (u \<noteq> s \<longrightarrow> mem_frame (tr_phys tr) \<notin> set (owned u))))"
proof -
  note R = space_run_inv [OF assms(2,1)]
  have inv: "spaces_inv kr X P S' (m', ps')" and k: "\<And>v. translate m' kr v = translate m kr v"
    using R by (auto simp: unseen_def)
  have "\<forall>s\<in>set S'. \<forall>v. \<not> user_half v \<longrightarrow> translate m' (as_root s) v = translate m kr v"
    using inv k kernel_half_shared [of kr X m' "phys_avail ps'"] by (auto simp: spaces_inv_def)
  moreover have "\<forall>t\<in>set S. Some (as_root t) \<notin> set ls \<longrightarrow>
      t \<in> set S' \<and> (\<forall>v. translate m' (as_root t) v = translate m (as_root t) v) \<and> (\<forall>f\<in>set (owned t). m' f = m f)"
    using R by (auto simp: unseen_def)
  moreover have "\<forall>s\<in>set S'. \<forall>v tr. user_half v \<and> translate m' (as_root s) v = Some tr \<longrightarrow>
       mem_frame (tr_phys tr) \<in> X \<union> set (as_frames s) \<and> mem_frame (tr_phys tr) \<notin> phys_avail ps' \<union> pt_tables m' kr \<and>
       (\<forall>u\<in>set S'. mem_frame (tr_phys tr) \<notin> pt_tables m' (as_root u) \<and> (u \<noteq> s \<longrightarrow> mem_frame (tr_phys tr) \<notin> set (owned u)))"
    using user_page_frames [OF inv] by blast
  ultimately show ?thesis using inv k by (intro conjI allI)
qed

text \<open>A machine with eight free frames: one space is created, maps a page and is destroyed.\<close>

lemma avail_masked:
  assumes "fa_capacity a \<le> 2 ^ 40" "p \<in> avail_addrs a"
  shows "p AND ADDR_MASK = p"
proof -
  obtain f where f: "p = frame_addr f" "f < 2 ^ 40" using assms by (auto simp: avail_addrs_def free_frames_def)
  have p: "p = push_bit 12 (word_of_nat f)" by (simp add: f(1) push_bit_eq_mult mult.commute PAGE_SIZE_val)
  have "bit ADDR_MASK n" if n: "bit p n" for n
  proof -
    have "12 \<le> n" "bit (word_of_nat f :: u64) (n - 12)" using n by (auto simp: p bit_simps)
    then have "bit f (n - 12)" by (simp add: bit_simps)
    then have "2 ^ (n - 12) \<le> f" by (metis bit_iff_odd div_less even_zero not_le)
    then have "(2::nat) ^ (n - 12) < 2 ^ 40" using f(2) by simp
    then have "n - 12 < 40" by (rule power_less_imp_less_exp [rotated]) simp
    then show ?thesis using \<open>12 \<le> n\<close> by (simp add: ADDR_MASK_bit)
  qed
  then show ?thesis by (intro bit_word_eqI) (auto simp: bit_simps)
qed

definition pool_alloc :: frame_alloc where
  "pool_alloc = snd (mark_usable (the (bitmap_new 64 [0, 0])) 0x10000 0x18000)"

definition pool_start :: mm_state where
  "pool_start = ((\<lambda>_ _. 0), Some (sample_phys\<lparr>ph_alloc := pool_alloc\<rparr>))"

definition pool_new :: "addr_space option \<times> u64 \<times> mm_state" where
  "pool_new = as_new 0x1000 1 pool_start"

definition pool_page :: "(pt_error, phys_addr) result \<times> addr_space \<times> mm_state" where
  "pool_page = map_user_page (the (fst pool_new)) 0x400000 PF_WRITABLE (snd (snd pool_new))"

definition pool_end :: "u64 \<times> mm_state" where
  "pool_end = as_drop 0x1000 0x1000 (fst (snd pool_page)) (snd (snd pool_page))"

lemma pool_alloc_inv: "fa_inv pool_alloc" "fa_capacity pool_alloc = 64"
proof -
  let ?b = "the (bitmap_new 64 [0, 0])"
  have b: "bitmap_new 64 [0, 0] = Some ?b" by code_simp
  have "fst (mark_usable ?b 0x10000 0x18000) = Ok ()" by code_simp
  then have "mark_usable ?b 0x10000 0x18000 = (Ok (), pool_alloc)"
    unfolding pool_alloc_def by (metis prod.collapse)
  moreover have "fa_inv ?b" by (rule bitmap_new_inv(1) [OF b]) simp
  ultimately show "fa_inv pool_alloc" by (blast intro: mark_usable_Ok(1))
  show "fa_capacity pool_alloc = 64" by code_simp
qed

lemma pool_start_inv: "spaces_inv 0x1000 {} (phys_avail (snd pool_start)) [] pool_start"
proof -
  have "0x1000 \<notin> avail_addrs pool_alloc"
  proof
    assume "0x1000 \<in> avail_addrs pool_alloc"
    then obtain f where f: "f \<in> free_frames pool_alloc" "frame_addr f = 0x1000" by (auto simp: avail_addrs_def)
    then have "f < 64" using pool_alloc_inv(2) by (simp add: free_frames_def)
    then have "f = 1" using f(2) unat_frame_addr [of f] by simp
    then show False using f(1) by (simp add: free_frames_def) code_simp
  qed
  then show ?thesis
    using pool_alloc_inv avail_masked [of pool_alloc]
    by (auto simp: spaces_inv_def pool_start_def phys_inv_def phys_avail_def pt_inv_def table_at_zero pt_tables_def split: if_splits)
qed

lemma pool_new_eq: "fst pool_new = Some \<lparr>as_root = 0x10000, as_id = 1, as_frames = []\<rparr>" "fst (snd pool_new) = 2"
  by code_simp+

lemma pool_page_eq: "fst pool_page = Ok 0x11000"
  by code_simp

lemma as_map_4k_root: "as_map_4k s v p fl st = (r, s', st') \<Longrightarrow> as_root s' = as_root s"
  by (auto simp: as_map_4k_def split: prod.splits)

lemma pool_page_root: "as_root (fst (snd pool_page)) = 0x10000"
  using as_map_4k_root pool_new_eq(1)
  by (fastforce simp: pool_page_def map_user_page_def split: prod.splits option.splits sum.splits)

lemma pool_step_new: "space_step 0x1000 {} (Some 0x10000) (1, [], pool_start) (2, [the (fst pool_new)], snd (snd pool_new))"
proof -
  have "as_new 0x1000 1 pool_start = (Some (the (fst pool_new)), 2, snd (snd pool_new))"
    using pool_new_eq by (metis option.sel pool_new_def prod.collapse)
  from space_step.new [OF this, of "{}" "[]"] show ?thesis by (simp add: pool_new_eq)
qed

lemma pool_step_page:
  "space_step 0x1000 {} (Some 0x10000) (2, [the (fst pool_new)], snd (snd pool_new)) (2, [fst (snd pool_page)], snd (snd pool_page))"
proof -
  have "map_user_page (the (fst pool_new)) 0x400000 PF_WRITABLE (snd (snd pool_new)) =
      (fst pool_page, fst (snd pool_page), snd (snd pool_page))"
    by (simp add: pool_page_def)
  from space_step.page [OF this, where kr = "0x1000" and X = "{}" and nid = 2 and xs = "[]" and ys = "[]"] show ?thesis by (simp add: pool_new_eq)
qed

lemma pool_run:
  "space_run 0x1000 {} [Some 0x10000, Some 0x10000] (1, [], pool_start) (2, [fst (snd pool_page)], snd (snd pool_page))"
  by (rule space_run.more [OF pool_step_new space_run.more [OF pool_step_page space_run.stop]])

theorem space_isolation_witness:
  "fst pool_page = Ok 0x11000 \<and> (\<forall>v. translate (fst (snd (snd pool_page))) 0x1000 v = None)"
proof -
  have z: "translate (\<lambda>_ _. 0) 0x1000 v = None" for v by (simp add: translate_trp vpath_def)
  obtain m ps m' ps' where st: "pool_start = (m, ps)" "snd (snd pool_page) = (m', ps')" by (metis surj_pair)
  have "translate m' 0x1000 v = translate m 0x1000 v" for v
    using space_isolation [OF pool_start_inv [unfolded st] pool_run [unfolded st]] by blast
  moreover have "m = (\<lambda>_ _. 0)" using st(1) by (simp add: pool_start_def)
  ultimately show ?thesis using z pool_page_eq st(2) by simp
qed

text \<open>
  C16: no frame is lost. Whatever the spaces did, once all of them are destroyed every frame that was
  available or belonged to a space at the beginning is available again.
\<close>

theorem spaces_no_leak:
  assumes "spaces_inv kr X P S (m, ps)" and "space_run kr X ls (nid, S, (m, ps)) (nid', [], (m', ps'))"
  shows "phys_avail ps' = phys_avail ps \<union> set (concat (map owned S))"
  using space_run_inv [OF assms(2,1)] assms(1) by (simp add: spaces_inv_def)

theorem spaces_no_leak_witness:
  "phys_avail (snd (snd pool_end)) = avail_addrs pool_alloc"
proof -
  have d: "as_drop 0x1000 0x1000 (fst (snd pool_page)) (snd (snd pool_page)) = (fst pool_end, snd pool_end)"
    by (simp add: pool_end_def)
  have e: "space_step 0x1000 {} (Some 0x10000) (2, [fst (snd pool_page)], snd (snd pool_page)) (2, [], snd pool_end)"
    using space_step.drop [OF d, where X = "{}" and nid = 2 and xs = "[]" and ys = "[]"] by (simp add: pool_page_root)
  note r = space_run.more [OF pool_step_new space_run.more [OF pool_step_page space_run.more [OF e space_run.stop]]]
  obtain m ps m' ps' where st: "pool_start = (m, ps)" "snd pool_end = (m', ps')" by (metis surj_pair)
  from spaces_no_leak [OF pool_start_inv [unfolded st] r [unfolded st]]
  have "phys_avail ps' = phys_avail ps" by simp
  moreover have "ps = Some (sample_phys\<lparr>ph_alloc := pool_alloc\<rparr>)" using st(1) by (simp add: pool_start_def)
  ultimately show ?thesis using st(2) by (simp add: phys_avail_def)
qed

text \<open>
  C28: \<^verbatim>\<open>alloc_and_map\<close> and \<^verbatim>\<open>unmap_and_free\<close>. Whatever the outcome, no frame is lost: the frames that were available are those that
  still are, those that became page tables, and on success the one that the page shows. On success the page was unmapped before
  and now shows a zeroed frame that was available and is no table; unmapping then succeeds, restores every translation and gives
  the frame back. On an error no translation changes.
\<close>

theorem alloc_and_map_correct:
  assumes inv: "phys_inv ps" "pt_inv m (kernel_mapper cr3) (phys_avail ps)"
    and r: "alloc_and_map cr3 virt flags (m, ps) = (r, (m', ps'))"
  shows "phys_inv ps' \<and> pt_inv m' (kernel_mapper cr3) (phys_avail ps') \<and>
    phys_avail ps = phys_avail ps' \<union> (case r of Inl _ \<Rightarrow> {} | Inr f \<Rightarrow> {f}) \<union> (pt_tables m' (kernel_mapper cr3) - pt_tables m (kernel_mapper cr3)) \<and>
    (case r of
       Inl e \<Rightarrow> (\<forall>v. translate m' (kernel_mapper cr3) v = translate m (kernel_mapper cr3) v)
     | Inr f \<Rightarrow> f \<in> phys_avail ps \<and> f \<notin> phys_avail ps' \<union> pt_tables m' (kernel_mapper cr3) \<and> (\<forall>i. m' f i = 0) \<and>
         (\<forall>v. vpn v = vpn virt \<longrightarrow> translate m (kernel_mapper cr3) v = None \<and>
            translate m' (kernel_mapper cr3) v = Some (mapped_as f flags v)) \<and>
         (\<exists>m'' ps''. unmap_and_free cr3 virt (m', ps') = (Ok (), (m'', ps'')) \<and> phys_avail ps'' = insert f (phys_avail ps') \<and>
            (\<forall>v. translate m'' (kernel_mapper cr3) v = translate m (kernel_mapper cr3) v)))"
proof -
  let ?root = "kernel_mapper cr3"
  obtain fo ps1 where al: "phys_allocate_frame ps = (fo, ps1)" by (metis surj_pair)
  note c = phys_alloc_cases [OF inv(1) al]
  show ?thesis
  proof (cases fo)
    case None
    then have "r = Err OutOfFrames" "m' = m" "ps' = ps1" using r al by (auto simp: alloc_and_map_def allocate_zeroed_frame_def)
    then show ?thesis using c None inv(2) by (simp add: pt_inv_def)
  next
    case (Some f)
    have f: "f \<in> phys_avail ps" "f \<notin> phys_avail ps1" "f \<in> phys_taken ps1" "phys_inv ps1" "phys_avail ps1 = phys_avail ps - {f}" using c Some by auto
    have fm: "f AND ADDR_MASK = f" "f \<notin> pt_tables m ?root" using inv(2) f(1) by (auto simp: pt_inv_def pt_tables_def)
    have "phys_avail ps1 \<subseteq> phys_avail ps" using f(5) by blast
    note z = pt_inv_table_zero [OF inv(2) f(1) this]
    obtain r1 m2 ps2 where mp: "map_page cr3 virt f flags (table_zero f m, ps1) = (r1, (m2, ps2))" by (metis surj_pair)
    have ft: "f \<notin> pt_tables (table_zero f m) ?root" using z(3) fm(2) by simp
    note t = map_page_taken [OF mp f(4) z(1) f(2) ft f(3)]
    note M = global_fa.map_4k_inv [OF mp [unfolded map_page_def] f(4) z(1)]
    have i2: "phys_inv ps2" "pt_inv m2 ?root (phys_avail ps2)" using M by auto
    have acc: "phys_avail ps = insert f (phys_avail ps2 \<union> (pt_tables m2 ?root - pt_tables m ?root))"
      using map_page_accounts [OF mp f(4) z(1)] f(1,5) z(3) by auto
    show ?thesis
    proof (cases r1)
      case (Inl e)
      obtain m3 ps3 where fr: "mm_free_frame f (m2, ps2) = (m3, ps3)" by (metis surj_pair)
      have r': "r = Err e" "m' = m3" "ps' = ps3" using r al Some mp Inl fr by (auto simp: alloc_and_map_def allocate_zeroed_frame_def)
      note q = mm_free_taken [OF i2 t(4,3) fm(1) fr]
      show ?thesis using q M z(2) Inl acc by (auto simp: r')
    next
      case (Inr u)
      have r': "r = Ok f" "m' = m2" "ps' = ps2" using r al Some mp Inr by (auto simp: alloc_and_map_def allocate_zeroed_frame_def)
      have va: "virt_is_aligned virt PAGE_SIZE" using mp Inr by (auto simp: map_page_def map_4k_def split: if_splits)
      have tv: "translate m2 ?root virt = Some (mapped_as f flags virt)" using M Inr by simp
      obtain m4 ps4 where u: "unmap_and_free cr3 virt (m2, ps2) = (Ok (), (m4, ps4))" "phys_avail ps4 = insert f (phys_avail ps2)"
        "\<forall>v. translate m4 ?root v = (if vpn v = vpn virt then None else translate m2 ?root v)"
        using unmap_and_free_page [OF i2 va tv t(4,3) fm(1)] by blast
      have "translate m4 ?root v = translate m ?root v" for v using u(3) M z(2) Inr by (cases "vpn v = vpn virt") auto
      then show ?thesis using M z(2) Inr f(1) t(1,2,3) u(1,2) acc by (auto simp: r' table_zero_def pte_empty_def)
    qed
  qed
qed

definition pool_kernel :: "(pt_error, phys_addr) result \<times> mm_state" where
  "pool_kernel = alloc_and_map 0x1000 0x400000 PF_KERNEL_RW pool_start"

lemma pool_kernel_ok: "fst pool_kernel = Ok 0x10000"
  by code_simp

theorem alloc_and_map_correct_witness:
  "translate (fst (snd pool_kernel)) 0x1000 0x400123 = Some (mapped_as 0x10000 PF_KERNEL_RW 0x400123)"
proof -
  obtain m ps m' ps' where st: "pool_start = (m, ps)" "snd pool_kernel = (m', ps')" by (metis surj_pair)
  have inv: "phys_inv ps" "pt_inv m (kernel_mapper 0x1000) (phys_avail ps)"
    using pool_start_inv by (simp_all add: spaces_inv_def st(1) kernel_mapper_def)
  have r: "alloc_and_map 0x1000 0x400000 PF_KERNEL_RW (m, ps) = (Ok 0x10000, (m', ps'))"
    using pool_kernel_ok st by (metis pool_kernel_def prod.collapse)
  have "vpn 0x400123 = vpn 0x400000" "kernel_mapper 0x1000 = 0x1000" by (simp_all add: vpn_def kernel_mapper_def)
  then show ?thesis using alloc_and_map_correct [OF inv r] by (simp add: st(2))
qed

end
