(* ===== verification/Le_Bytes.thy ===== *)
theory Le_Bytes
  imports Nexo_Prelude
begin

text \<open>
  Machine integers as bytes (\<^verbatim>\<open>to_le_bytes\<close>, \<^verbatim>\<open>from_le_bytes\<close> and the big-endian forms) and writing
  bytes into a fixed buffer, as the message and disk formats use them.
\<close>

section \<open>Integers as bytes\<close>

primrec to_le :: "nat \<Rightarrow> 'n::len word \<Rightarrow> u8 list" where
  "to_le 0 w = []"
| "to_le (Suc n) w = ucast w # to_le n (drop_bit 8 w)"

fun from_le :: "u8 list \<Rightarrow> 'n::len word" where
  "from_le [] = 0"
| "from_le (b # bs) = ucast b OR push_bit 8 (from_le bs)"

definition to_be :: "nat \<Rightarrow> 'n::len word \<Rightarrow> u8 list" where
  "to_be n w = rev (to_le n w)"

definition from_be :: "u8 list \<Rightarrow> 'n::len word" where
  "from_be bs = from_le (rev bs)"

lemma length_to_le [simp]: "length (to_le n w) = n"
  by (induction n arbitrary: w) simp_all

lemma length_to_be [simp]: "length (to_be n w) = n"
  by (simp add: to_be_def)

lemma nth_to_le: "i < n \<Longrightarrow> to_le n w ! i = ucast (drop_bit (8 * i) w)"
  by (induction n arbitrary: w i) (auto simp: nth_Cons drop_bit_drop_bit add.commute split: nat.splits)

lemma bit_from_le:
  "bit (from_le bs :: 'n::len word) i \<longleftrightarrow> i < LENGTH('n) \<and> i div 8 < length bs \<and> bit (bs ! (i div 8)) (i mod 8)"
proof (induction bs arbitrary: i)
  case (Cons b bs)
  have nb: "8 \<le> i \<Longrightarrow> \<not> bit b i" for i using bit_imp_le_length [of b i] by auto
  show ?case
  proof (cases "i < 8")
    case True
    then show ?thesis by (auto simp: bit_simps)
  next
    case False
    then have "i div 8 = Suc ((i - 8) div 8)" "(i - 8) mod 8 = i mod 8" by (simp_all add: le_div_geq le_mod_geq)
    then show ?thesis using False nb [of i] Cons.IH [of "i - 8"] by (auto simp: bit_simps)
  qed
qed simp

lemma from_to_le [simp]:
  fixes w :: "'n::len word"
  assumes "LENGTH('n) \<le> 8 * n"
  shows "from_le (to_le n w) = w"
proof (rule bit_word_eqI)
  fix i assume i: "i < LENGTH('n)"
  then have "i div 8 < n" using assms by auto
  moreover have "8 * (i div 8) + i mod 8 = i" by simp
  ultimately show "bit (from_le (to_le n w) :: 'n word) i \<longleftrightarrow> bit w i"
    using i by (auto simp: bit_from_le nth_to_le bit_simps)
qed

lemma to_from_le [simp]:
  assumes "8 * n \<le> LENGTH('n)" "length bs = n"
  shows "to_le n (from_le bs :: 'n::len word) = bs"
proof (rule nth_equalityI)
  fix i assume "i < length (to_le n (from_le bs :: 'n word))"
  then have i: "i < n" by simp
  have "bit (ucast (drop_bit (8 * i) (from_le bs :: 'n word)) :: u8) j \<longleftrightarrow> bit (bs ! i) j" if j: "j < 8" for j
  proof -
    have "8 * i + j < LENGTH('n)" using i j assms(1) by linarith
    then show ?thesis using i j assms(2) by (simp add: bit_simps bit_from_le)
  qed
  then show "to_le n (from_le bs :: 'n word) ! i = bs ! i"
    using i by (auto simp: nth_to_le intro!: bit_word_eqI)
qed (use assms in simp)

lemma from_to_be [simp]: "LENGTH('n) \<le> 8 * n \<Longrightarrow> from_be (to_be n w) = (w :: 'n::len word)"
  by (simp add: to_be_def from_be_def)

lemma to_from_be [simp]: "8 * n \<le> LENGTH('n) \<Longrightarrow> length bs = n \<Longrightarrow> to_be n (from_be bs :: 'n::len word) = bs"
  by (simp add: to_be_def from_be_def)

lemma to_le_inject: "LENGTH('n) \<le> 8 * n \<Longrightarrow> to_le n v = to_le n w \<longleftrightarrow> v = (w :: 'n::len word)"
  by (metis from_to_le)

section \<open>Writing into a buffer\<close>

text \<open>\<^verbatim>\<open>out[o..o + n].copy_from_slice(bs)\<close> for bytes that fit.\<close>

definition copy_at :: "nat \<Rightarrow> u8 list \<Rightarrow> u8 list \<Rightarrow> u8 list" where
  "copy_at off bs out = take off out @ bs @ drop (off + length bs) out"

text \<open>The slice \<^verbatim>\<open>b[o..o + n]\<close>.\<close>

definition slice_at :: "nat \<Rightarrow> nat \<Rightarrow> u8 list \<Rightarrow> u8 list" where
  "slice_at off n b = take n (drop off b)"

lemma length_copy_at [simp]: "off + length bs \<le> length out \<Longrightarrow> length (copy_at off bs out) = length out"
  by (simp add: copy_at_def)

lemma length_slice_at [simp]: "off + n \<le> length b \<Longrightarrow> length (slice_at off n b) = n"
  by (simp add: slice_at_def)

lemma nth_slice_at: "i < n \<Longrightarrow> off + n \<le> length b \<Longrightarrow> slice_at off n b ! i = b ! (off + i)"
  by (simp add: slice_at_def)

lemma slice_copy_same: "off + length bs \<le> length out \<Longrightarrow> n = length bs \<Longrightarrow> slice_at off n (copy_at off bs out) = bs"
  by (simp add: slice_at_def copy_at_def)

lemma nth_copy_at:
  "off + length bs \<le> length out \<Longrightarrow> i < length out \<Longrightarrow>
   copy_at off bs out ! i = (if off \<le> i \<and> i < off + length bs then bs ! (i - off) else out ! i)"
  by (auto simp: copy_at_def nth_append)

lemma slice_copy_other:
  assumes "off + length bs \<le> length out" "p + n \<le> off \<or> off + length bs \<le> p"
  shows "slice_at p n (copy_at off bs out) = slice_at p n out"
  using assms by (intro nth_equalityI) (auto simp: slice_at_def nth_copy_at)

lemma slice_join: "slice_at p n b @ slice_at (p + n) k b = slice_at p (n + k) b"
  by (simp add: slice_at_def take_add [of n] add.commute [of p n])

end
