(* ===== verification/Kernel_Ipc.thy ===== *)
theory Kernel_Ipc
  imports Ipc Addr_Space Le_Bytes
begin

text \<open>
  The objects of \<^verbatim>\<open>kernel/src/ipc.rs\<close> put together with processes and memory, and the system calls of
  \<^verbatim>\<open>kernel/src/x86/syscall.rs\<close> on handles, channels, events and memory objects.

  The kernel state holds the processes by their number, the channels, events, device grants and memory
  objects by their object number, and the memory of the machine. An object lives as long as somebody holds
  a reference to it (\<^verbatim>\<open>Arc\<close>): a handle in a table, a handle in a queued message, or, for a pinned channel
  end, the kernel. \<open>drop_handles\<close> gives references back and runs the destructors, which may close channel
  ends and so give back more references.

  A system call works on the registers of the caller and returns status and value. Copies from and to the
  caller's memory go through the page tables of its address space.
\<close>

section \<open>State\<close>

record trap_frame =
  r_rdi :: u64
  r_rsi :: u64
  r_rdx :: u64
  r_r10 :: u64
  r_r8 :: u64

record process =
  pr_handles :: handle_table
  pr_space :: addr_space
  pr_shm_pages :: u64
  pr_device_next :: u64

record memory_object =
  mo_frames :: "phys_addr list"
  mo_len :: u64
  mo_owner :: nat

record kernel =
  k_procs :: "process option list"
  k_chans :: "channel list"
  k_events :: "event list"
  k_grants :: "device_grant list"
  k_mems :: "memory_object list"
  k_mm :: mm_state
  k_live_ends :: u64
  k_sent :: u64
  k_woken :: "nat list"
  k_free_vectors :: "u8 list"

definition proc_at :: "nat \<Rightarrow> kernel \<Rightarrow> process" where
  "proc_at p k = the (k_procs k ! p)"

definition set_proc :: "nat \<Rightarrow> process \<Rightarrow> kernel \<Rightarrow> kernel" where
  "set_proc p pr k = k\<lparr>k_procs := (k_procs k)[p := Some pr]\<rparr>"

definition set_table :: "nat \<Rightarrow> handle_table \<Rightarrow> kernel \<Rightarrow> kernel" where
  "set_table p t k = set_proc p ((proc_at p k)\<lparr>pr_handles := t\<rparr>) k"

definition table_of :: "nat \<Rightarrow> kernel \<Rightarrow> handle_table" where
  "table_of p k = pr_handles (proc_at p k)"

section \<open>References\<close>

definition proc_handles :: "process option \<Rightarrow> handle list" where
  "proc_handles po = (case po of None \<Rightarrow> [] | Some pr \<Rightarrow> ht_entries (pr_handles pr))"

definition queue_handles :: "message list \<Rightarrow> handle list" where
  "queue_handles ms = concat (map msg_handles ms)"

definition chan_handles :: "channel \<Rightarrow> handle list" where
  "chan_handles c = queue_handles (ch_queues c False) @ queue_handles (ch_queues c True)"

definition state_handles :: "kernel \<Rightarrow> handle list" where
  "state_handles k = concat (map proc_handles (k_procs k)) @ concat (map chan_handles (k_chans k))"

definition obj_alive :: "kernel \<Rightarrow> handle list \<Rightarrow> object \<Rightarrow> bool" where
  "obj_alive k held ob \<longleftrightarrow>
     list_ex (\<lambda>h. h_object h = ob) (state_handles k @ held) \<or>
     (case ob of ObjChannel c s \<Rightarrow> c < length (k_chans k) \<and> ce_pinned (k_chans k ! c) s | _ \<Rightarrow> False)"

section \<open>Destructors\<close>

definition end_close :: "nat \<Rightarrow> bool \<Rightarrow> kernel \<Rightarrow> bool \<times> handle list \<times> kernel" where
  "end_close c s k =
     (case ch_close s (k_chans k ! c) of
        (first, dropped, woken, ch) \<Rightarrow>
          (first, queue_handles dropped,
           k\<lparr>k_chans := (k_chans k)[c := ch], k_woken := k_woken k @ woken,
             k_live_ends := (if first then k_live_ends k - 1 else k_live_ends k)\<rparr>))"

text \<open>The owner of a memory object gets its quota back if it still exists; the frames go back to the pool.\<close>

definition memory_drop :: "nat \<Rightarrow> kernel \<Rightarrow> kernel" where
  "memory_drop i k =
     (let mo = k_mems k ! i; p = mo_owner mo;
          k1 = (if p < length (k_procs k) \<and> k_procs k ! p \<noteq> None
                then set_proc p ((proc_at p k)\<lparr>pr_shm_pages := pr_shm_pages (proc_at p k) - mo_len mo div PAGE_SIZE\<rparr>) k
                else k)
      in k1\<lparr>k_mm := fold mm_free_frame (mo_frames mo) (k_mm k1), k_mems := (k_mems k1)[i := mo\<lparr>mo_frames := []\<rparr>]\<rparr>)"

definition grant_drop :: "nat \<Rightarrow> kernel \<Rightarrow> kernel" where
  "grant_drop i k =
     (let g = k_grants k ! i
      in k\<lparr>k_free_vectors := k_free_vectors k @ dg_vectors g, k_grants := (k_grants k)[i := g\<lparr>dg_vectors := []\<rparr>]\<rparr>)"

definition chan_open :: "channel \<Rightarrow> nat" where
  "chan_open c = (if ce_closed_by_me c False then 0 else 1) + (if ce_closed_by_me c True then 0 else 1)"

definition open_ends :: "kernel \<Rightarrow> nat" where
  "open_ends k = sum_list (map chan_open (k_chans k))"

lemma ch_close_open:
  assumes "ch_close s c = (first, d, w, c')"
  shows "if ce_closed_by_me c s then \<not> first \<and> d = [] \<and> c' = c else first \<and> Suc (chan_open c') = chan_open c"
  using assms by (cases s) (auto simp: ch_close_def chan_open_def split: if_splits)

lemma sum_list_update:
  "i < length xs \<Longrightarrow> sum_list (map f (xs[i := x])) + f (xs ! i) = sum_list (map f xs) + (f x :: nat)"
  by (induction xs arbitrary: i) (auto split: nat.splits)

lemma end_close_cases:
  assumes "end_close c s k = (first, hs, k')" "c < length (k_chans k)"
  shows "if ce_closed_by_me (k_chans k ! c) s then \<not> first \<and> hs = [] \<and> open_ends k' = open_ends k
         else first \<and> open_ends k' < open_ends k"
proof -
  obtain d w c' where cl: "ch_close s (k_chans k ! c) = (first, d, w, c')" "hs = queue_handles d" "k_chans k' = (k_chans k)[c := c']"
    using assms(1) by (auto simp: end_close_def split: prod.splits)
  show ?thesis
    using ch_close_open [OF cl(1)] cl(2,3) sum_list_update [OF assms(2), of chan_open c']
    by (auto simp: open_ends_def queue_handles_def split: if_splits)
qed

function drop_handles :: "handle list \<Rightarrow> kernel \<Rightarrow> kernel" where
  "drop_handles [] k = k"
| "drop_handles (h # hs) k =
     (if obj_alive k hs (h_object h) then drop_handles hs k
      else (case h_object h of
              ObjChannel c s \<Rightarrow>
                if c < length (k_chans k)
                then (case end_close c s k of (_, dropped, k') \<Rightarrow> drop_handles (dropped @ hs) k')
                else drop_handles hs k
            | ObjMemory i \<Rightarrow> drop_handles hs (memory_drop i k)
            | ObjDevice i \<Rightarrow> drop_handles hs (grant_drop i k)
            | _ \<Rightarrow> drop_handles hs k))"
  by pat_completeness auto

lemma open_ends_drop [simp]: "open_ends (memory_drop i k) = open_ends k" "open_ends (grant_drop i k) = open_ends k"
  by (simp_all add: open_ends_def memory_drop_def grant_drop_def set_proc_def Let_def)

termination drop_handles
proof (relation "measures [\<lambda>(hs, k). open_ends k, \<lambda>(hs, k). length hs]")
  show "wf (measures [\<lambda>(hs :: handle list, k). open_ends k, \<lambda>(hs, k). length hs])" by simp
qed (auto dest: end_close_cases [OF sym] split: if_splits)

section \<open>Memory of the caller\<close>

text \<open>The pages the loops of the checks visit: from the page of \<open>ptr\<close> on, as long as they begin before \<open>fim\<close>.\<close>

definition user_pages :: "u64 \<Rightarrow> u64 \<Rightarrow> virt_addr list" where
  "user_pages ptr fim = map (\<lambda>n. word_of_nat n * PAGE_SIZE) [unat ptr div 4096..<div_ceil (unat fim) 4096]"

definition page_has :: "pt_mem \<Rightarrow> phys_addr \<Rightarrow> page_flags \<Rightarrow> virt_addr \<Rightarrow> bool" where
  "page_has m root fl page = (case translate m root page of Some t \<Rightarrow> flags_contains (tr_flags t) fl | None \<Rightarrow> False)"

definition check_user_readable :: "pt_mem \<Rightarrow> phys_addr \<Rightarrow> u64 \<Rightarrow> u64 \<Rightarrow> (status, unit) result" where
  "check_user_readable m root ptr len =
     (if len = 0 then Ok ()
      else (case checked_add ptr len of
              None \<Rightarrow> Err BadAddress
            | Some fim \<Rightarrow>
                if fim > USER_ADDRESS_LIMIT then Err BadAddress
                else if list_all (\<lambda>page. page_has m root PF_USER page \<and> page_has m root PF_PRESENT page) (user_pages ptr fim)
                then Ok () else Err BadAddress))"

definition check_user_writable :: "pt_mem \<Rightarrow> phys_addr \<Rightarrow> u64 \<Rightarrow> u64 \<Rightarrow> (status, unit) result" where
  "check_user_writable m root ptr len =
     (if len = 0 then Ok ()
      else (case checked_add ptr len of
              None \<Rightarrow> Err BadAddress
            | Some fim \<Rightarrow>
                if fim > USER_ADDRESS_LIMIT then Err BadAddress
                else if list_all (page_has m root (flags_union (flags_union PF_USER PF_PRESENT) PF_WRITABLE)) (user_pages ptr fim)
                then Ok () else Err BadAddress))"

definition user_byte :: "pt_mem \<Rightarrow> phys_addr \<Rightarrow> virt_addr \<Rightarrow> u8" where
  "user_byte m root v = read_byte m (tr_phys (the (translate m root v)))"

definition copy_from_user_into :: "pt_mem \<Rightarrow> phys_addr \<Rightarrow> u64 \<Rightarrow> nat \<Rightarrow> (status, u8 list) result" where
  "copy_from_user_into m root ptr n =
     try_bind (check_user_readable m root ptr (word_of_nat n))
       (\<lambda>_. Ok (map (\<lambda>i. user_byte m root (ptr + word_of_nat i)) [0..<n]))"

definition copy_from_user :: "pt_mem \<Rightarrow> phys_addr \<Rightarrow> u64 \<Rightarrow> u64 \<Rightarrow> (status, u8 list) result" where
  "copy_from_user m root ptr len =
     (if len = 0 then Ok []
      else (case checked_add ptr len of
              None \<Rightarrow> Err BadAddress
            | Some fim \<Rightarrow>
                if fim > USER_ADDRESS_LIMIT then Err BadAddress
                else if list_all (\<lambda>page. page_has m root PF_USER page \<and> page_has m root PF_PRESENT page) (user_pages ptr fim)
                then Ok (map (\<lambda>i. user_byte m root (ptr + word_of_nat i)) [0..<unat len]) else Err BadAddress))"

fun user_store :: "phys_addr \<Rightarrow> virt_addr \<Rightarrow> u8 list \<Rightarrow> pt_mem \<Rightarrow> pt_mem" where
  "user_store root v [] m = m"
| "user_store root v (b # bs) m = user_store root (v + 1) bs (write_byte (tr_phys (the (translate m root v))) b m)"

definition copy_to_user :: "phys_addr \<Rightarrow> u64 \<Rightarrow> u8 list \<Rightarrow> pt_mem \<Rightarrow> (status, unit) result \<times> pt_mem" where
  "copy_to_user root ptr data m =
     (case check_user_writable m root ptr (word_of_nat (length data)) of
        Inl e \<Rightarrow> (Err e, m)
      | Inr _ \<Rightarrow> (Ok (), user_store root ptr data m))"

text \<open>Handle numbers as bytes.\<close>

definition handle_ids :: "u8 list \<Rightarrow> nat \<Rightarrow> u32 list" where
  "handle_ids bs n = map (\<lambda>i. from_le (slice_at (4 * i) 4 bs)) [0..<n]"

section \<open>Handles\<close>

text \<open>\<^verbatim>\<open>HandleTable::insert\<close>: entering a table unpins a channel end. The handle is returned if there is no room.\<close>

definition unpin :: "object \<Rightarrow> kernel \<Rightarrow> kernel" where
  "unpin ob k =
     (case ob of
        ObjChannel c s \<Rightarrow>
          k\<lparr>k_chans := (k_chans k)[c := (k_chans k ! c)\<lparr>ce_pinned := (ce_pinned (k_chans k ! c))(s := False)\<rparr>]\<rparr>
      | _ \<Rightarrow> k)"

definition table_insert :: "nat \<Rightarrow> handle \<Rightarrow> kernel \<Rightarrow> (status, u32) result \<times> kernel" where
  "table_insert p h k =
     (let k1 = unpin (h_object h) k in
      case ht_insert h (table_of p k1) of (r, t) \<Rightarrow> (r, set_table p t k1))"

definition table_take :: "nat \<Rightarrow> u32 \<Rightarrow> kernel \<Rightarrow> (status, handle) result \<times> kernel" where
  "table_take p i k = (case ht_take i (table_of p k) of (r, t) \<Rightarrow> (r, set_table p t k))"

text \<open>Insert a new handle and return its number, or give it back to the destructor.\<close>

definition insert_or_drop :: "nat \<Rightarrow> handle \<Rightarrow> kernel \<Rightarrow> (status \<times> u64) \<times> kernel" where
  "insert_or_drop p h k =
     (case table_insert p h k of
        (Inr i, k') \<Rightarrow> ((StOk, ucast i), k')
      | (Inl e, k') \<Rightarrow> ((e, 0), drop_handles [h] k'))"

definition sys_handle_close :: "nat \<Rightarrow> trap_frame \<Rightarrow> kernel \<Rightarrow> (status \<times> u64) \<times> kernel" where
  "sys_handle_close p f k =
     (case table_take p (ucast (r_rdi f)) k of
        (Inr h, k') \<Rightarrow> ((StOk, 0), drop_handles [h] k')
      | (Inl e, k') \<Rightarrow> ((e, 0), k'))"

definition sys_handle_duplicate :: "nat \<Rightarrow> trap_frame \<Rightarrow> kernel \<Rightarrow> (status \<times> u64) \<times> kernel" where
  "sys_handle_duplicate p f k =
     (case ht_get (table_of p k) (ucast (r_rdi f)) of
        Inr h \<Rightarrow>
          let wanted = ucast (r_rsi f) in
          if \<not> rights_contains (h_rights h) RIGHT_DUPLICATE \<or> \<not> is_superset_of (h_rights h) wanted then ((Denied, 0), k)
          else insert_or_drop p \<lparr>h_object = h_object h, h_rights = wanted\<rparr> k
      | Inl e \<Rightarrow> ((e, 0), k))"

definition sys_handle_info :: "nat \<Rightarrow> trap_frame \<Rightarrow> kernel \<Rightarrow> status \<times> u64" where
  "sys_handle_info p f k =
     (case ht_get (table_of p k) (ucast (r_rdi f)) of
        Inr h \<Rightarrow> (StOk, ucast (h_rights h) OR push_bit 32 (ucast (object_kind (h_object h))))
      | Inl e \<Rightarrow> (e, 0))"

section \<open>Channels\<close>

definition create_pair :: "kernel \<Rightarrow> nat \<times> kernel" where
  "create_pair k = (length (k_chans k), k\<lparr>k_chans := k_chans k @ [channel_new], k_live_ends := k_live_ends k + 2\<rparr>)"

definition sys_channel_create :: "nat \<Rightarrow> kernel \<Rightarrow> (status \<times> u64) \<times> kernel" where
  "sys_channel_create p k =
     (case create_pair k of (c, k0) \<Rightarrow>
        let a = \<lparr>h_object = ObjChannel c False, h_rights = RIGHTS_CHANNEL_DEFAULT\<rparr>;
            b = \<lparr>h_object = ObjChannel c True, h_rights = RIGHTS_CHANNEL_DEFAULT\<rparr>
        in (case table_insert p a k0 of
              (Inl e, k1) \<Rightarrow> ((e, 0), drop_handles [a, b] (unpin (h_object b) k1))
            | (Inr ha, k1) \<Rightarrow>
                (case table_insert p b k1 of
                   (Inr hb, k2) \<Rightarrow> ((StOk, ucast ha OR push_bit 32 (ucast hb)), k2)
                 | (Inl e, k2) \<Rightarrow>
                     (case table_take p ha k2 of (_, k3) \<Rightarrow> ((e, 0), drop_handles [b, a] k3)))))"

text \<open>The checks on the handles to send: \<open>h\<close> is the channel handle, \<open>c\<close> its channel, \<open>prev\<close> the handles already checked.\<close>

fun send_check :: "handle_table \<Rightarrow> u32 \<Rightarrow> nat \<Rightarrow> u32 list \<Rightarrow> u32 list \<Rightarrow> status option" where
  "send_check t h c prev [] = None"
| "send_check t h c prev (i # ids) =
     (if i = h \<or> i \<in> set prev then Some InvalidArgs
      else (case ht_get t i of
              Inl e \<Rightarrow> Some e
            | Inr hh \<Rightarrow>
                if \<not> rights_contains (h_rights hh) RIGHT_TRANSFER then Some Denied
                else if (case h_object hh of ObjChannel c' _ \<Rightarrow> c' = c | _ \<Rightarrow> False) then Some InvalidArgs
                else send_check t h c (prev @ [i]) ids))"

definition copy_payload :: "pt_mem \<Rightarrow> phys_addr \<Rightarrow> u64 \<Rightarrow> u64 \<Rightarrow> (status, payload) result" where
  "copy_payload m root ptr len =
     (if unat len \<le> PAYLOAD_INLINE
      then try_bind (copy_from_user_into m root ptr (unat len))
             (\<lambda>d. Ok (PayInline (d @ replicate (PAYLOAD_INLINE - unat len) 0) (unat len)))
      else try_bind (copy_from_user m root ptr len) (\<lambda>d. Ok (PayHeap d)))"

definition end_send :: "nat \<Rightarrow> bool \<Rightarrow> message \<Rightarrow> kernel \<Rightarrow> (status, unit) result \<times> kernel" where
  "end_send c s msg k =
     (case ch_send s msg (k_chans k ! c) of
        (Inr _, woken, ch) \<Rightarrow>
          (Ok (), k\<lparr>k_chans := (k_chans k)[c := ch], k_woken := k_woken k @ woken, k_sent := k_sent k + 1\<rparr>)
      | (Inl e, _, _) \<Rightarrow> (Err e, k))"

definition sys_channel_send :: "nat \<Rightarrow> trap_frame \<Rightarrow> kernel \<Rightarrow> (status \<times> u64) \<times> kernel" where
  "sys_channel_send p f k =
     (let h = ucast (r_rdi f); ptr = r_rsi f; len = r_rdx f; hptr = r_r10 f; nh = unat (r_r8 f);
          m = fst (k_mm k); root = as_root (pr_space (proc_at p k)) in
      if unat len > MSG_MAX \<or> nh > MSG_HANDLES_MAX then ((TooBig, 0), k)
      else (case ht_get (table_of p k) h of
        Inl e \<Rightarrow> ((e, 0), k)
      | Inr hn \<Rightarrow>
          if \<not> rights_contains (h_rights hn) RIGHT_WRITE then ((Denied, 0), k)
          else (case h_object hn of
            ObjChannel c s \<Rightarrow>
              (case copy_payload m root ptr len of
                 Inl e \<Rightarrow> ((e, 0), k)
               | Inr data \<Rightarrow>
                   (case copy_from_user_into m root hptr (nh * 4) of
                      Inl e \<Rightarrow> ((e, 0), k)
                    | Inr hbuf \<Rightarrow>
                        let ids = handle_ids hbuf nh in
                        (case send_check (table_of p k) h c [] ids of
                           Some e \<Rightarrow> ((e, 0), k)
                         | None \<Rightarrow>
                             (case take_all (table_take p) ids k of
                                (Inl e, k1) \<Rightarrow> ((e, 0), k1)
                              | (Inr moved, k1) \<Rightarrow>
                                  (case end_send c s \<lparr>msg_data = data, msg_handles = moved\<rparr> k1 of
                                     (Inr _, k2) \<Rightarrow> ((StOk, len), k2)
                                   | (Inl e, k2) \<Rightarrow> ((e, 0), drop_handles moved k2))))))
          | _ \<Rightarrow> ((InvalidArgs, 0), k))))"

text \<open>
  Receiving. \<open>rx\<close> is the result of \<^verbatim>\<open>try_recv_guarded\<close> or of a turn of \<^verbatim>\<open>recv_guarded\<close>; \<open>None\<close> as the result of
  the system call means that the thread went to sleep and the call goes on later.
\<close>

definition set_mem :: "pt_mem \<Rightarrow> kernel \<Rightarrow> kernel" where
  "set_mem m k = k\<lparr>k_mm := (m, snd (k_mm k))\<rparr>"

definition recv_deliver :: "nat \<Rightarrow> trap_frame \<Rightarrow> message \<Rightarrow> kernel \<Rightarrow> (status \<times> u64) \<times> kernel" where
  "recv_deliver p f msg k =
     (let buf = r_rsi f; cap = r_rdx f; hbuf = r_r10 f; hcap = unat (r_r8 f);
          data = payload_deref (msg_data msg); hs = msg_handles msg;
          root = as_root (pr_space (proc_at p k)) in
      if length data > unat cap \<or> length hs > hcap
      then ((TooBig, (word_of_nat (length data) AND 0xffffffff) OR push_bit 32 (word_of_nat (length hs))), drop_handles hs k)
      else (case copy_to_user root buf data (fst (k_mm k)) of
              (Inl e, m) \<Rightarrow> ((e, 0), drop_handles hs (set_mem m k))
            | (Inr _, m) \<Rightarrow>
                let k1 = set_mem m k in
                (case insert_all (table_insert p) hs k1 of
                   (Inl e, rest, k2) \<Rightarrow> ((e, 0), drop_handles rest k2)
                 | (Inr ids, _, k2) \<Rightarrow>
                     (case copy_to_user root hbuf (concat (map (to_le 4) ids)) (fst (k_mm k2)) of
                        (Inl e, m2) \<Rightarrow> ((e, 0), set_mem m2 k2)
                      | (Inr _, m2) \<Rightarrow>
                          ((StOk, word_of_nat (length data) OR push_bit 32 (word_of_nat (length ids))), set_mem m2 k2)))))"

definition sys_channel_recv ::
  "bool \<Rightarrow> bool \<Rightarrow> nat option \<Rightarrow> nat \<Rightarrow> trap_frame \<Rightarrow> kernel \<Rightarrow> (status \<times> u64) option \<times> kernel" where
  "sys_channel_recv nonblock killed me p f k =
     (let m = fst (k_mm k); root = as_root (pr_space (proc_at p k)) in
      case ht_get (table_of p k) (ucast (r_rdi f)) of
        Inl e \<Rightarrow> (Some (e, 0), k)
      | Inr hn \<Rightarrow>
          if \<not> rights_contains (h_rights hn) RIGHT_READ then (Some (Denied, 0), k)
          else (case check_user_writable m root (r_rsi f) (r_rdx f) of
            Inl e \<Rightarrow> (Some (e, 0), k)
          | Inr _ \<Rightarrow>
            (case check_user_writable m root (r_r10 f) (r_r8 f * 4) of
               Inl e \<Rightarrow> (Some (e, 0), k)
             | Inr _ \<Rightarrow>
               (case h_object hn of
                  ObjChannel c s \<Rightarrow>
                    (case (if nonblock then map_prod Some id (ch_try_recv s (k_chans k ! c))
                           else ch_recv_turn killed s me (k_chans k ! c)) of
                       (rx, ch) \<Rightarrow>
                         let k1 = k\<lparr>k_chans := (k_chans k)[c := ch]\<rparr> in
                         (case rx of
                            None \<Rightarrow> (None, k1)
                          | Some (Inl e) \<Rightarrow> (Some (e, 0), k1)
                          | Some (Inr msg) \<Rightarrow> (case recv_deliver p f msg k1 of (r, k2) \<Rightarrow> (Some r, k2))))
                | _ \<Rightarrow> (Some (InvalidArgs, 0), k)))))"

text \<open>Handles for a child process.\<close>

fun spawn_check :: "handle_table \<Rightarrow> u32 list \<Rightarrow> u32 list \<Rightarrow> status option" where
  "spawn_check t prev [] = None"
| "spawn_check t prev (i # ids) =
     (if i \<in> set prev then Some InvalidArgs
      else (case ht_get t i of
              Inl e \<Rightarrow> Some e
            | Inr hh \<Rightarrow> if rights_contains (h_rights hh) RIGHT_TRANSFER then spawn_check t (prev @ [i]) ids else Some Denied))"

definition take_spawn_handles :: "nat \<Rightarrow> u64 \<Rightarrow> nat \<Rightarrow> kernel \<Rightarrow> (status, handle list) result \<times> kernel" where
  "take_spawn_handles p hptr nh k =
     (case copy_from_user (fst (k_mm k)) (as_root (pr_space (proc_at p k))) hptr (word_of_nat (nh * 4)) of
        Inl e \<Rightarrow> (Err e, k)
      | Inr raw \<Rightarrow>
          let ids = handle_ids raw nh in
          (case spawn_check (table_of p k) [] ids of
             Some e \<Rightarrow> (Err e, k)
           | None \<Rightarrow> take_all (table_take p) ids k))"

section \<open>Events\<close>

definition sys_event_create :: "nat \<Rightarrow> trap_frame \<Rightarrow> kernel \<Rightarrow> (status \<times> u64) \<times> kernel" where
  "sys_event_create p f k =
     (let e = length (k_events k); k1 = k\<lparr>k_events := k_events k @ [event_new (r_rdi f \<noteq> 0)]\<rparr>
      in insert_or_drop p \<lparr>h_object = ObjEvent e, h_rights = RIGHTS_EVENT_DEFAULT\<rparr> k1)"

definition sys_event_set :: "u64 \<Rightarrow> nat \<Rightarrow> trap_frame \<Rightarrow> kernel \<Rightarrow> (status \<times> u64) \<times> kernel" where
  "sys_event_set n p f k =
     (case ht_get (table_of p k) (ucast (r_rdi f)) of
        Inl e \<Rightarrow> ((e, 0), k)
      | Inr h \<Rightarrow>
          (case h_object h of
             ObjEvent ev \<Rightarrow>
               if \<not> rights_contains (h_rights h) RIGHT_SIGNAL then ((Denied, 0), k)
               else if n = SYS_EVENT_SIGNAL then
                 (case event_sinalizar (k_events k ! ev) of
                    (woken, e') \<Rightarrow> ((StOk, 0), k\<lparr>k_events := (k_events k)[ev := e'], k_woken := k_woken k @ woken\<rparr>))
               else ((StOk, 0), k\<lparr>k_events := (k_events k)[ev := event_resetar (k_events k ! ev)]\<rparr>)
           | _ \<Rightarrow> ((InvalidArgs, 0), k)))"

section \<open>Memory objects\<close>

text \<open>The loop that takes the frames; if there are not enough, the ones already taken go back.\<close>

fun alloc_zeroed_list :: "nat \<Rightarrow> phys_addr list \<Rightarrow> mm_state \<Rightarrow> phys_addr list option \<times> mm_state" where
  "alloc_zeroed_list 0 frames st = (Some frames, st)"
| "alloc_zeroed_list (Suc n) frames st =
     (case allocate_zeroed_frame st of
        (Some fr, st') \<Rightarrow> alloc_zeroed_list n (frames @ [fr]) st'
      | (None, st') \<Rightarrow> (None, fold mm_free_frame frames st'))"

definition set_shm :: "nat \<Rightarrow> u64 \<Rightarrow> kernel \<Rightarrow> kernel" where
  "set_shm p n k = set_proc p ((proc_at p k)\<lparr>pr_shm_pages := n\<rparr>) k"

definition sys_memory_create :: "nat \<Rightarrow> trap_frame \<Rightarrow> kernel \<Rightarrow> (status \<times> u64) \<times> kernel" where
  "sys_memory_create p f k =
     (let pages = r_rdi f in
      if pages = 0 \<or> pages > MEMORY_MAX_PAGES then ((InvalidArgs, 0), k)
      else let prev = pr_shm_pages (proc_at p k); k1 = set_shm p (prev + pages) k in
        if prev + pages > SHM_PAGES_MAX_PER_PROCESS then ((NoMemory, 0), set_shm p (prev + pages - pages) k1)
        else (case alloc_zeroed_list (unat pages) [] (k_mm k1) of
                (None, st) \<Rightarrow> ((NoMemory, 0), set_shm p (prev + pages - pages) (k1\<lparr>k_mm := st\<rparr>))
              | (Some frames, st) \<Rightarrow>
                  let i = length (k_mems k1);
                      k2 = k1\<lparr>k_mm := st, k_mems := k_mems k1 @ [\<lparr>mo_frames = frames, mo_len = pages * PAGE_SIZE, mo_owner = p\<rparr>]\<rparr>
                  in insert_or_drop p \<lparr>h_object = ObjMemory i, h_rights = RIGHTS_MEMORY_DEFAULT\<rparr> k2))"

text \<open>Mapping the frames of an object one after the other; the loop stops at the first failure.\<close>

fun map_frames :: "addr_space \<Rightarrow> u64 \<Rightarrow> phys_addr list \<Rightarrow> mm_state \<Rightarrow> bool \<times> addr_space \<times> mm_state" where
  "map_frames s virt [] st = (True, s, st)"
| "map_frames s virt (fr # frames) st =
     (case map_user_shared s virt fr st of
        (Inl _, s', st') \<Rightarrow> (False, s', st')
      | (Inr _, s', st') \<Rightarrow> map_frames s' (virt + PAGE_SIZE) frames st')"

definition sys_memory_map :: "nat \<Rightarrow> trap_frame \<Rightarrow> kernel \<Rightarrow> (status \<times> u64) \<times> kernel" where
  "sys_memory_map p f k =
     (case ht_get (table_of p k) (ucast (r_rdi f)) of
        Inl e \<Rightarrow> ((e, 0), k)
      | Inr h \<Rightarrow>
          (case h_object h of
             ObjMemory i \<Rightarrow>
               if \<not> rights_contains (h_rights h) RIGHT_MAP then ((Denied, 0), k)
               else let obj = k_mems k ! i; pr = proc_at p k; base = pr_device_next pr in
                 (case map_frames (pr_space pr) base (mo_frames obj) (k_mm k) of
                    (ok, s', st') \<Rightarrow>
                      (if ok then (StOk, base) else (NoMemory, 0),
                       set_proc p (pr\<lparr>pr_space := s', pr_device_next := base + align_up (mo_len obj) PAGE_SIZE\<rparr>) (k\<lparr>k_mm := st'\<rparr>)))
           | _ \<Rightarrow> ((InvalidArgs, 0), k)))"

section \<open>End of a process\<close>

text \<open>The handles of an ending process are closed at once.\<close>

definition close_table :: "nat \<Rightarrow> kernel \<Rightarrow> kernel" where
  "close_table p k = drop_handles (ht_entries (table_of p k)) (set_table p [] k)"

section \<open>Handles that exist\<close>

definition live_proc :: "kernel \<Rightarrow> nat \<Rightarrow> bool" where
  "live_proc k p \<longleftrightarrow> p < length (k_procs k) \<and> k_procs k ! p \<noteq> None"

abbreviation held :: "kernel \<Rightarrow> handle multiset" where
  "held k \<equiv> mset (state_handles k)"

lemma mset_concat_update:
  "i < length xs \<Longrightarrow> mset (concat (map f (xs[i := x]))) + mset (f (xs ! i)) = mset (concat (map f xs)) + mset (f x)"
  by (induction xs arbitrary: i) (auto simp: ac_simps split: nat.splits)

lemma held_set_proc:
  assumes "live_proc k p"
  shows "held (set_proc p pr k) + mset (ht_entries (table_of p k)) = held k + mset (ht_entries (pr_handles pr))"
proof -
  obtain q where q: "k_procs k ! p = Some q" "p < length (k_procs k)" using assms by (auto simp: live_proc_def)
  show ?thesis
    using mset_concat_update [OF q(2), of proc_handles "Some pr"] q
    by (simp add: state_handles_def set_proc_def table_of_def proc_at_def proc_handles_def ac_simps)
qed

lemma held_set_table: "live_proc k p \<Longrightarrow> held (set_table p t k) + mset (ht_entries (table_of p k)) = held k + mset (ht_entries t)"
  using held_set_proc [of k p] by (simp add: set_table_def)

lemma held_set_chan:
  assumes "c < length (k_chans k)"
  shows "held (k\<lparr>k_chans := (k_chans k)[c := ch]\<rparr>) + mset (chan_handles (k_chans k ! c)) = held k + mset (chan_handles ch)"
  using mset_concat_update [OF assms, of chan_handles ch] by (simp add: state_handles_def ac_simps)

lemma state_handles_updates [simp]:
  "state_handles (k\<lparr>k_mm := a\<rparr>) = state_handles k" "state_handles (k\<lparr>k_mems := b\<rparr>) = state_handles k"
  "state_handles (k\<lparr>k_events := c\<rparr>) = state_handles k" "state_handles (k\<lparr>k_grants := d\<rparr>) = state_handles k"
  "state_handles (k\<lparr>k_woken := e\<rparr>) = state_handles k" "state_handles (k\<lparr>k_sent := g\<rparr>) = state_handles k"
  "state_handles (k\<lparr>k_live_ends := h\<rparr>) = state_handles k" "state_handles (k\<lparr>k_free_vectors := i\<rparr>) = state_handles k"
  "state_handles (set_mem m k) = state_handles k"
  by (simp_all add: state_handles_def set_mem_def)

lemma chan_handles_cong: "ch_queues a = ch_queues b \<Longrightarrow> chan_handles a = chan_handles b"
  by (simp add: chan_handles_def)

lemma queue_handles_simps [simp]:
  "queue_handles [] = []" "queue_handles (m # ms) = msg_handles m @ queue_handles ms" "queue_handles (ms @ ns) = queue_handles ms @ queue_handles ns"
  by (simp_all add: queue_handles_def)

lemma chan_handles_side: "mset (chan_handles c) = mset (queue_handles (ch_queues c s)) + mset (queue_handles (ch_queues c (\<not> s)))"
  by (cases s) (simp_all add: chan_handles_def ac_simps)

text \<open>Fields that only grow, and what a change of the handles may not touch.\<close>

definition same_shape :: "kernel \<Rightarrow> kernel \<Rightarrow> bool" where
  "same_shape k k' \<longleftrightarrow> length (k_procs k') = length (k_procs k) \<and> (\<forall>p. live_proc k' p = live_proc k p) \<and>
     length (k_chans k') \<ge> length (k_chans k) \<and> length (k_events k') \<ge> length (k_events k) \<and>
     length (k_grants k') \<ge> length (k_grants k) \<and> length (k_mems k') \<ge> length (k_mems k)"

lemma same_shape_refl [simp]: "same_shape k k"
  by (simp add: same_shape_def)

lemma same_shape_trans: "same_shape k k1 \<Longrightarrow> same_shape k1 k2 \<Longrightarrow> same_shape k k2"
  by (auto simp: same_shape_def)

lemma same_shape_set_proc: "live_proc k p \<Longrightarrow> same_shape k (set_proc p pr k)"
  by (auto simp: same_shape_def live_proc_def set_proc_def nth_list_update)

lemma same_shape_set_table: "live_proc k p \<Longrightarrow> same_shape k (set_table p t k)"
  by (simp add: set_table_def same_shape_set_proc)

lemma live_proc_simps [simp]:
  "live_proc (k\<lparr>k_mm := a\<rparr>) = live_proc k" "live_proc (k\<lparr>k_mems := b\<rparr>) = live_proc k" "live_proc (k\<lparr>k_chans := cs\<rparr>) = live_proc k"
  "live_proc (k\<lparr>k_events := c\<rparr>) = live_proc k" "live_proc (k\<lparr>k_grants := d\<rparr>) = live_proc k"
  "live_proc (k\<lparr>k_woken := e\<rparr>) = live_proc k" "live_proc (k\<lparr>k_sent := g\<rparr>) = live_proc k"
  "live_proc (k\<lparr>k_live_ends := h\<rparr>) = live_proc k" "live_proc (k\<lparr>k_free_vectors := i\<rparr>) = live_proc k"
  by (simp_all add: live_proc_def fun_eq_iff)

lemma table_set_table: "live_proc k p \<Longrightarrow> table_of q (set_table p t k) = (if q = p then t else table_of q k)"
  by (auto simp: table_of_def proc_at_def set_table_def set_proc_def live_proc_def)

section \<open>Destructors only give back\<close>

lemma end_close_held:
  assumes "end_close c s k = (first, hs, k')" "c < length (k_chans k)"
  shows "held k = held k' + mset hs" "same_shape k k'" "k_procs k' = k_procs k" "k_mems k' = k_mems k" "k_mm k' = k_mm k"
    "k_events k' = k_events k"
proof -
  obtain d w ch where cl: "ch_close s (k_chans k ! c) = (first, d, w, ch)" "hs = queue_handles d"
    "k' = k\<lparr>k_chans := (k_chans k)[c := ch], k_woken := k_woken k @ w, k_live_ends := (if first then k_live_ends k - 1 else k_live_ends k)\<rparr>"
    using assms(1) by (auto simp: end_close_def split: prod.splits)
  have "mset (chan_handles (k_chans k ! c)) = mset hs + mset (chan_handles ch)"
    using cl(1,2) chan_handles_side [of "k_chans k ! c" s] chan_handles_side [of ch s]
    by (auto simp: ch_close_def split: if_splits)
  moreover have "held k' = held (k\<lparr>k_chans := (k_chans k)[c := ch]\<rparr>)" by (simp add: cl(3) state_handles_def)
  ultimately show "held k = held k' + mset hs" using held_set_chan [OF assms(2), of ch] by simp
  show "same_shape k k'" "k_procs k' = k_procs k" "k_mems k' = k_mems k" "k_mm k' = k_mm k" "k_events k' = k_events k"
    by (simp_all add: cl(3) same_shape_def live_proc_def)
qed

lemma memory_drop_held [simp]: "held (memory_drop i k) = held k" "same_shape k (memory_drop i k)"
proof -
  let ?p = "mo_owner (k_mems k ! i)"
  let ?pr = "(proc_at ?p k)\<lparr>pr_shm_pages := pr_shm_pages (proc_at ?p k) - mo_len (k_mems k ! i) div PAGE_SIZE\<rparr>"
  have h: "held (set_proc ?p ?pr k) = held k" if "live_proc k ?p"
    using held_set_proc [OF that, of ?pr] by (simp add: table_of_def)
  have s: "same_shape k (set_proc ?p ?pr k)" if "live_proc k ?p" using same_shape_set_proc [OF that] .
  have e: "memory_drop i k = (let k1 = if live_proc k ?p then set_proc ?p ?pr k else k
      in k1\<lparr>k_mm := fold mm_free_frame (mo_frames (k_mems k ! i)) (k_mm k1), k_mems := (k_mems k1)[i := (k_mems k ! i)\<lparr>mo_frames := []\<rparr>]\<rparr>)"
    by (simp add: memory_drop_def live_proc_def Let_def)
  show "held (memory_drop i k) = held k" using h by (simp add: e Let_def)
  show "same_shape k (memory_drop i k)" using s by (auto simp: e Let_def same_shape_def)
qed

lemma grant_drop_held [simp]: "held (grant_drop i k) = held k" "same_shape k (grant_drop i k)"
  by (simp_all add: grant_drop_def Let_def same_shape_def)

text \<open>A relation that every destructor respects is respected by giving back any list of handles.\<close>

lemma drop_handles_rule:
  assumes self: "\<And>k. R k k" and tr: "\<And>k1 k2 k3. R k1 k2 \<Longrightarrow> R k2 k3 \<Longrightarrow> R k1 k3"
    and chan: "\<And>k hs c s first d k'. \<not> obj_alive k hs (ObjChannel c s) \<Longrightarrow> c < length (k_chans k) \<Longrightarrow>
      end_close c s k = (first, d, k') \<Longrightarrow> R k k'"
    and mem: "\<And>k hs i. \<not> obj_alive k hs (ObjMemory i) \<Longrightarrow> R k (memory_drop i k)"
    and dev: "\<And>k i. R k (grant_drop i k)"
  shows "R k (drop_handles hs k)"
proof (induction hs k rule: drop_handles.induct)
  case (2 h hs k)
  show ?case
  proof (cases "obj_alive k hs (h_object h)")
    case True
    then show ?thesis using "2.IH"(1) by simp
  next
    case dead: False
    show ?thesis
    proof (cases "h_object h")
      case (ObjChannel c s)
      show ?thesis
      proof (cases "c < length (k_chans k)")
        case True
        obtain first d k' where e: "end_close c s k = (first, d, k')" by (metis surj_pair)
        have "R k' (drop_handles (d @ hs) k')" by (rule "2.IH"(2) [OF dead ObjChannel True e [symmetric] refl])
        then have "R k (drop_handles (d @ hs) k')" using tr chan [OF dead [unfolded ObjChannel] True e] by blast
        then show ?thesis using dead ObjChannel True e by simp
      next
        case False
        then show ?thesis using "2.IH"(3) [OF dead ObjChannel False] dead ObjChannel by simp
      qed
    next
      case (ObjMemory i)
      have "R (memory_drop i k) (drop_handles hs (memory_drop i k))" using "2.IH" dead ObjMemory by blast
      then show ?thesis using tr [OF mem [OF dead [unfolded ObjMemory]]] dead ObjMemory by simp
    next
      case (ObjDevice i)
      have "R (grant_drop i k) (drop_handles hs (grant_drop i k))" using "2.IH" dead ObjDevice by blast
      then show ?thesis using tr [OF dev] dead ObjDevice by simp
    qed (use "2.IH" dead in simp_all)
  qed
qed (simp add: self)

text \<open>
  What a step may do to the handles: no table grows beyond its limit, no object disappears, and every handle that
  exists afterwards existed before or is one of \<open>new\<close>.
\<close>

definition gains :: "kernel \<Rightarrow> kernel \<Rightarrow> handle list \<Rightarrow> bool" where
  "gains k k' new \<longleftrightarrow> same_shape k k' \<and> held k' \<subseteq># held k + mset new \<and>
     (\<forall>p. live_proc k p \<longrightarrow> ht_inv (table_of p k) \<longrightarrow> ht_inv (table_of p k'))"

lemma gains_refl [simp]: "gains k k []"
  by (simp add: gains_def)

lemma gains_trans:
  assumes "gains k k1 a" "gains k1 k2 b"
  shows "gains k k2 (a @ b)"
proof -
  have "held k2 \<subseteq># held k1 + mset b" "held k1 \<subseteq># held k + mset a" using assms by (simp_all add: gains_def)
  then have "held k2 \<subseteq># held k + mset a + mset b" using mset_subset_eq_mono_add_left_cancel by (metis subset_mset.add_right_mono subset_mset.order_trans)
  moreover have "ht_inv (table_of p k2)" if "live_proc k p" "ht_inv (table_of p k)" for p
    using assms that by (simp add: gains_def same_shape_def)
  ultimately show ?thesis using assms same_shape_trans [of k k1 k2] by (simp add: gains_def add.assoc)
qed

lemma gains_trans_nil: "gains k k1 [] \<Longrightarrow> gains k1 k2 [] \<Longrightarrow> gains k k2 []"
  using gains_trans [of k k1 "[]" k2 "[]"] by simp

lemma memory_drop_table: "table_of p (memory_drop i k) = table_of p k"
  by (auto simp: memory_drop_def table_of_def proc_at_def set_proc_def Let_def nth_list_update)

lemma drop_handles_gains: "gains k (drop_handles hs k) []"
proof (rule drop_handles_rule [where R = "\<lambda>k k'. gains k k' []"])
  show "gains k k' []" if "c < length (k_chans k)" "end_close c s k = (first, d, k')" for k c s first d k'
    using end_close_held [OF that(2,1)] by (simp add: gains_def table_of_def proc_at_def)
  show "gains k (memory_drop i k) []" for k i by (simp add: gains_def memory_drop_table)
  show "gains k (grant_drop i k) []" for k i by (simp add: gains_def table_of_def proc_at_def grant_drop_def Let_def same_shape_def)
qed (use gains_trans_nil in auto)

section \<open>The handle table of a process\<close>

definition proc_ok :: "nat \<Rightarrow> kernel \<Rightarrow> bool" where
  "proc_ok p k \<longleftrightarrow> live_proc k p \<and> ht_inv (table_of p k)"

definition table_get :: "nat \<Rightarrow> kernel \<Rightarrow> u32 \<Rightarrow> (status, handle) result" where
  "table_get p k i = ht_get (table_of p k) i"

lemma unpin_simps [simp]:
  "live_proc (unpin ob k) = live_proc k" "table_of p (unpin ob k) = table_of p k" "same_shape k (unpin ob k)"
  by (simp_all add: unpin_def table_of_def proc_at_def same_shape_def split: object.splits)

lemma unpin_held [simp]: "state_handles (unpin ob k) = state_handles k"
proof (cases ob)
  case (ObjChannel c s)
  let ?ch = "(k_chans k ! c)\<lparr>ce_pinned := (ce_pinned (k_chans k ! c))(s := False)\<rparr>"
  have "map chan_handles ((k_chans k)[c := ?ch]) = map chan_handles (k_chans k)"
    by (cases "c < length (k_chans k)") (auto simp: map_update chan_handles_def list_update_same_conv list_update_beyond)
  then show ?thesis by (simp add: unpin_def state_handles_def ObjChannel)
qed (simp_all add: unpin_def)

interpretation kproc: slot_table "table_insert p" "table_get p" "table_take p" "proc_ok p" state_handles for p
proof
  fix k k' :: kernel and h :: handle and i :: u32 and e :: status
  assume ok: "proc_ok p k"
  then have live: "live_proc k p" and inv: "ht_inv (table_of p k)" by (simp_all add: proc_ok_def)
  have set: "proc_ok p (set_table p t k) \<longleftrightarrow> ht_inv t" "table_of p (set_table p t k) = t" for t
    using same_shape_set_table [OF live, of t] live by (auto simp: proc_ok_def same_shape_def table_set_table)
  have set': "proc_ok p (set_table p t (unpin ob k)) \<longleftrightarrow> ht_inv t" "table_of p (set_table p t (unpin ob k)) = t" for t ob
    using same_shape_set_table [of "unpin ob k" p t] live by (auto simp: proc_ok_def same_shape_def table_set_table)
  show "\<exists>k'. table_take p i k = (Inr h, k')" if "table_get p k i = Inr h"
    using handles.tak_get [OF inv, of i h] that by (auto simp: table_take_def table_get_def)
  show "proc_ok p k' \<and> (\<forall>j. table_get p k' j = table_get p k j) \<and> state_handles k' = state_handles k" if res: "table_take p i k = (Inl e, k')"
  proof -
    obtain t where t: "ht_take i (table_of p k) = (Inl e, t)" "k' = set_table p t k" using res by (auto simp: table_take_def split: prod.splits)
    then have "t = table_of p k" by (auto simp: ht_take_def list_update_same_conv split: if_splits option.splits)
    then have "k' = k" using live t(2) by (auto simp: set_table_def table_of_def set_proc_def proc_at_def live_proc_def list_update_same_conv)
    then show ?thesis using ok by simp
  qed
  show "proc_ok p k' \<and> table_get p k i = Inr h \<and> (\<exists>e. table_get p k' i = Inl e) \<and> (\<forall>j. j \<noteq> i \<longrightarrow> table_get p k' j = table_get p k j) \<and>
      held k = add_mset h (held k')" if res: "table_take p i k = (Inr h, k')"
  proof -
    obtain t where t: "ht_take i (table_of p k) = (Inr h, t)" "k' = set_table p t k" using res by (auto simp: table_take_def split: prod.splits)
    note T = handles.tak_Ok [OF inv t(1)]
    have "held k = add_mset h (held k')" using held_set_table [OF live, of t] T t(2) by simp
    then show ?thesis using T t(2) set by (simp add: table_get_def)
  qed
  show "proc_ok p k' \<and> (\<forall>j. table_get p k' j = table_get p k j) \<and> state_handles k' = state_handles k" if res: "table_insert p h k = (Inl e, k')"
  proof -
    let ?k = "unpin (h_object h) k"
    obtain t where t: "ht_insert h (table_of p k) = (Inl e, t)" "k' = set_table p t ?k"
      using res by (auto simp: table_insert_def Let_def split: prod.splits)
    have "t = table_of p k" using ht_insert_cases [OF inv t(1)] by auto
    then have "set_table p t ?k = ?k"
      using live by (auto simp: set_table_def table_of_def set_proc_def proc_at_def live_proc_def list_update_same_conv unpin_def split: object.splits)
    then show ?thesis using t(2) ok by (simp add: proc_ok_def table_get_def)
  qed
  show "proc_ok p k' \<and> table_get p k' i = Inr h \<and> (\<exists>e. table_get p k i = Inl e) \<and> (\<forall>j. j \<noteq> i \<longrightarrow> table_get p k' j = table_get p k j) \<and>
      held k' = add_mset h (held k)" if res: "table_insert p h k = (Inr i, k')"
  proof -
    let ?k = "unpin (h_object h) k"
    obtain t where t: "ht_insert h (table_of p k) = (Inr i, t)" "k' = set_table p t ?k"
      using res by (auto simp: table_insert_def Let_def split: prod.splits)
    note T = handles.ins_Ok [OF inv t(1)]
    have "held k' = add_mset h (held k)" using held_set_table [of ?k p t] live T t(2) by simp
    then show ?thesis using T t(2) set' by (simp add: table_get_def)
  qed
qed

section \<open>What the system calls do to the handles\<close>

declare drop_handles.simps [simp del]

definition obj_valid :: "kernel \<Rightarrow> object \<Rightarrow> bool" where
  "obj_valid k ob = (case ob of
     ObjChannel c s \<Rightarrow> c < length (k_chans k)
   | ObjMemory i \<Rightarrow> i < length (k_mems k)
   | ObjEvent e \<Rightarrow> e < length (k_events k)
   | ObjDevice d \<Rightarrow> d < length (k_grants k)
   | _ \<Rightarrow> True)"

definition kernel_inv :: "kernel \<Rightarrow> bool" where
  [nexo_inv]: "kernel_inv k \<longleftrightarrow> (\<forall>p. live_proc k p \<longrightarrow> ht_inv (table_of p k)) \<and> (\<forall>h\<in>set (state_handles k). obj_valid k (h_object h))"

lemma obj_valid_mono: "same_shape k k' \<Longrightarrow> obj_valid k ob \<Longrightarrow> obj_valid k' ob"
  by (auto simp: same_shape_def obj_valid_def split: object.splits)

lemma gains_inv:
  assumes "kernel_inv k" "gains k k' new" "\<And>h. h \<in> set new \<Longrightarrow> obj_valid k' (h_object h)"
  shows "kernel_inv k'"
proof -
  have "set (state_handles k') \<subseteq> set (state_handles k) \<union> set new"
    using assms(2) set_mset_mono [of "held k'" "held k + mset new"] by (simp add: gains_def)
  then show ?thesis using assms obj_valid_mono [of k k'] by (auto simp: kernel_inv_def gains_def same_shape_def)
qed

lemma table_get_held: "live_proc k p \<Longrightarrow> table_get p k i = Ok h \<Longrightarrow> h \<in> set (state_handles k)"
proof -
  assume l: "live_proc k p" and g: "table_get p k i = Ok h"
  have "Some h \<in> set (table_of p k)" using g nth_mem by (fastforce simp: table_get_def ht_get_def split: if_splits option.splits)
  moreover obtain q where "k_procs k ! p = Some q" "p < length (k_procs k)" using l by (auto simp: live_proc_def)
  ultimately show ?thesis
    by (force simp: state_handles_def proc_handles_def table_of_def proc_at_def ht_entries_iff intro!: bexI [of _ "Some q"] dest: nth_mem)
qed

lemma set_table_gains_inv:
  assumes "live_proc k p" "ht_inv t"
  shows "same_shape k (set_table p t k)" "\<And>q. live_proc k q \<Longrightarrow> ht_inv (table_of q k) \<Longrightarrow> ht_inv (table_of q (set_table p t k))"
  using assms by (auto simp: same_shape_set_table table_set_table)

lemma table_insert_gains:
  assumes ok: "proc_ok p k" and r: "table_insert p h k = (r, k')"
  shows "gains k k' (case r of Inr _ \<Rightarrow> [h] | Inl _ \<Rightarrow> [])"
proof -
  obtain t where t: "ht_insert h (table_of p k) = (r, t)" "k' = set_table p t (unpin (h_object h) k)"
    using r by (auto simp: table_insert_def Let_def split: prod.splits)
  have live: "live_proc (unpin (h_object h) k) p" and inv: "ht_inv (table_of p k)" using ok by (simp_all add: proc_ok_def)
  have it: "ht_inv t" using handles.ins_Ok [OF inv] handles.ins_Err [OF inv] t(1) by (cases r) auto
  have "held k' = held k + mset (case r of Inr _ \<Rightarrow> [h] | Inl _ \<Rightarrow> [])"
    using kproc.ins_Ok [OF ok] kproc.ins_Err [OF ok] r by (cases r) auto
  then show ?thesis
    using set_table_gains_inv [OF live it] same_shape_trans [OF unpin_simps(3)] by (simp add: gains_def t(2))
qed

lemma table_take_gains:
  assumes ok: "proc_ok p k" and r: "table_take p i k = (r, k')"
  shows "gains k k' []" "held k = held k' + mset (case r of Inr h \<Rightarrow> [h] | Inl _ \<Rightarrow> [])"
proof -
  obtain t where t: "ht_take i (table_of p k) = (r, t)" "k' = set_table p t k" using r by (auto simp: table_take_def split: prod.splits)
  have live: "live_proc k p" and inv: "ht_inv (table_of p k)" using ok by (simp_all add: proc_ok_def)
  have it: "ht_inv t" using handles.tak_Ok [OF inv] handles.tak_Err [OF inv] t(1) by (cases r) auto
  show h: "held k = held k' + mset (case r of Inr h \<Rightarrow> [h] | Inl _ \<Rightarrow> [])"
    using kproc.tak_Ok [OF ok] kproc.tak_Err [OF ok] r by (cases r) auto
  then show "gains k k' []"
    using set_table_gains_inv [OF live it] by (simp add: gains_def t(2))
qed

lemma gains_proc_ok: "gains k k' new \<Longrightarrow> proc_ok p k \<Longrightarrow> proc_ok p k'"
  by (simp add: gains_def proc_ok_def same_shape_def)

lemma take_all_gains:
  "proc_ok p k \<Longrightarrow> take_all (table_take p) ids k = (r, k') \<Longrightarrow>
   gains k k' [] \<and> (case r of Inr hs \<Rightarrow> held k = held k' + mset hs | Inl _ \<Rightarrow> True)"
proof (induction ids arbitrary: k r k')
  case (Cons i ids)
  obtain r1 k1 where 1: "table_take p i k = (r1, k1)" by (metis surj_pair)
  note g = table_take_gains [OF Cons.prems(1) 1]
  show ?case
  proof (cases r1)
    case (Inl e)
    then show ?thesis using Cons.prems(2) 1 g by auto
  next
    case (Inr h)
    obtain r2 k2 where 2: "take_all (table_take p) ids k1 = (r2, k2)" by (metis surj_pair)
    note IH = Cons.IH [OF gains_proc_ok [OF g(1) Cons.prems(1)] 2]
    have "k' = k2" "r = (case r2 of Inl e \<Rightarrow> Inl e | Inr hs \<Rightarrow> Inr (h # hs))"
      using Cons.prems(2) 1 2 Inr by (auto split: sum.splits)
    then show ?thesis using IH g Inr gains_trans_nil [OF g(1)] by (auto split: sum.splits)
  qed
qed auto

lemma insert_all_gains:
  "proc_ok p k \<Longrightarrow> insert_all (table_insert p) hs k = (r, rest, k') \<Longrightarrow> gains k k' hs"
proof (induction hs arbitrary: k r rest k')
  case (Cons h hs)
  obtain r1 k1 where 1: "table_insert p h k = (r1, k1)" by (metis surj_pair)
  note g = table_insert_gains [OF Cons.prems(1) 1]
  show ?case
  proof (cases r1)
    case (Inl e)
    then have "k' = k1" "gains k k1 []" using Cons.prems(2) 1 g by auto
    then show ?thesis by (auto simp: gains_def intro: subset_mset.order_trans)
  next
    case (Inr i)
    obtain r2 rest2 k2 where 2: "insert_all (table_insert p) hs k1 = (r2, rest2, k2)" by (metis surj_pair)
    have "gains k1 k2 hs" by (rule Cons.IH [OF gains_proc_ok [OF g Cons.prems(1)] 2])
    moreover have "k' = k2" using Cons.prems(2) 1 2 Inr by (auto split: sum.splits)
    ultimately show ?thesis using gains_trans [OF g] Inr by fastforce
  qed
qed simp

lemma insert_or_drop_gains:
  assumes "proc_ok p k" "insert_or_drop p h k = (r, k')"
  shows "gains k k' [h]"
proof -
  obtain r1 k1 where 1: "table_insert p h k = (r1, k1)" by (metis surj_pair)
  note g = table_insert_gains [OF assms(1) 1]
  show ?thesis
  proof (cases r1)
    case (Inl e)
    then have "k' = drop_handles [h] k1" "gains k k1 []" using assms(2) 1 g by (auto simp: insert_or_drop_def)
    then have "gains k k' []" using gains_trans_nil drop_handles_gains by blast
    then show ?thesis by (auto simp: gains_def intro: subset_mset.order_trans)
  next
    case (Inr i)
    then show ?thesis using assms(2) 1 g by (auto simp: insert_or_drop_def)
  qed
qed

lemma chan_update_gains:
  assumes "c < length (k_chans k)" "mset (chan_handles ch) + mset out = mset (chan_handles (k_chans k ! c)) + mset new"
  shows "gains k (k\<lparr>k_chans := (k_chans k)[c := ch]\<rparr>) new" "held (k\<lparr>k_chans := (k_chans k)[c := ch]\<rparr>) + mset out = held k + mset new"
proof -
  let ?k = "k\<lparr>k_chans := (k_chans k)[c := ch]\<rparr>"
  have "held ?k + (mset out + mset (chan_handles (k_chans k ! c))) = held k + mset new + mset (chan_handles (k_chans k ! c))"
    using held_set_chan [OF assms(1), of ch] assms(2)
    by (metis (no_types, lifting) add.assoc add.commute)
  then show h: "held ?k + mset out = held k + mset new" by (simp add: add.assoc [symmetric])
  then have "held ?k \<subseteq># held k + mset new" by (metis mset_subset_eq_add_left)
  then show "gains k ?k new" by (simp add: gains_def same_shape_def table_of_def proc_at_def)
qed

lemma gains_mono: "gains k k' a \<Longrightarrow> mset a \<subseteq># mset b \<Longrightarrow> gains k k' b"
  by (auto simp: gains_def intro: subset_mset.order_trans)

lemma end_send_gains:
  assumes c: "c < length (k_chans k)" and r: "end_send c s msg k = (r, k')"
  shows "gains k k' (case r of Inr _ \<Rightarrow> msg_handles msg | Inl _ \<Rightarrow> [])" "r = Err e \<Longrightarrow> k' = k"
    "r = Ok () \<Longrightarrow> held k' = held k + mset (msg_handles msg)"
proof -
  obtain q w ch where ch: "ch_send s msg (k_chans k ! c) = (q, w, ch)" by (metis surj_pair)
  show "r = Err e \<Longrightarrow> k' = k" using r ch by (auto simp: end_send_def split: sum.splits)
  show g: "gains k k' (case r of Inr _ \<Rightarrow> msg_handles msg | Inl _ \<Rightarrow> [])" and "r = Ok () \<Longrightarrow> held k' = held k + mset (msg_handles msg)"
  proof (atomize (full), cases q)
    case (Inl e)
    then show "gains k k' (case r of Inr _ \<Rightarrow> msg_handles msg | Inl _ \<Rightarrow> []) \<and> (r = Ok () \<longrightarrow> held k' = held k + mset (msg_handles msg))"
      using r ch by (auto simp: end_send_def)
  next
    case (Inr u)
    have "mset (chan_handles ch) + mset [] = mset (chan_handles (k_chans k ! c)) + mset (msg_handles msg)"
      using ch Inr chan_handles_side [of ch s] chan_handles_side [of "k_chans k ! c" s]
      by (auto simp: ch_send_def Let_def split: if_splits)
    note u = chan_update_gains [OF c this]
    show "gains k k' (case r of Inr _ \<Rightarrow> msg_handles msg | Inl _ \<Rightarrow> []) \<and> (r = Ok () \<longrightarrow> held k' = held k + mset (msg_handles msg))"
      using r ch Inr u by (auto simp: end_send_def gains_def same_shape_def table_of_def proc_at_def state_handles_def)
  qed
qed

lemma sys_handle_close_gains:
  assumes "proc_ok p k" "sys_handle_close p f k = (r, k')"
  shows "gains k k' []"
proof -
  obtain r1 k1 where 1: "table_take p (ucast (r_rdi f)) k = (r1, k1)" by (metis surj_pair)
  note g = table_take_gains(1) [OF assms(1) 1]
  show ?thesis using assms(2) 1 g gains_trans_nil [OF g drop_handles_gains] by (auto simp: sys_handle_close_def split: sum.splits)
qed

text \<open>A duplicate has the object of a handle the process holds with the right to duplicate, and not more rights.\<close>

lemma sys_handle_duplicate_gains:
  assumes "proc_ok p k" "sys_handle_duplicate p f k = (r, k')"
  shows "gains k k' [] \<or> (\<exists>h w. table_get p k (ucast (r_rdi f)) = Ok h \<and> rights_contains (h_rights h) RIGHT_DUPLICATE \<and>
    is_superset_of (h_rights h) w \<and> gains k k' [\<lparr>h_object = h_object h, h_rights = w\<rparr>])"
proof (cases "ht_get (table_of p k) (ucast (r_rdi f))")
  case (Inl e)
  then show ?thesis using assms(2) by (simp add: sys_handle_duplicate_def)
next
  case (Inr h)
  show ?thesis
  proof (cases "rights_contains (h_rights h) RIGHT_DUPLICATE \<and> is_superset_of (h_rights h) (ucast (r_rsi f))")
    case True
    then have "insert_or_drop p \<lparr>h_object = h_object h, h_rights = ucast (r_rsi f)\<rparr> k = (r, k')"
      using assms(2) Inr by (simp add: sys_handle_duplicate_def Let_def)
    then have "gains k k' [\<lparr>h_object = h_object h, h_rights = ucast (r_rsi f)\<rparr>]" by (rule insert_or_drop_gains [OF assms(1)])
    then show ?thesis using True Inr by (auto simp: table_get_def)
  next
    case False
    then show ?thesis using assms(2) Inr by (auto simp: sys_handle_duplicate_def Let_def)
  qed
qed

lemma create_pair_gains: "create_pair k = (c, k') \<Longrightarrow> gains k k' [] \<and> c = length (k_chans k) \<and> length (k_chans k') = Suc c"
  by (auto simp: create_pair_def gains_def same_shape_def table_of_def proc_at_def state_handles_def chan_handles_def channel_new_def)

lemma sys_channel_create_gains:
  assumes ok: "proc_ok p k" and r: "sys_channel_create p k = (r, k')"
  shows "gains k k' [\<lparr>h_object = ObjChannel (length (k_chans k)) False, h_rights = RIGHTS_CHANNEL_DEFAULT\<rparr>,
      \<lparr>h_object = ObjChannel (length (k_chans k)) True, h_rights = RIGHTS_CHANNEL_DEFAULT\<rparr>]"
    "length (k_chans k) < length (k_chans k')"
proof -
  let ?a = "\<lparr>h_object = ObjChannel (length (k_chans k)) False, h_rights = RIGHTS_CHANNEL_DEFAULT\<rparr>"
  let ?b = "\<lparr>h_object = ObjChannel (length (k_chans k)) True, h_rights = RIGHTS_CHANNEL_DEFAULT\<rparr>"
  obtain c k0 where 0: "create_pair k = (c, k0)" by (metis surj_pair)
  note c = create_pair_gains [OF 0]
  have ok0: "proc_ok p k0" using gains_proc_ok c ok by blast
  obtain r1 k1 where 1: "table_insert p ?a k0 = (r1, k1)" by (metis surj_pair)
  note g1 = table_insert_gains [OF ok0 1]
  have ok1: "proc_ok p k1" using gains_proc_ok [OF g1 ok0] .
  obtain r2 k2 where 2: "table_insert p ?b k1 = (r2, k2)" by (metis surj_pair)
  note g2 = table_insert_gains [OF ok1 2]
  have ok2: "proc_ok p k2" using gains_proc_ok [OF g2 ok1] .
  obtain r3 k3 where 3: "table_take p (case r1 of Inr ha \<Rightarrow> ha | Inl _ \<Rightarrow> 0) k2 = (r3, k3)" by (metis surj_pair)
  note g3 = table_take_gains(1) [OF ok2 3]
  have gd: "gains k1 (drop_handles [?a, ?b] (unpin (h_object ?b) k1)) []"
  proof -
    have "gains k1 (unpin (h_object ?b) k1) []" by (simp add: gains_def)
    then show ?thesis using gains_trans_nil drop_handles_gains by blast
  qed
  have sub: "gains k k' [?a, ?b] \<and> same_shape k0 k'"
  proof (cases r1)
    case (Inl e)
    have k': "k' = drop_handles [?a, ?b] (unpin (h_object ?b) k1)" using r 0 c 1 Inl by (auto simp: sys_channel_create_def Let_def)
    have "gains k0 k' []" using gains_trans_nil [of k0 k1 k'] g1 gd Inl k' by simp
    moreover from this have "gains k k' []" using gains_trans_nil c by blast
    ultimately show ?thesis using gains_mono [of k k' "[]" "[?a, ?b]"] by (auto simp: gains_def)
  next
    case (Inr ha)
    have G: "gains k k1 [?a]" using gains_trans [of k k0 "[]" k1 "[?a]"] c g1 Inr by simp
    show ?thesis
    proof (cases r2)
      case (Inr hb)
      have "k' = k2" using r 0 c 1 2 \<open>r1 = Inr ha\<close> Inr by (auto simp: sys_channel_create_def Let_def)
      then show ?thesis using gains_trans [OF G, of k2 "[?b]"] g1 g2 Inr same_shape_trans [of k0 k1 k2] \<open>r1 = Inr ha\<close> by (simp add: gains_def)
    next
      case (Inl e)
      have k': "k' = drop_handles [?b, ?a] k3" using r 0 c 1 2 3 \<open>r1 = Inr ha\<close> Inl by (auto simp: sys_channel_create_def Let_def)
      have "gains k1 k' []" using gains_trans_nil [of k1 k2 k3] gains_trans_nil [OF _ drop_handles_gains, of k1 k3] g2 g3 Inl k' by simp
      then show ?thesis
        using gains_trans [OF G, of k' "[]"] gains_mono [of k k' "[?a]" "[?a, ?b]"] g1 same_shape_trans [of k0 k1 k'] \<open>r1 = Inr ha\<close>
        by (auto simp: gains_def)
    qed
  qed
  then show "gains k k' [?a, ?b]" by blast
  show "length (k_chans k) < length (k_chans k')" using sub c by (auto simp: same_shape_def)
qed

text \<open>Sending moves the handles out of the table, and into the queue of the peer if the send works.\<close>

lemma chan_valid: "kernel_inv k \<Longrightarrow> live_proc k p \<Longrightarrow> table_get p k i = Ok h \<Longrightarrow> obj_valid k (h_object h)"
  using table_get_held by (auto simp: kernel_inv_def)

lemma error_not_ok:
  "ht_get t i = Err e \<Longrightarrow> e \<noteq> StOk" "ht_take i t = (Err e, t') \<Longrightarrow> e \<noteq> StOk" "ht_insert h t = (Err e, t') \<Longrightarrow> e \<noteq> StOk"
  "check_user_readable m root ptr len = Err e \<Longrightarrow> e \<noteq> StOk" "check_user_writable m root ptr len = Err e \<Longrightarrow> e \<noteq> StOk"
  "copy_from_user_into m root ptr n = Err e \<Longrightarrow> e \<noteq> StOk" "copy_from_user m root ptr len = Err e \<Longrightarrow> e \<noteq> StOk"
  "ch_send s msg ch = (Err e, w, ch') \<Longrightarrow> e \<noteq> StOk"
proof -
  show r: "check_user_readable m root ptr len = Err e \<Longrightarrow> e \<noteq> StOk" for ptr len
    by (auto simp: check_user_readable_def Let_def split: if_splits option.splits)
  show "copy_from_user_into m root ptr n = Err e \<Longrightarrow> e \<noteq> StOk"
    using r by (auto simp: copy_from_user_into_def try_bind_def split: if_splits sum.splits)
qed (auto simp: ht_get_def ht_take_def ht_insert_def check_user_writable_def copy_from_user_def ch_send_def Let_def
    split: if_splits option.splits)

lemma copy_payload_err: "copy_payload m root ptr len = Err e \<Longrightarrow> e \<noteq> StOk"
  using error_not_ok(6) [of m root ptr "unat len" e] error_not_ok(7) [of m root ptr len e]
  by (auto simp: copy_payload_def try_bind_def split: if_splits sum.splits)

lemma send_check_err: "send_check t h c prev ids = Some e \<Longrightarrow> e \<noteq> StOk"
  by (induction t h c prev ids rule: send_check.induct) (auto split: if_splits sum.splits dest: error_not_ok(1))

lemma take_all_err: "take_all (table_take p) ids k = (Err e, k') \<Longrightarrow> e \<noteq> StOk"
proof (induction ids arbitrary: k)
  case (Cons i ids)
  then show ?case by (auto simp: table_take_def split: prod.splits sum.splits dest: error_not_ok(2))
qed simp

lemma sys_channel_send_cases:
  assumes "sys_channel_send p f k = ((st, v), k')"
  obtains (same) "k' = k" "st \<noteq> StOk"
  | (taken) ids where "take_all (table_take p) ids k = (Err st, k')" "st \<noteq> StOk"
  | (sent) hn c s data ids moved k1 r2 k2 where "table_get p k (ucast (r_rdi f)) = Ok hn" "h_object hn = ObjChannel c s"
      "take_all (table_take p) ids k = (Ok moved, k1)" "end_send c s \<lparr>msg_data = data, msg_handles = moved\<rparr> k1 = (r2, k2)"
      "case r2 of Inr _ \<Rightarrow> st = StOk \<and> k' = k2 | Inl e \<Rightarrow> st = e \<and> k' = drop_handles moved k2"
  using assms unfolding sys_channel_send_def Let_def table_get_def
  by (simp split: if_splits sum.splits object.splits option.splits prod.splits)
    (metis error_not_ok copy_payload_err send_check_err take_all_err)+

lemma sys_channel_send_gains:
  assumes inv: "kernel_inv k" and live: "live_proc k p" and r: "sys_channel_send p f k = ((st, v), k')"
  shows "gains k k' [] \<and> (st = StOk \<longrightarrow> held k' = held k)"
  using r
proof (cases rule: sys_channel_send_cases)
  case (taken ids)
  have ok: "proc_ok p k" using inv live by (simp add: kernel_inv_def proc_ok_def)
  then show ?thesis using take_all_gains [OF ok taken(1)] taken(2) by simp
next
  case (sent hn c s data ids moved k1 r2 k2)
  have ok: "proc_ok p k" using inv live by (simp add: kernel_inv_def proc_ok_def)
  have g: "gains k k1 []" "held k = held k1 + mset moved" using take_all_gains [OF ok sent(3)] by auto
  have "c < length (k_chans k)" using chan_valid [OF inv live sent(1)] sent(2) by (simp add: obj_valid_def)
  then have c: "c < length (k_chans k1)" using g(1) by (auto simp: gains_def same_shape_def)
  note S = end_send_gains [OF c sent(4)]
  show ?thesis
  proof (cases r2)
    case (Inl er)
    then have "k2 = k1" "st = er" "k' = drop_handles moved k1" using S(2) sent(5) by auto
    moreover have "er \<noteq> StOk" using sent(4) Inl error_not_ok(8) by (auto simp: end_send_def split: prod.splits sum.splits)
    ultimately show ?thesis using gains_trans_nil [OF g(1) drop_handles_gains] by auto
  next
    case (Inr u)
    then have k': "k' = k2" "held k2 = held k1 + mset moved" "gains k1 k2 moved" using S sent(5) by auto
    then have "gains k k2 []" using g by (auto simp: gains_def same_shape_def)
    then show ?thesis using k' g by simp
  qed
qed simp

text \<open>Receiving takes the handles out of the queue; they reach the table or are dropped.\<close>

lemma set_mem_gains [simp]: "gains k (set_mem m k) []"
  by (simp add: gains_def same_shape_def set_mem_def table_of_def proc_at_def state_handles_def)

lemma recv_deliver_gains:
  assumes ok: "proc_ok p k" and r: "recv_deliver p f msg k = (r, k')"
  shows "gains k k' (msg_handles msg)"
proof -
  let ?hs = "msg_handles msg" and ?root = "as_root (pr_space (proc_at p k))"
  have nil: "gains k k2 [] \<Longrightarrow> gains k k2 ?hs" for k2 using gains_mono [of k k2 "[]" ?hs] by simp
  show ?thesis
  proof (cases "length (payload_deref (msg_data msg)) > unat (r_rdx f) \<or> length ?hs > unat (r_r8 f)")
    case True
    then show ?thesis using r nil drop_handles_gains by (auto simp: recv_deliver_def Let_def)
  next
    case False
    obtain c m where c: "copy_to_user ?root (r_rsi f) (payload_deref (msg_data msg)) (fst (k_mm k)) = (c, m)" by (metis surj_pair)
    obtain q rest k2 where q: "insert_all (table_insert p) ?hs (set_mem m k) = (q, rest, k2)" by (metis surj_pair)
    have ok1: "proc_ok p (set_mem m k)" by (rule gains_proc_ok [OF set_mem_gains ok])
    have g: "gains k k2 ?hs" using gains_trans [OF set_mem_gains insert_all_gains [OF ok1 q]] by simp
    show ?thesis
    proof (cases c)
      case (Inl e)
      then show ?thesis
        using False r c nil gains_trans_nil [OF set_mem_gains drop_handles_gains] by (auto simp: recv_deliver_def Let_def)
    next
      case (Inr u)
      then show ?thesis
        using False r c q g gains_trans [OF g drop_handles_gains] gains_trans [OF g set_mem_gains]
        by (auto simp: recv_deliver_def Let_def split: sum.splits prod.splits)
    qed
  qed
qed

lemma recv_chan_handles:
  assumes "(if nonblock then map_prod Some id (ch_try_recv s ch) else ch_recv_turn killed s me ch) = (rx, ch')"
  shows "mset (chan_handles ch) = mset (chan_handles ch') + mset (case rx of Some (Inr msg) \<Rightarrow> msg_handles msg | _ \<Rightarrow> [])"
  using assms chan_handles_side [of ch s] chan_handles_side [of ch' s]
  by (auto simp: ch_try_recv_def ch_recv_turn_def Let_def ch_register_waiter_def chan_handles_def queue_handles_def
      split: if_splits list.splits prod.splits option.splits)

lemma sys_channel_recv_gains:
  assumes inv: "kernel_inv k" and live: "live_proc k p" and r: "sys_channel_recv nonblock killed me p f k = (r, k')"
  shows "gains k k' []"
proof -
  have ok: "proc_ok p k" using inv live by (simp add: kernel_inv_def proc_ok_def)
  show ?thesis
  proof (cases "\<exists>hn c s. table_get p k (ucast (r_rdi f)) = Ok hn \<and> h_object hn = ObjChannel c s")
    case True
    then obtain hn c s where h: "table_get p k (ucast (r_rdi f)) = Ok hn" "h_object hn = ObjChannel c s" by blast
    have c: "c < length (k_chans k)" using chan_valid [OF inv live h(1)] h(2) by (simp add: obj_valid_def)
    obtain rx ch where x: "(if nonblock then map_prod Some id (ch_try_recv s (k_chans k ! c))
        else ch_recv_turn killed s me (k_chans k ! c)) = (rx, ch)" by (metis surj_pair)
    let ?out = "case rx of Some (Inr msg) \<Rightarrow> msg_handles msg | _ \<Rightarrow> []" and ?k = "k\<lparr>k_chans := (k_chans k)[c := ch]\<rparr>"
    have "mset (chan_handles ch) + mset ?out = mset (chan_handles (k_chans k ! c)) + mset []"
      using recv_chan_handles [OF x] by simp
    note u = chan_update_gains [OF c this]
    have "k' = k \<or> k' = ?k \<or> (\<exists>msg r2. rx = Some (Inr msg) \<and> recv_deliver p f msg ?k = (r2, k'))"
      using r h x unfolding sys_channel_recv_def Let_def table_get_def
      by (simp split: if_splits sum.splits option.splits prod.splits)
    then show ?thesis
    proof (elim disjE exE conjE)
      fix msg r2 assume d: "rx = Some (Inr msg)" "recv_deliver p f msg ?k = (r2, k')"
      have "gains ?k k' (msg_handles msg)" by (rule recv_deliver_gains [OF gains_proc_ok [OF u(1) ok] d(2)])
      then show ?thesis using u d(1) by (auto simp: gains_def same_shape_def)
    qed (simp_all add: u)
  next
    case False
    then show ?thesis using r unfolding sys_channel_recv_def Let_def table_get_def
      by (auto split: if_splits sum.splits object.splits)
  qed
qed

lemma take_spawn_handles_gains:
  assumes ok: "proc_ok p k" and r: "take_spawn_handles p hptr nh k = (r, k')"
  shows "gains k k' [] \<and> (case r of Inr hs \<Rightarrow> held k = held k' + mset hs | Inl _ \<Rightarrow> True)"
proof -
  have "(\<exists>ids. take_all (table_take p) ids k = (r, k')) \<or> (k' = k \<and> (\<exists>e. r = Err e))"
    using r by (auto simp: take_spawn_handles_def Let_def split: sum.splits option.splits)
  then show ?thesis using take_all_gains [OF ok] by auto
qed

lemma sys_event_create_gains:
  assumes "proc_ok p k" "sys_event_create p f k = (r, k')"
  shows "gains k k' [\<lparr>h_object = ObjEvent (length (k_events k)), h_rights = RIGHTS_EVENT_DEFAULT\<rparr>]"
    "length (k_events k) < length (k_events k')"
proof -
  let ?h = "\<lparr>h_object = ObjEvent (length (k_events k)), h_rights = RIGHTS_EVENT_DEFAULT\<rparr>"
  let ?k = "k\<lparr>k_events := k_events k @ [event_new (r_rdi f \<noteq> 0)]\<rparr>"
  have g: "gains k ?k []" by (simp add: gains_def same_shape_def table_of_def proc_at_def state_handles_def)
  have i: "gains ?k k' [?h]" using insert_or_drop_gains [OF gains_proc_ok [OF g assms(1)]] assms(2) by (simp add: sys_event_create_def Let_def)
  show "gains k k' [?h]" using gains_trans [OF g i] by simp
  show "length (k_events k) < length (k_events k')" using i by (auto simp: gains_def same_shape_def)
qed

lemma sys_event_set_gains: "sys_event_set n p f k = (r, k') \<Longrightarrow> gains k k' []"
  by (auto simp: sys_event_set_def gains_def same_shape_def table_of_def proc_at_def state_handles_def
      split: sum.splits object.splits if_splits prod.splits)

lemma set_proc_gains:
  assumes "live_proc k p" "pr_handles pr = table_of p k"
  shows "gains k (set_proc p pr k) []"
proof -
  have "held (set_proc p pr k) = held k" using held_set_proc [OF assms(1), of pr] assms(2) by simp
  moreover have "table_of q (set_proc p pr k) = table_of q k" for q
    using assms by (auto simp: table_of_def proc_at_def set_proc_def live_proc_def nth_list_update)
  ultimately show ?thesis using same_shape_set_proc [OF assms(1)] by (simp add: gains_def)
qed

lemma set_shm_gains: "live_proc k p \<Longrightarrow> gains k (set_shm p n k) []"
  unfolding set_shm_def by (rule set_proc_gains) (simp_all add: table_of_def)

lemma mm_gains: "gains k (k\<lparr>k_mm := st\<rparr>) []"
  by (simp add: gains_def same_shape_def table_of_def proc_at_def)

lemma new_memory_gains: "gains k (k\<lparr>k_mm := st, k_mems := k_mems k @ ms\<rparr>) []"
  by (simp add: gains_def same_shape_def table_of_def proc_at_def)

lemma set_shm_mems [simp]: "k_mems (set_shm p n k) = k_mems k"
  by (simp add: set_shm_def set_proc_def)

lemma sys_memory_create_gains:
  assumes ok: "proc_ok p k" and r: "sys_memory_create p f k = (r, k')"
  shows "gains k k' [] \<or> (gains k k' [\<lparr>h_object = ObjMemory (length (k_mems k)), h_rights = RIGHTS_MEMORY_DEFAULT\<rparr>] \<and>
    length (k_mems k) < length (k_mems k'))"
proof -
  let ?n = "pr_shm_pages (proc_at p k) + r_rdi f"
  let ?k = "set_shm p ?n k" and ?h = "\<lparr>h_object = ObjMemory (length (k_mems k)), h_rights = RIGHTS_MEMORY_DEFAULT\<rparr>"
  have live: "live_proc k p" using ok by (simp add: proc_ok_def)
  have g: "gains k ?k []" by (rule set_shm_gains [OF live])
  have undo: "gains k (set_shm p m k1) []" if g1: "gains k k1 []" for m k1
    using gains_trans_nil [OF g1 set_shm_gains] g1 live by (simp add: gains_def same_shape_def)
  obtain fr st where al: "alloc_zeroed_list (unat (r_rdi f)) [] (k_mm ?k) = (fr, st)" by (metis surj_pair)
  have g1: "gains k (?k\<lparr>k_mm := st\<rparr>) []" by (rule gains_trans_nil [OF g mm_gains])
  consider "gains k k' []" | frames k2 where "k2 = ?k\<lparr>k_mm := st, k_mems := k_mems ?k @ [\<lparr>mo_frames = frames, mo_len = r_rdi f * PAGE_SIZE, mo_owner = p\<rparr>]\<rparr>"
    "insert_or_drop p ?h k2 = (r, k')"
    using r al undo [OF g] undo [OF g1] by (auto simp: sys_memory_create_def Let_def split: if_splits option.splits)
  then show ?thesis
  proof cases
    case (2 frames k2)
    have g2: "gains k k2 []" unfolding 2(1) by (rule gains_trans_nil [OF g new_memory_gains])
    have "gains k2 k' [?h]" by (rule insert_or_drop_gains [OF gains_proc_ok [OF g2 ok] 2(2)])
    moreover from this have "length (k_mems k) < length (k_mems k')" by (auto simp: gains_def same_shape_def 2(1))
    ultimately show ?thesis using gains_trans [OF g2] by fastforce
  qed simp
qed

lemma sys_memory_map_gains:
  assumes live: "live_proc k p" and r: "sys_memory_map p f k = (r, k')"
  shows "gains k k' []"
proof -
  consider "k' = k" | pr st where "k' = set_proc p pr (k\<lparr>k_mm := st\<rparr>)" "pr_handles pr = table_of p k"
    using r by (auto simp: sys_memory_map_def Let_def table_of_def split: sum.splits object.splits if_splits prod.splits)
  then show ?thesis
  proof cases
    case (2 pr st)
    then show ?thesis
      using gains_trans_nil [OF mm_gains [of k st] set_proc_gains [of "k\<lparr>k_mm := st\<rparr>" p pr]] live
      by (simp add: table_of_def proc_at_def)
  qed simp
qed

lemma close_table_gains:
  assumes "live_proc k p"
  shows "gains k (close_table p k) []"
proof -
  have "held (set_table p [] k) + mset (ht_entries (table_of p k)) = held k" using held_set_table [OF assms, of "[]"] by (simp add: ht_entries_def)
  then have "held (set_table p [] k) \<subseteq># held k" by (metis mset_subset_eq_add_left)
  then have "gains k (set_table p [] k) []"
    using set_table_gains_inv [OF assms, of "[]"] by (simp add: gains_def ht_inv_def)
  then show ?thesis using gains_trans_nil drop_handles_gains by (simp add: close_table_def)
qed

end
