(* ===== verification/Kernel_Caps.thy ===== *)
theory Kernel_Caps
  imports Kernel_Ipc
begin

text \<open>
  Runs of system calls and what they can do with capabilities. A run is a list of calls made by live processes;
  the state goes from one call to the next. Rights only shrink as handles are copied and passed on, handles that
  may not be duplicated are never multiplied, and an object is destroyed only when nobody refers to it any more.
\<close>

section \<open>Runs\<close>

datatype kernel_op =
    HandleClose nat trap_frame
  | HandleDuplicate nat trap_frame
  | ChannelCreate nat
  | ChannelSend nat trap_frame
  | ChannelRecv bool bool "nat option" nat trap_frame
  | EventCreate nat trap_frame
  | EventSet u64 nat trap_frame
  | MemoryCreate nat trap_frame
  | MemoryMap nat trap_frame
  | ProcessExit nat

fun op_proc :: "kernel_op \<Rightarrow> nat" where
  "op_proc (HandleClose p f) = p"
| "op_proc (HandleDuplicate p f) = p"
| "op_proc (ChannelCreate p) = p"
| "op_proc (ChannelSend p f) = p"
| "op_proc (ChannelRecv nb kl me p f) = p"
| "op_proc (EventCreate p f) = p"
| "op_proc (EventSet n p f) = p"
| "op_proc (MemoryCreate p f) = p"
| "op_proc (MemoryMap p f) = p"
| "op_proc (ProcessExit p) = p"

fun kernel_exec :: "kernel_op \<Rightarrow> kernel \<Rightarrow> kernel" where
  "kernel_exec (HandleClose p f) k = snd (sys_handle_close p f k)"
| "kernel_exec (HandleDuplicate p f) k = snd (sys_handle_duplicate p f k)"
| "kernel_exec (ChannelCreate p) k = snd (sys_channel_create p k)"
| "kernel_exec (ChannelSend p f) k = snd (sys_channel_send p f k)"
| "kernel_exec (ChannelRecv nb kl me p f) k = snd (sys_channel_recv nb kl me p f k)"
| "kernel_exec (EventCreate p f) k = snd (sys_event_create p f k)"
| "kernel_exec (EventSet n p f) k = snd (sys_event_set n p f k)"
| "kernel_exec (MemoryCreate p f) k = snd (sys_memory_create p f k)"
| "kernel_exec (MemoryMap p f) k = snd (sys_memory_map p f k)"
| "kernel_exec (ProcessExit p) k = close_table p k"

definition kernel_run :: "kernel_op list \<Rightarrow> kernel \<Rightarrow> kernel" where
  "kernel_run ops k = fold kernel_exec ops k"

definition live_ops :: "kernel \<Rightarrow> kernel_op list \<Rightarrow> bool" where
  "live_ops k ops \<longleftrightarrow> list_all (\<lambda>op. live_proc k (op_proc op)) ops"

section \<open>Capabilities\<close>

text \<open>A handle covers another one of the same object with the same or fewer rights.\<close>

definition covers :: "handle \<Rightarrow> handle \<Rightarrow> bool" where
  "covers h0 h \<longleftrightarrow> h_object h0 = h_object h \<and> is_superset_of (h_rights h0) (h_rights h)"

definition covered :: "kernel \<Rightarrow> handle \<Rightarrow> bool" where
  "covered k h \<longleftrightarrow> list_ex (\<lambda>h0. covers h0 h) (state_handles k)"

definition handles_of :: "object \<Rightarrow> kernel \<Rightarrow> handle list" where
  "handles_of ob k = filter (\<lambda>h. h_object h = ob) (state_handles k)"

lemma superset_bits: "is_superset_of a b \<longleftrightarrow> (\<forall>n. bit b n \<longrightarrow> bit a n)"
  using bit_imp_le_length [of b] by (auto simp: is_superset_of_def bit_eq_iff bit_simps)

lemma contains_bits: "rights_contains a r \<longleftrightarrow> (\<forall>n. bit r n \<longrightarrow> bit a n)"
  using bit_imp_le_length [of r] by (auto simp: rights_contains_def bit_eq_iff bit_simps)

lemma covers_refl [simp]: "covers h h"
  by (simp add: covers_def superset_bits)

lemma covers_trans: "covers a b \<Longrightarrow> covers b c \<Longrightarrow> covers a c"
  by (simp add: covers_def superset_bits)

lemma covers_dup: "covers a b \<Longrightarrow> rights_contains (h_rights b) r \<Longrightarrow> rights_contains (h_rights a) r"
  by (simp add: covers_def superset_bits contains_bits)

lemma covered_held: "h \<in> set (state_handles k) \<Longrightarrow> covered k h"
  by (auto simp: covered_def list_ex_iff intro: covers_refl)

text \<open>A new handle is of a new object, or a duplicate.\<close>

definition from_dup :: "kernel \<Rightarrow> handle \<Rightarrow> bool" where
  "from_dup k h \<longleftrightarrow> (\<exists>h0\<in>set (state_handles k). covers h0 h \<and> rights_contains (h_rights h0) RIGHT_DUPLICATE)"

definition grows :: "kernel \<Rightarrow> kernel \<Rightarrow> bool" where
  "grows k k' \<longleftrightarrow> (\<exists>new. gains k k' new \<and> (\<forall>h\<in>set new. obj_valid k' (h_object h) \<and> (obj_valid k (h_object h) \<longrightarrow> from_dup k h)))"

lemma grows_nil: "gains k k' [] \<Longrightarrow> grows k k'"
  by (auto simp: grows_def)

lemma kernel_exec_grows:
  assumes inv: "kernel_inv k" and live: "live_proc k (op_proc op)"
  shows "grows k (kernel_exec op k)"
proof -
  have ok: "proc_ok (op_proc op) k" using inv live by (simp add: kernel_inv_def proc_ok_def)
  have new: "grows k k'" if "gains k k' new" "\<And>h. h \<in> set new \<Longrightarrow> obj_valid k' (h_object h) \<and> \<not> obj_valid k (h_object h)" for k' new
    using that by (auto simp: grows_def)
  note ok' = ok [unfolded proc_ok_def]
  show ?thesis
  proof (cases op)
    case (HandleClose p f)
    then show ?thesis using grows_nil [OF sys_handle_close_gains [OF _ surjective_pairing]] ok by simp
  next
    case (HandleDuplicate p f)
    obtain r k' where r: "sys_handle_duplicate p f k = (r, k')" by (metis surj_pair)
    have k': "kernel_exec op k = k'" by (simp add: HandleDuplicate r)
    consider "gains k k' []" | h w where "table_get p k (ucast (r_rdi f)) = Ok h" "rights_contains (h_rights h) RIGHT_DUPLICATE"
        "is_superset_of (h_rights h) w" "gains k k' [\<lparr>h_object = h_object h, h_rights = w\<rparr>]"
      using sys_handle_duplicate_gains [OF _ r] ok HandleDuplicate by auto
    then have "grows k k'"
    proof cases
      case (2 h w)
      have h: "h \<in> set (state_handles k)" using table_get_held 2(1) live HandleDuplicate by simp
      have "obj_valid k' (h_object h)" using 2(4) h inv obj_valid_mono by (auto simp: gains_def kernel_inv_def)
      moreover have "from_dup k \<lparr>h_object = h_object h, h_rights = w\<rparr>" using h 2 by (auto simp: from_dup_def covers_def intro!: bexI [of _ h])
      ultimately show ?thesis using 2(4) by (auto simp: grows_def)
    qed (rule grows_nil)
    then show ?thesis by (simp add: k')
  next
    case (ChannelCreate p)
    note g = sys_channel_create_gains [OF ok surjective_pairing, unfolded ChannelCreate op_proc.simps]
    show ?thesis unfolding ChannelCreate kernel_exec.simps by (rule new [OF g(1)]) (use g(2) in \<open>auto simp: obj_valid_def\<close>)
  next
    case (ChannelSend p f)
    note g = sys_channel_send_gains [OF inv live, unfolded ChannelSend op_proc.simps]
    show ?thesis unfolding ChannelSend kernel_exec.simps by (metis g grows_nil prod.collapse)
  next
    case (ChannelRecv nb kl me p f)
    then show ?thesis using grows_nil [OF sys_channel_recv_gains [OF inv _ surjective_pairing]] live by simp
  next
    case (EventCreate p f)
    note g = sys_event_create_gains [OF ok surjective_pairing, unfolded EventCreate op_proc.simps]
    show ?thesis unfolding EventCreate kernel_exec.simps by (rule new [OF g(1)]) (use g(2) in \<open>auto simp: obj_valid_def\<close>)
  next
    case (EventSet n p f)
    then show ?thesis using grows_nil [OF sys_event_set_gains [OF surjective_pairing]] by simp
  next
    case (MemoryCreate p f)
    note g = sys_memory_create_gains [OF ok surjective_pairing, unfolded MemoryCreate op_proc.simps, of f]
    from g show ?thesis unfolding MemoryCreate kernel_exec.simps
    proof
      assume "gains k (snd (sys_memory_create p f k)) [\<lparr>h_object = ObjMemory (length (k_mems k)), h_rights = RIGHTS_MEMORY_DEFAULT\<rparr>] \<and>
        length (k_mems k) < length (k_mems (snd (sys_memory_create p f k)))"
      then show "grows k (snd (sys_memory_create p f k))" by (intro new) (auto simp: obj_valid_def)
    qed (rule grows_nil)
  next
    case (MemoryMap p f)
    then show ?thesis using grows_nil [OF sys_memory_map_gains [OF _ surjective_pairing]] live by simp
  next
    case (ProcessExit p)
    then show ?thesis using grows_nil [OF close_table_gains] live by simp
  qed
qed

lemma grows_inv: "kernel_inv k \<Longrightarrow> grows k k' \<Longrightarrow> kernel_inv k'"
  using gains_inv by (auto simp: grows_def)

lemma grows_held:
  assumes "grows k k'" "h \<in> set (state_handles k')"
  shows "h \<in> set (state_handles k) \<or> \<not> obj_valid k (h_object h) \<or> from_dup k h"
proof -
  obtain new where n: "gains k k' new" "\<forall>h\<in>set new. obj_valid k (h_object h) \<longrightarrow> from_dup k h" using assms(1) by (auto simp: grows_def)
  have "set (state_handles k') \<subseteq> set (state_handles k) \<union> set new"
    using n(1) set_mset_mono [of "held k'" "held k + mset new"] by (simp add: gains_def)
  then show ?thesis using n(2) assms(2) by blast
qed

lemma grows_shape: "grows k k' \<Longrightarrow> same_shape k k'"
  by (auto simp: grows_def gains_def)

text \<open>A rule for properties of runs: an invariant of the state against the first state.\<close>

lemma kernel_run_rule:
  assumes inv: "kernel_inv k" "live_ops k ops" and base: "P k"
    and step: "\<And>k1 op. kernel_inv k1 \<Longrightarrow> same_shape k k1 \<Longrightarrow> P k1 \<Longrightarrow> live_proc k1 (op_proc op) \<Longrightarrow> op \<in> set ops \<Longrightarrow> P (kernel_exec op k1)"
  shows "kernel_inv (kernel_run ops k) \<and> same_shape k (kernel_run ops k) \<and> P (kernel_run ops k)"
  using inv(2) step
proof (induction ops rule: rev_induct)
  case (snoc op ops)
  let ?k = "kernel_run ops k"
  have IH: "kernel_inv ?k" "same_shape k ?k" "P ?k" using snoc by (auto simp: live_ops_def)
  have live: "live_proc ?k (op_proc op)" using snoc.prems(1) IH(2) by (simp add: live_ops_def same_shape_def)
  have g: "grows ?k (kernel_exec op ?k)" by (rule kernel_exec_grows [OF IH(1) live])
  show ?case
    using snoc.prems(2) [OF IH live] grows_inv [OF IH(1) g] same_shape_trans [OF IH(2) grows_shape [OF g]]
    by (simp add: kernel_run_def)
qed (use inv base in \<open>auto simp: kernel_run_def\<close>)

text \<open>
  C1: Confinement of capabilities. After any run of system calls by live processes, every handle in any table or queue
  that is of an object which existed before the run is covered by a handle that existed before the run: same object,
  no more rights. The invariant of the kernel state holds after the run.
\<close>

theorem capability_confinement:
  assumes "kernel_inv k" "live_ops k ops"
  shows "kernel_inv (kernel_run ops k) \<and>
    (\<forall>h. h \<in> set (state_handles (kernel_run ops k)) \<and> obj_valid k (h_object h) \<longrightarrow> covered k h)"
proof -
  have "(\<forall>h. h \<in> set (state_handles (kernel_exec op k1)) \<and> obj_valid k (h_object h) \<longrightarrow> covered k h)"
    if k1: "kernel_inv k1" "same_shape k k1" "\<forall>h. h \<in> set (state_handles k1) \<and> obj_valid k (h_object h) \<longrightarrow> covered k h"
      "live_proc k1 (op_proc op)" for k1 op
  proof (intro allI impI)
    fix h assume h: "h \<in> set (state_handles (kernel_exec op k1)) \<and> obj_valid k (h_object h)"
    then have v: "obj_valid k1 (h_object h)" using obj_valid_mono k1(2) by blast
    from grows_held [OF kernel_exec_grows [OF k1(1,4)]] h v have "h \<in> set (state_handles k1) \<or> from_dup k1 h" by blast
    then obtain h0 where h0: "h0 \<in> set (state_handles k1)" "covers h0 h" by (auto simp: from_dup_def)
    then have "covered k h0" using k1(3) h by (simp add: covers_def)
    then show "covered k h" using h0(2) covers_trans by (fastforce simp: covered_def list_ex_iff)
  qed
  then show ?thesis
    using kernel_run_rule [OF assms, of "\<lambda>k1. \<forall>h. h \<in> set (state_handles k1) \<and> obj_valid k (h_object h) \<longrightarrow> covered k h"] covered_held
    by blast
qed

text \<open>An example state: one process with a handle to an event, and one with no handles.\<close>

definition sample_process :: "handle_table \<Rightarrow> process" where
  "sample_process t = \<lparr>pr_handles = t, pr_space = the (fst pool_new), pr_shm_pages = 0, pr_device_next = 0x500000000000\<rparr>"

definition sample_kernel :: "handle_table \<Rightarrow> kernel" where
  "sample_kernel t = \<lparr>k_procs = [Some (sample_process t), Some (sample_process [])], k_chans = [], k_events = [event_new True], k_grants = [],
     k_mems = [], k_mm = snd (snd pool_new), k_live_ends = 0, k_sent = 0, k_woken = [], k_free_vectors = []\<rparr>"

definition sample_event :: handle where
  "sample_event = \<lparr>h_object = ObjEvent 0, h_rights = RIGHTS_EVENT_DEFAULT\<rparr>"

definition sample_frame :: "u64 \<Rightarrow> u64 \<Rightarrow> trap_frame" where
  "sample_frame a b = \<lparr>r_rdi = a, r_rsi = b, r_rdx = 0, r_r10 = 0, r_r8 = 0\<rparr>"

lemma sample_live: "live_proc (sample_kernel t) p \<longleftrightarrow> p < 2"
  by (auto simp: live_proc_def sample_kernel_def less_Suc_eq numeral_2_eq_2)

lemma sample_inv: "length t \<le> HANDLES_MAX \<Longrightarrow> \<forall>h\<in>set (ht_entries t). h_object h = ObjEvent 0 \<Longrightarrow> kernel_inv (sample_kernel t)"
  by (auto simp: kernel_inv_def sample_live live_proc_def table_of_def proc_at_def sample_kernel_def sample_process_def ht_inv_def
      state_handles_def proc_handles_def obj_valid_def less_Suc_eq numeral_2_eq_2 ht_entries_def)

lemma sample_event_inv: "kernel_inv (sample_kernel [Some sample_event])"
  by (rule sample_inv) (simp_all add: HANDLES_MAX_def ht_entries_def sample_event_def)

theorem capability_confinement_witness:
  "\<lparr>h_object = ObjEvent 0, h_rights = 8\<rparr> \<in> set (state_handles (kernel_run [HandleDuplicate 0 (sample_frame 0 8)] (sample_kernel [Some sample_event]))) \<and>
   covered (sample_kernel [Some sample_event]) \<lparr>h_object = ObjEvent 0, h_rights = 8\<rparr>"
proof -
  have "\<lparr>h_object = ObjEvent 0, h_rights = 8\<rparr> \<in> set (state_handles (kernel_run [HandleDuplicate 0 (sample_frame 0 8)] (sample_kernel [Some sample_event])))"
    by code_simp
  moreover have "obj_valid (sample_kernel [Some sample_event]) (ObjEvent 0)" by code_simp
  ultimately show ?thesis
    using capability_confinement [OF sample_event_inv, of "[HandleDuplicate 0 (sample_frame 0 8)]"]
    by (simp add: live_ops_def sample_live)
qed

section \<open>Handles that cannot be copied\<close>

lemma handles_of_grows:
  assumes "grows k k'" "obj_valid k ob" "\<forall>h\<in>set (handles_of ob k). \<not> rights_contains (h_rights h) RIGHT_DUPLICATE"
  shows "mset (handles_of ob k') \<subseteq># mset (handles_of ob k)"
proof -
  obtain new where n: "gains k k' new" "\<forall>h\<in>set new. obj_valid k (h_object h) \<longrightarrow> from_dup k h" using assms(1) by (auto simp: grows_def)
  have "filter (\<lambda>h. h_object h = ob) new = []"
    using n(2) assms(2,3) by (auto simp: filter_empty_conv from_dup_def covers_def handles_of_def)
  then have no: "filter_mset (\<lambda>h. h_object h = ob) (mset new) = {#}" by (metis mset_filter mset_zero_iff)
  have "filter_mset (\<lambda>h. h_object h = ob) (held k') \<subseteq># filter_mset (\<lambda>h. h_object h = ob) (held k + mset new)"
    using n(1) by (intro multiset_filter_mono) (simp add: gains_def)
  then show ?thesis by (simp add: handles_of_def no)
qed

text \<open>
  C13: Handles that cannot be duplicated are linear. If no handle of an object carries the right to duplicate, no run of
  system calls by live processes ever increases the number of handles of this object, or puts a handle with other
  rights in their place: the handles after the run are a part of the handles before it.
\<close>

theorem linear_handles:
  assumes "kernel_inv k" "live_ops k ops" "obj_valid k ob" "\<forall>h\<in>set (handles_of ob k). \<not> rights_contains (h_rights h) RIGHT_DUPLICATE"
  shows "mset (handles_of ob (kernel_run ops k)) \<subseteq># mset (handles_of ob k)"
proof -
  have "mset (handles_of ob (kernel_exec op k1)) \<subseteq># mset (handles_of ob k)"
    if k1: "kernel_inv k1" "same_shape k k1" "mset (handles_of ob k1) \<subseteq># mset (handles_of ob k)" "live_proc k1 (op_proc op)" for k1 op
  proof -
    have "set (handles_of ob k1) \<subseteq> set (handles_of ob k)" using set_mset_mono [OF k1(3)] by simp
    then have "\<forall>h\<in>set (handles_of ob k1). \<not> rights_contains (h_rights h) RIGHT_DUPLICATE" using assms(4) by blast
    with handles_of_grows [OF kernel_exec_grows [OF k1(1,4)] obj_valid_mono [OF k1(2) assms(3)]]
    show ?thesis using k1(3) subset_mset.order_trans by blast
  qed
  then show ?thesis
    using kernel_run_rule [OF assms(1,2), of "\<lambda>k1. mset (handles_of ob k1) \<subseteq># mset (handles_of ob k)"] by blast
qed

theorem linear_handles_witness:
  "mset (handles_of (ObjEvent 0) (kernel_run [HandleDuplicate 0 (sample_frame 0 0)] (sample_kernel [Some \<lparr>h_object = ObjEvent 0, h_rights = 0\<rparr>])))
   \<subseteq># mset (handles_of (ObjEvent 0) (sample_kernel [Some \<lparr>h_object = ObjEvent 0, h_rights = 0\<rparr>]))"
proof (rule linear_handles)
  show "kernel_inv (sample_kernel [Some \<lparr>h_object = ObjEvent 0, h_rights = 0\<rparr>])"
    by (rule sample_inv) (simp_all add: HANDLES_MAX_def ht_entries_def)
  show "live_ops (sample_kernel [Some \<lparr>h_object = ObjEvent 0, h_rights = 0\<rparr>]) [HandleDuplicate 0 (sample_frame 0 0)]"
    by (simp add: live_ops_def sample_live)
  show "obj_valid (sample_kernel [Some \<lparr>h_object = ObjEvent 0, h_rights = 0\<rparr>]) (ObjEvent 0)" by code_simp
  show "\<forall>h\<in>set (handles_of (ObjEvent 0) (sample_kernel [Some \<lparr>h_object = ObjEvent 0, h_rights = 0\<rparr>])).
      \<not> rights_contains (h_rights h) RIGHT_DUPLICATE"
    by code_simp
qed

section \<open>A mapping outlives its memory object\<close>

text \<open>
  A process creates a memory object of one page, maps it and closes the only handle. The destructor gives the frame
  back to the pool, and nothing takes the mapping away: the page stays user accessible and writable, while the frame
  is free for the next allocation.
\<close>

definition stale_run :: kernel where
  "stale_run = kernel_run [MemoryCreate 0 (sample_frame 1 0), MemoryMap 0 (sample_frame 0 0), HandleClose 0 (sample_frame 0 0)] (sample_kernel [])"

lemma memory_map_survives_close:
  "map_option (\<lambda>t. (tr_phys t, flags_contains (tr_flags t) PF_USER, flags_contains (tr_flags t) PF_WRITABLE))
     (translate (fst (k_mm stale_run)) 0x10000 0x500000000000) = Some (0x11000, True, True) \<and>
   table_of 0 stale_run = [None] \<and>
   fst (phys_allocate_frame (snd (k_mm stale_run))) = Some 0x11000"
  by code_simp

end
