(* ===== verification/Proto_Wire.thy ===== *)
theory Proto_Wire
  imports Le_Bytes
begin

text \<open>
  The common part of the typed message protocols, \<^verbatim>\<open>abi/proto/src/lib.rs\<close>: the NXIP header, and the shapes of
  code that the protocol modules repeat for every message: writing fields one after the other into a
  buffer, reading them, framing a payload, and checking the header of a request or a response.

  A buffer is a list of bytes of fixed length. An encoder returns its result together with the buffer, which it may
  have changed before it fails. A decoder reads from the rest of the payload that starts at its current offset and
  returns the value with what is left.
\<close>

section \<open>Header\<close>

definition MAGIC :: u32 where "MAGIC = 0x4E584950"
definition HEADER_LEN :: nat where "HEADER_LEN = 24"
definition FLAG_RESPONSE :: u32 where "FLAG_RESPONSE = 1"
definition FLAG_ERROR :: u32 where "FLAG_ERROR = 2"
definition FLAG_EVENT :: u32 where "FLAG_EVENT = 4"
definition KNOWN_FLAGS :: u32 where "KNOWN_FLAGS = FLAG_RESPONSE OR FLAG_ERROR OR FLAG_EVENT"

datatype proto_error = PShort | PTooBig | PMagic | PProtocol | PVersion | PMethod | PFlags | PLength | PRemote u32

record header =
  protocol_id :: u32
  version_major :: u16
  version_minor :: u16
  method_id :: u32
  hflags :: u32
  payload_len :: u32

definition header_encode :: "header \<Rightarrow> u8 list \<Rightarrow> (proto_error, unit) result \<times> u8 list" where
  "header_encode h out =
     (if length out < HEADER_LEN then (Err PShort, out)
      else (Ok (),
            copy_at 20 (to_le 4 (payload_len h))
           (copy_at 16 (to_le 4 (hflags h))
           (copy_at 12 (to_le 4 (method_id h))
           (copy_at 10 (to_le 2 (version_minor h))
           (copy_at 8 (to_le 2 (version_major h))
           (copy_at 4 (to_le 4 (protocol_id h))
           (copy_at 0 (to_le 4 MAGIC) out))))))))"

definition header_decode :: "u8 list \<Rightarrow> (proto_error, header) result" where
  "header_decode msg =
     (if length msg < HEADER_LEN then Err PShort
      else if from_le (slice_at 0 4 msg) \<noteq> MAGIC then Err PMagic
      else let h = \<lparr>protocol_id = from_le (slice_at 4 4 msg), version_major = from_le (slice_at 8 2 msg),
                    version_minor = from_le (slice_at 10 2 msg), method_id = from_le (slice_at 12 4 msg),
                    hflags = from_le (slice_at 16 4 msg), payload_len = from_le (slice_at 20 4 msg)\<rparr> in
        if hflags h AND NOT KNOWN_FLAGS \<noteq> 0 then Err PFlags
        else if length msg \<noteq> HEADER_LEN + unat (payload_len h) then Err PLength
        else Ok h)"

section \<open>Fields\<close>

text \<open>A field of a payload with its value; \<open>WBytes max data len\<close> is a byte array of size \<open>max\<close> with its valid length.\<close>

datatype wire_field = W8 u8 | W16 u16 | W32 u32 | W64 u64 | WBytes nat "u8 list" u32

definition put_bytes :: "u8 list \<Rightarrow> nat \<Rightarrow> u8 list \<Rightarrow> (proto_error, nat) result \<times> u8 list" where
  "put_bytes bs off out =
     (if off + length bs > length out then (Err PShort, out) else (Ok (off + length bs), copy_at off bs out))"

fun encode_field :: "wire_field \<Rightarrow> nat \<Rightarrow> u8 list \<Rightarrow> (proto_error, nat) result \<times> u8 list" where
  "encode_field (W8 w) off out = put_bytes (to_le 1 w) off out"
| "encode_field (W16 w) off out = put_bytes (to_le 2 w) off out"
| "encode_field (W32 w) off out = put_bytes (to_le 4 w) off out"
| "encode_field (W64 w) off out = put_bytes (to_le 8 w) off out"
| "encode_field (WBytes mx data len) off out =
     (let n = unat len in
      if n > mx then (Err PTooBig, out)
      else put_bytes (to_le 4 (word_of_nat n :: u32) @ take n data) off out)"

fun encode_fields :: "wire_field list \<Rightarrow> nat \<Rightarrow> u8 list \<Rightarrow> (proto_error, nat) result \<times> u8 list" where
  "encode_fields [] off out = (Ok off, out)"
| "encode_fields (f # fs) off out =
     (case encode_field f off out of
        (Inl e, out') \<Rightarrow> (Err e, out')
      | (Inr off', out') \<Rightarrow> encode_fields fs off' out')"

definition read_word :: "nat \<Rightarrow> u8 list \<Rightarrow> (proto_error, 'n::len word \<times> u8 list) result" where
  "read_word n b = (if n > length b then Err PShort else Ok (from_le (take n b), drop n b))"

abbreviation read_u8 :: "u8 list \<Rightarrow> (proto_error, u8 \<times> u8 list) result" where "read_u8 \<equiv> read_word 1"
abbreviation read_u16 :: "u8 list \<Rightarrow> (proto_error, u16 \<times> u8 list) result" where "read_u16 \<equiv> read_word 2"
abbreviation read_u32 :: "u8 list \<Rightarrow> (proto_error, u32 \<times> u8 list) result" where "read_u32 \<equiv> read_word 4"
abbreviation read_u64 :: "u8 list \<Rightarrow> (proto_error, u64 \<times> u8 list) result" where "read_u64 \<equiv> read_word 8"

text \<open>The array is zero beyond the bytes read.\<close>

definition read_bytes :: "nat \<Rightarrow> u8 list \<Rightarrow> (proto_error, (u8 list \<times> u32) \<times> u8 list) result" where
  "read_bytes mx b =
     (if 4 > length b then Err PShort
      else let l = unat (from_le (take 4 b) :: u32) in
        if l > mx then Err PTooBig
        else if 4 + l > length b then Err PShort
        else Ok ((take l (drop 4 b) @ replicate (mx - l) 0, word_of_nat l), drop (4 + l) b))"

text \<open>\<^verbatim>\<open>&self.path[..(self.path_len as usize).min(256)]\<close>\<close>

definition valid_slice :: "nat \<Rightarrow> u8 list \<Rightarrow> u32 \<Rightarrow> u8 list" where
  "valid_slice mx data len = take (min (unat len) mx) data"

section \<open>Messages\<close>

definition encode_msg_with ::
  "u32 \<Rightarrow> u16 \<Rightarrow> u16 \<Rightarrow> u32 \<Rightarrow> u32 \<Rightarrow> (u8 list \<Rightarrow> (proto_error, nat) result \<times> u8 list) \<Rightarrow> u8 list \<Rightarrow>
   (proto_error, nat) result \<times> u8 list" where
  "encode_msg_with pid major minor meth fl encode_payload out =
     (if length out < HEADER_LEN then (Err PShort, out)
      else (case encode_payload (drop HEADER_LEN out) of
              (Inl e, pl) \<Rightarrow> (Err e, take HEADER_LEN out @ pl)
            | (Inr plen, pl) \<Rightarrow>
                (case header_encode \<lparr>protocol_id = pid, version_major = major, version_minor = minor, method_id = meth,
                        hflags = fl, payload_len = word_of_nat plen\<rparr> (take HEADER_LEN out @ pl) of
                   (Inl e, out') \<Rightarrow> (Err e, out')
                 | (Inr _, out') \<Rightarrow> (Ok (HEADER_LEN + plen), out'))))"

text \<open>The checks of a request: its method and payload.\<close>

definition request_head :: "u32 \<Rightarrow> u16 \<Rightarrow> u8 list \<Rightarrow> (proto_error, u32 \<times> u8 list) result" where
  "request_head pid major msg =
     try_bind (header_decode msg) (\<lambda>h.
       if protocol_id h \<noteq> pid then Err PProtocol
       else if version_major h \<noteq> major then Err PVersion
       else if hflags h \<noteq> 0 then Err PFlags
       else Ok (method_id h, slice_at HEADER_LEN (unat (payload_len h)) msg))"

text \<open>The checks of the response to a method: its payload, or the error the service returned.\<close>

definition response_head :: "u32 \<Rightarrow> u16 \<Rightarrow> u32 \<Rightarrow> u8 list \<Rightarrow> (proto_error, u8 list) result" where
  "response_head pid major meth msg =
     try_bind (header_decode msg) (\<lambda>h.
       if protocol_id h \<noteq> pid then Err PProtocol
       else if version_major h \<noteq> major then Err PVersion
       else if method_id h \<noteq> meth then Err PMethod
       else let p = slice_at HEADER_LEN (unat (payload_len h)) msg in
         if hflags h AND FLAG_ERROR \<noteq> 0
         then Err (PRemote (if length p \<ge> 4 then from_le (take 4 p) else 0))
         else if hflags h \<noteq> FLAG_RESPONSE then Err PFlags
         else Ok p)"

text \<open>The checks of an event of a given method.\<close>

definition event_head :: "u32 \<Rightarrow> u16 \<Rightarrow> u32 \<Rightarrow> u8 list \<Rightarrow> (proto_error, u8 list) result" where
  "event_head pid major meth msg =
     try_bind (header_decode msg) (\<lambda>h.
       if protocol_id h \<noteq> pid then Err PProtocol
       else if version_major h \<noteq> major then Err PVersion
       else if method_id h \<noteq> meth then Err PMethod
       else if hflags h \<noteq> FLAG_EVENT then Err PFlags
       else Ok (slice_at HEADER_LEN (unat (payload_len h)) msg))"

definition encode_error_with :: "u32 \<Rightarrow> u16 \<Rightarrow> u16 \<Rightarrow> u32 \<Rightarrow> u32 \<Rightarrow> u8 list \<Rightarrow> (proto_error, nat) result \<times> u8 list" where
  "encode_error_with pid major minor meth code out =
     (if length out < HEADER_LEN + 4 then (Err PShort, out)
      else (case header_encode \<lparr>protocol_id = pid, version_major = major, version_minor = minor, method_id = meth,
                    hflags = FLAG_RESPONSE OR FLAG_ERROR, payload_len = 4\<rparr> out of
              (Inl e, out') \<Rightarrow> (Err e, out')
            | (Inr _, out') \<Rightarrow> (Ok (HEADER_LEN + 4), copy_at HEADER_LEN (to_le 4 code) out')))"

section \<open>What the encoders write\<close>

fun field_bytes :: "wire_field \<Rightarrow> u8 list" where
  "field_bytes (W8 w) = to_le 1 w"
| "field_bytes (W16 w) = to_le 2 w"
| "field_bytes (W32 w) = to_le 4 w"
| "field_bytes (W64 w) = to_le 8 w"
| "field_bytes (WBytes mx data len) = to_le 4 len @ take (unat len) data"

text \<open>A byte array has its size, and its valid length is not above it.\<close>

fun field_ok :: "wire_field \<Rightarrow> bool" where
  "field_ok (WBytes mx data len) \<longleftrightarrow> length data = mx \<and> unat len \<le> mx"
| "field_ok _ \<longleftrightarrow> True"

fun field_max :: "wire_field \<Rightarrow> nat" where
  "field_max (W8 w) = 1"
| "field_max (W16 w) = 2"
| "field_max (W32 w) = 4"
| "field_max (W64 w) = 8"
| "field_max (WBytes mx data len) = 4 + mx"

definition fields_bytes :: "wire_field list \<Rightarrow> u8 list" where
  "fields_bytes fs = concat (map field_bytes fs)"

lemma fields_bytes_simps [simp]: "fields_bytes [] = []" "fields_bytes (f # fs) = field_bytes f @ fields_bytes fs"
  by (simp_all add: fields_bytes_def)

lemma field_bytes_max: "field_ok f \<Longrightarrow> length (field_bytes f) \<le> field_max f"
  by (cases f) auto

lemma fields_bytes_max: "list_all field_ok fs \<Longrightarrow> length (fields_bytes fs) \<le> sum_list (map field_max fs)"
  by (induction fs) (auto dest: field_bytes_max)

lemma encode_field_ok: "field_ok f \<Longrightarrow> encode_field f off out = put_bytes (field_bytes f) off out"
  by (cases f) (auto simp: Let_def)

lemma copy_at_append:
  "off + length (a @ b) \<le> length out \<Longrightarrow> copy_at (off + length a) b (copy_at off a out) = copy_at off (a @ b) out"
  by (simp add: copy_at_def ac_simps)

lemma encode_fields_Ok:
  "list_all field_ok fs \<Longrightarrow> off + length (fields_bytes fs) \<le> length out \<Longrightarrow>
   encode_fields fs off out = (Ok (off + length (fields_bytes fs)), copy_at off (fields_bytes fs) out)"
proof (induction fs arbitrary: off out)
  case Nil
  then show ?case by (simp add: copy_at_def)
next
  case (Cons f fs)
  let ?o = "off + length (field_bytes f)" and ?out = "copy_at off (field_bytes f) out"
  have "encode_field f off out = (Ok ?o, ?out)" using Cons.prems by (simp add: encode_field_ok put_bytes_def)
  moreover have "encode_fields fs ?o ?out = (Ok (?o + length (fields_bytes fs)), copy_at ?o (fields_bytes fs) ?out)"
    using Cons.prems by (intro Cons.IH) auto
  moreover have "copy_at ?o (fields_bytes fs) ?out = copy_at off (fields_bytes (f # fs)) out"
    using Cons.prems(2) by (simp add: copy_at_append)
  ultimately show ?case by (simp add: add.assoc)
qed

lemma encode_fields_Short:
  "list_all field_ok fs \<Longrightarrow> length out < off + length (fields_bytes fs) \<Longrightarrow> off \<le> length out \<Longrightarrow>
   \<exists>out'. encode_fields fs off out = (Err PShort, out') \<and> length out' = length out"
proof (induction fs arbitrary: off out)
  case (Cons f fs)
  let ?o = "off + length (field_bytes f)" and ?out = "copy_at off (field_bytes f) out"
  show ?case
  proof (cases "?o \<le> length out")
    case True
    then have "encode_field f off out = (Ok ?o, ?out)" using Cons.prems by (simp add: encode_field_ok put_bytes_def)
    moreover have "\<exists>out'. encode_fields fs ?o ?out = (Err PShort, out') \<and> length out' = length ?out"
      using Cons.prems True by (intro Cons.IH) auto
    ultimately show ?thesis using True by simp
  next
    case False
    then show ?thesis using Cons.prems by (auto simp: encode_field_ok put_bytes_def)
  qed
qed simp

section \<open>Reading back\<close>

lemma read_word_iff:
  "LENGTH('n) = 8 * n \<Longrightarrow> read_word n b = Ok (w :: 'n::len word, rest) \<longleftrightarrow> b = to_le n w @ rest"
  by (auto simp: read_word_def)

lemma read_words [simp]:
  "read_u8 (to_le 1 a @ rest) = Ok (a, rest)" "read_u16 (to_le 2 b @ rest) = Ok (b, rest)"
  "read_u32 (to_le 4 c @ rest) = Ok (c, rest)" "read_u64 (to_le 8 d @ rest) = Ok (d, rest)"
  by (simp_all add: read_word_iff)

definition pad :: "nat \<Rightarrow> u8 list \<Rightarrow> u32 \<Rightarrow> u8 list" where
  "pad mx data len = take (unat len) data @ replicate (mx - unat len) 0"

lemma valid_slice_pad: "field_ok (WBytes mx data len) \<Longrightarrow> valid_slice mx (pad mx data len) len = valid_slice mx data len"
  by (simp add: valid_slice_def pad_def min_def)

lemma read_bytes_app [simp]:
  "field_ok (WBytes mx data len) \<Longrightarrow> read_bytes mx (to_le 4 len @ take (unat len) data @ rest) = Ok ((pad mx data len, len), rest)"
  by (simp add: read_bytes_def pad_def Let_def)

lemma read_bytes_Ok:
  assumes "read_bytes mx b = Ok ((data, len), rest)"
  shows "b = to_le 4 len @ take (unat len) data @ rest \<and> length data = mx \<and> unat len \<le> mx \<and> pad mx data len = data"
proof -
  let ?l = "unat (from_le (take 4 b) :: u32)"
  have a: "\<not> length b < 4" "?l \<le> mx" "4 + ?l \<le> length b" "data = take ?l (drop 4 b) @ replicate (mx - ?l) 0" "len = word_of_nat ?l"
    "rest = drop (4 + ?l) b"
    using assms by (auto simp: read_bytes_def Let_def split: if_splits)
  have len: "len = from_le (take 4 b)" using a(5) by simp
  have "b = take 4 b @ take ?l (drop 4 b) @ drop (4 + ?l) b" by (metis append_take_drop_id drop_drop add.commute)
  moreover have "to_le 4 len = take 4 b" using a(1) len by simp
  ultimately have "b = to_le 4 len @ take (unat len) data @ rest" using a len by simp
  then show ?thesis using a len by (simp add: pad_def)
qed

section \<open>Frames\<close>

definition header_bytes :: "header \<Rightarrow> u8 list" where
  "header_bytes h = to_le 4 MAGIC @ to_le 4 (protocol_id h) @ to_le 2 (version_major h) @ to_le 2 (version_minor h) @
     to_le 4 (method_id h) @ to_le 4 (hflags h) @ to_le 4 (payload_len h)"

lemma length_header_bytes [simp]: "length (header_bytes h) = 24"
  by (simp add: header_bytes_def)

lemma header_encode_eq: "header_encode h out = (if length out < 24 then (Err PShort, out) else (Ok (), header_bytes h @ drop 24 out))"
  by (simp add: header_encode_def header_bytes_def HEADER_LEN_def copy_at_def)

lemma header_slices:
  "slice_at 0 4 (header_bytes h @ p) = to_le 4 MAGIC" "slice_at 4 4 (header_bytes h @ p) = to_le 4 (protocol_id h)"
  "slice_at 8 2 (header_bytes h @ p) = to_le 2 (version_major h)" "slice_at 10 2 (header_bytes h @ p) = to_le 2 (version_minor h)"
  "slice_at 12 4 (header_bytes h @ p) = to_le 4 (method_id h)" "slice_at 16 4 (header_bytes h @ p) = to_le 4 (hflags h)"
  "slice_at 20 4 (header_bytes h @ p) = to_le 4 (payload_len h)" "slice_at 24 n (header_bytes h @ p) = take n p"
  by (simp_all add: slice_at_def header_bytes_def)

lemma header_decode_frame:
  "header_decode (header_bytes h @ p) =
     (if hflags h AND NOT KNOWN_FLAGS \<noteq> 0 then Err PFlags else if length p \<noteq> unat (payload_len h) then Err PLength else Ok h)"
  by (simp add: header_decode_def HEADER_LEN_def header_slices)

text \<open>Only a header followed by exactly its payload is accepted.\<close>

lemma header_decode_Ok:
  assumes "header_decode msg = Ok h"
  shows "\<exists>p. msg = header_bytes h @ p \<and> length p = unat (payload_len h) \<and> hflags h AND NOT KNOWN_FLAGS = 0"
proof -
  have c: "\<not> length msg < 24" "from_le (slice_at 0 4 msg) = MAGIC" "hflags h AND NOT KNOWN_FLAGS = 0"
    "length msg = 24 + unat (payload_len h)"
    "h = \<lparr>protocol_id = from_le (slice_at 4 4 msg), version_major = from_le (slice_at 8 2 msg),
          version_minor = from_le (slice_at 10 2 msg), method_id = from_le (slice_at 12 4 msg),
          hflags = from_le (slice_at 16 4 msg), payload_len = from_le (slice_at 20 4 msg)\<rparr>"
    using assms by (auto simp: header_decode_def HEADER_LEN_def Let_def split: if_splits)
  have m: "to_le 4 MAGIC = slice_at 0 4 msg" unfolding c(2) [symmetric] using c(1) by (intro to_from_le) simp_all
  have "header_bytes h = slice_at 0 4 msg @ slice_at 4 4 msg @ slice_at 8 2 msg @ slice_at 10 2 msg @ slice_at 12 4 msg @
      slice_at 16 4 msg @ slice_at 20 4 msg"
    unfolding header_bytes_def m using c(1) by (simp add: c(5))
  also have "\<dots> = take 24 msg"
    using slice_join [of 16 4 msg 4] slice_join [of 12 4 msg 8] slice_join [of 10 2 msg 12] slice_join [of 8 2 msg 14]
      slice_join [of 4 4 msg 16] slice_join [of 0 4 msg 20] by (simp add: slice_at_def [of 0])
  finally have "msg = header_bytes h @ drop 24 msg" by simp
  then show ?thesis using c by (intro exI [of _ "drop 24 msg"]) simp
qed

lemma known_flags: "(0 :: u32) AND NOT KNOWN_FLAGS = 0" "FLAG_RESPONSE AND NOT KNOWN_FLAGS = 0"
  "(FLAG_RESPONSE OR FLAG_ERROR) AND NOT KNOWN_FLAGS = 0" "FLAG_RESPONSE AND FLAG_ERROR = 0"
  "(FLAG_RESPONSE OR FLAG_ERROR) AND FLAG_ERROR \<noteq> 0" "FLAG_EVENT AND NOT KNOWN_FLAGS = 0"
  by (simp_all add: FLAG_RESPONSE_def FLAG_ERROR_def FLAG_EVENT_def KNOWN_FLAGS_def)

text \<open>A message of a protocol: header and fields.\<close>

definition frame :: "u32 \<Rightarrow> u16 \<Rightarrow> u16 \<Rightarrow> u32 \<Rightarrow> u32 \<Rightarrow> u8 list \<Rightarrow> u8 list" where
  "frame pid major minor meth fl p =
     header_bytes \<lparr>protocol_id = pid, version_major = major, version_minor = minor, method_id = meth, hflags = fl,
       payload_len = word_of_nat (length p)\<rparr> @ p"

lemma length_frame [simp]: "length (frame pid major minor meth fl p) = 24 + length p"
  by (simp add: frame_def)

lemma request_head_frame:
  "length p < 2 ^ 32 \<Longrightarrow> request_head pid major (frame pid major minor meth 0 p) = Ok (meth, p)"
  by (simp add: request_head_def frame_def header_decode_frame known_flags unat_of_nat HEADER_LEN_def header_slices)

lemma response_head_frame:
  "length p < 2 ^ 32 \<Longrightarrow> response_head pid major meth (frame pid major minor meth FLAG_RESPONSE p) = Ok p"
  by (simp add: response_head_def frame_def header_decode_frame known_flags unat_of_nat HEADER_LEN_def header_slices)

lemma error_frame:
  "response_head pid major meth (frame pid major minor meth (FLAG_RESPONSE OR FLAG_ERROR) (to_le 4 code)) = Err (PRemote code)"
  by (simp add: response_head_def frame_def header_decode_frame known_flags HEADER_LEN_def header_slices FLAG_ERROR_def [THEN arg_cong [where f = "\<lambda>w. w = 0"]])

lemma request_head_Ok:
  assumes "request_head pid major msg = Ok (meth, p)"
  shows "\<exists>minor. msg = frame pid major minor meth 0 p \<and> length p < 2 ^ 32"
proof -
  obtain h where h: "header_decode msg = Ok h" "protocol_id h = pid" "version_major h = major" "hflags h = 0" "method_id h = meth"
    "p = slice_at 24 (unat (payload_len h)) msg"
    using assms by (auto simp: request_head_def HEADER_LEN_def try_bind_Ok_iff split: if_splits)
  obtain q where q: "msg = header_bytes h @ q" "length q = unat (payload_len h)" using header_decode_Ok [OF h(1)] by blast
  have p: "p = q" using h(6) q by (simp add: header_slices)
  have "length q < 2 ^ 32" using q(2) unsigned_less [of "payload_len h", where ?'a = nat] by simp
  moreover have "h = \<lparr>protocol_id = pid, version_major = major, version_minor = version_minor h, method_id = meth, hflags = 0,
      payload_len = word_of_nat (length q)\<rparr>"
    using h q(2) by simp
  ultimately show ?thesis using q(1) p unfolding frame_def by (intro exI [of _ "version_minor h"]) simp
qed

lemma encode_msg_fields:
  assumes "list_all field_ok fs"
  shows "let p = fields_bytes fs; r = encode_msg_with pid major minor meth fl (encode_fields fs 0) out in
    if 24 + length p \<le> length out then r = (Ok (24 + length p), frame pid major minor meth fl p @ drop (24 + length p) out)
    else fst r = Err PShort \<and> length (snd r) = length out"
proof -
  let ?p = "fields_bytes fs" and ?r = "encode_msg_with pid major minor meth fl (encode_fields fs 0) out"
  consider "24 + length ?p \<le> length out" | "24 \<le> length out" "length out < 24 + length ?p" | "length out < 24" by linarith
  then show ?thesis
  proof cases
    case 1
    have "encode_fields fs 0 (drop 24 out) = (Ok (length ?p), ?p @ drop (24 + length ?p) out)"
      using encode_fields_Ok [OF assms, of 0 "drop 24 out"] 1 by (simp add: copy_at_def add.commute)
    then show ?thesis using 1 by (simp add: encode_msg_with_def HEADER_LEN_def header_encode_eq frame_def)
  next
    case 2
    then have "length (drop 24 out) < 0 + length ?p" by simp
    then obtain o' where "encode_fields fs 0 (drop 24 out) = (Err PShort, o')" "length o' = length out - 24"
      using encode_fields_Short [OF assms, of "drop 24 out" 0] by auto
    then show ?thesis using 2 by (simp add: encode_msg_with_def HEADER_LEN_def)
  next
    case 3
    then show ?thesis by (simp add: encode_msg_with_def HEADER_LEN_def)
  qed
qed

lemma encode_error_frame:
  "encode_error_with pid major minor meth code out =
     (if length out < 28 then (Err PShort, out)
      else (Ok 28, frame pid major minor meth (FLAG_RESPONSE OR FLAG_ERROR) (to_le 4 code) @ drop 28 out))"
  by (simp add: encode_error_with_def HEADER_LEN_def header_encode_eq frame_def copy_at_def)

lemma event_head_frame:
  "length p < 2 ^ 32 \<Longrightarrow> event_head pid major meth (frame pid major minor meth FLAG_EVENT p) = Ok p"
  by (simp add: event_head_def frame_def header_decode_frame known_flags unat_of_nat HEADER_LEN_def header_slices)

text \<open>A message that a protocol takes as a request carries its identification.\<close>

definition msg_protocol :: "u8 list \<Rightarrow> u32" where
  "msg_protocol msg = (case header_decode msg of Inr h \<Rightarrow> protocol_id h | Inl _ \<Rightarrow> 0)"

lemma request_head_id: "is_ok (try_bind (request_head pid major msg) f) \<Longrightarrow> msg_protocol msg = pid"
  by (cases "header_decode msg") (auto simp: request_head_def msg_protocol_def split: if_splits)

text \<open>
  What encoder and decoder of a message do together: a well-formed message that fits the buffer arrives; the only error
  is that the buffer is too short.
\<close>

definition message_trip ::
  "('m \<Rightarrow> wire_field list) \<Rightarrow> ('m \<Rightarrow> u8 list \<Rightarrow> (proto_error, nat) result \<times> u8 list) \<Rightarrow> (u8 list \<Rightarrow> (proto_error, 'm) result) \<Rightarrow>
   ('m \<Rightarrow> 'm) \<Rightarrow> bool" where
  "message_trip flds encode_msg decode norm \<longleftrightarrow>
     (\<forall>m out. list_all field_ok (flds m) \<longrightarrow>
        (case encode_msg m out of
           (Inr n, out') \<Rightarrow> n \<le> length out \<and> decode (take n out') = Ok (norm m)
         | (Inl e, out') \<Rightarrow> e = PShort \<and> length out < 24 + length (fields_bytes (flds m))))"

definition error_trip ::
  "u32 \<Rightarrow> (u32 \<Rightarrow> u32 \<Rightarrow> u8 list \<Rightarrow> (proto_error, nat) result \<times> u8 list) \<Rightarrow> (u8 list \<Rightarrow> (proto_error, 'm) result) \<Rightarrow> bool" where
  "error_trip meth encode_error decode \<longleftrightarrow>
     (\<forall>code out. case encode_error meth code out of
        (Inr n, out') \<Rightarrow> n \<le> length out \<and> decode (take n out') = Err (PRemote code)
      | (Inl e, out') \<Rightarrow> e = PShort \<and> length out < 28)"

lemma error_tripI:
  "error_trip meth (encode_error_with pid major minor) (\<lambda>msg. try_bind (response_head pid major meth msg) decode_payload)"
  by (simp add: error_trip_def encode_error_frame error_frame)

section \<open>The contract of a message\<close>

lemmas codec_simps = try_bind_Ok_iff read_word_iff to_le_inject split_def pad_def

text \<open>
  \<open>fields\<close> is what the encoder writes, \<open>decode_payload\<close> the decoder. Decoding what was written, with anything behind
  it, gives the message as it travels (\<open>norm\<close>: arrays zero beyond their valid length, handles left out); and whatever
  the decoder accepts is the encoding of what it returns, with anything behind it.
\<close>

locale message_codec =
  fixes fields :: "'m \<Rightarrow> wire_field list"
    and decode_payload :: "u8 list \<Rightarrow> (proto_error, 'm) result"
    and norm :: "'m \<Rightarrow> 'm"
  assumes size: "sum_list (map field_max (fields m)) < 2 ^ 32"
    and decode_fields: "list_all field_ok (fields m) \<Longrightarrow> decode_payload (fields_bytes (fields m) @ extra) = Ok (norm m)"
    and decode_canon: "decode_payload b = Ok m \<Longrightarrow>
      norm m = m \<and> list_all field_ok (fields m) \<and> (\<exists>extra. b = fields_bytes (fields m) @ extra)"
begin

lemma bytes_small: "list_all field_ok (fields m) \<Longrightarrow> length (fields_bytes (fields m)) < 2 ^ 32"
  using fields_bytes_max [of "fields m"] size [of m] by linarith

lemma response_message_trip:
  "message_trip fields (\<lambda>m. encode_msg_with pid major minor meth FLAG_RESPONSE (encode_fields (fields m) 0))
     (\<lambda>msg. try_bind (response_head pid major meth msg) decode_payload) norm"
  unfolding message_trip_def
proof (intro allI impI)
  fix m out assume ok: "list_all field_ok (fields m)"
  show "case encode_msg_with pid major minor meth FLAG_RESPONSE (encode_fields (fields m) 0) out of
      (Inr n, out') \<Rightarrow> n \<le> length out \<and> try_bind (response_head pid major meth (take n out')) decode_payload = Ok (norm m)
    | (Inl e, out') \<Rightarrow> e = PShort \<and> length out < 24 + length (fields_bytes (fields m))"
    using encode_msg_fields [OF ok, of pid major minor meth FLAG_RESPONSE out] response_head_frame bytes_small [OF ok] decode_fields [OF ok, of "[]"]
    by (auto simp: Let_def split: if_splits prod.splits sum.splits)
qed

lemma event_message_trip:
  "message_trip fields (\<lambda>m. encode_msg_with pid major minor meth FLAG_EVENT (encode_fields (fields m) 0))
     (\<lambda>msg. try_bind (event_head pid major meth msg) decode_payload) norm"
  unfolding message_trip_def
proof (intro allI impI)
  fix m out assume ok: "list_all field_ok (fields m)"
  show "case encode_msg_with pid major minor meth FLAG_EVENT (encode_fields (fields m) 0) out of
      (Inr n, out') \<Rightarrow> n \<le> length out \<and> try_bind (event_head pid major meth (take n out')) decode_payload = Ok (norm m)
    | (Inl e, out') \<Rightarrow> e = PShort \<and> length out < 24 + length (fields_bytes (fields m))"
    using encode_msg_fields [OF ok, of pid major minor meth FLAG_EVENT out] event_head_frame bytes_small [OF ok] decode_fields [OF ok, of "[]"]
    by (auto simp: Let_def split: if_splits prod.splits sum.splits)
qed

end

end
