(* ===== verification/Proto_Fs.thy ===== *)
theory Proto_Fs
  imports Proto_Wire
begin

text \<open>
  The protocol \<^verbatim>\<open>nexo.fs\<close>, \<^verbatim>\<open>abi/proto/src/generated/fs.rs\<close>: the requests to the file system service.
  Every message is a record with the fields of the struct, the fields its encoder writes, its decoder, and its framed
  encoder; then the dispatch of requests and the decoders of the responses.
\<close>

section \<open>Messages\<close>

definition fs_PROTOCOL_ID :: u32 where "fs_PROTOCOL_ID = 0x2d3847ce"
definition fs_VERSION_MAJOR :: u16 where "fs_VERSION_MAJOR = 1"
definition fs_VERSION_MINOR :: u16 where "fs_VERSION_MINOR = 4"

record fs_stat_request =
  fs_stat_request_path :: "u8 list"
  fs_stat_request_path_len :: u32

definition fs_stat_request_fields :: "fs_stat_request \<Rightarrow> wire_field list" where
  "fs_stat_request_fields m = [WBytes 256 (fs_stat_request_path m) (fs_stat_request_path_len m)]"

definition fs_stat_request_decode_payload :: "u8 list \<Rightarrow> (proto_error, fs_stat_request) result" where
  "fs_stat_request_decode_payload b =
     try_bind (read_bytes 256 b) (\<lambda>((path', path_len'), b).
     Ok \<lparr>fs_stat_request_path = path', fs_stat_request_path_len = path_len'\<rparr>)"

definition fs_stat_request_encode_msg :: "fs_stat_request \<Rightarrow> u8 list \<Rightarrow> (proto_error, nat) result \<times> u8 list" where
  "fs_stat_request_encode_msg m =
     encode_msg_with fs_PROTOCOL_ID fs_VERSION_MAJOR fs_VERSION_MINOR 1 0 (encode_fields (fs_stat_request_fields m) 0)"

definition fs_stat_request_path_valid :: "fs_stat_request \<Rightarrow> u8 list" where
  "fs_stat_request_path_valid m = valid_slice 256 (fs_stat_request_path m) (fs_stat_request_path_len m)"

record fs_stat_response =
  fs_stat_response_ino :: u32
  fs_stat_response_kind :: u8
  fs_stat_response_size :: u64

definition fs_stat_response_fields :: "fs_stat_response \<Rightarrow> wire_field list" where
  "fs_stat_response_fields m = [W32 (fs_stat_response_ino m), W8 (fs_stat_response_kind m), W64 (fs_stat_response_size m)]"

definition fs_stat_response_decode_payload :: "u8 list \<Rightarrow> (proto_error, fs_stat_response) result" where
  "fs_stat_response_decode_payload b =
     try_bind (read_u32 b) (\<lambda>(ino', b).
     try_bind (read_u8 b) (\<lambda>(kind', b).
     try_bind (read_u64 b) (\<lambda>(size', b).
     Ok \<lparr>fs_stat_response_ino = ino', fs_stat_response_kind = kind', fs_stat_response_size = size'\<rparr>)))"

definition fs_stat_response_encode_msg :: "fs_stat_response \<Rightarrow> u8 list \<Rightarrow> (proto_error, nat) result \<times> u8 list" where
  "fs_stat_response_encode_msg m =
     encode_msg_with fs_PROTOCOL_ID fs_VERSION_MAJOR fs_VERSION_MINOR 1 FLAG_RESPONSE (encode_fields (fs_stat_response_fields m) 0)"

record fs_create_request =
  fs_create_request_path :: "u8 list"
  fs_create_request_path_len :: u32

definition fs_create_request_fields :: "fs_create_request \<Rightarrow> wire_field list" where
  "fs_create_request_fields m = [WBytes 256 (fs_create_request_path m) (fs_create_request_path_len m)]"

definition fs_create_request_decode_payload :: "u8 list \<Rightarrow> (proto_error, fs_create_request) result" where
  "fs_create_request_decode_payload b =
     try_bind (read_bytes 256 b) (\<lambda>((path', path_len'), b).
     Ok \<lparr>fs_create_request_path = path', fs_create_request_path_len = path_len'\<rparr>)"

definition fs_create_request_encode_msg :: "fs_create_request \<Rightarrow> u8 list \<Rightarrow> (proto_error, nat) result \<times> u8 list" where
  "fs_create_request_encode_msg m =
     encode_msg_with fs_PROTOCOL_ID fs_VERSION_MAJOR fs_VERSION_MINOR 2 0 (encode_fields (fs_create_request_fields m) 0)"

definition fs_create_request_path_valid :: "fs_create_request \<Rightarrow> u8 list" where
  "fs_create_request_path_valid m = valid_slice 256 (fs_create_request_path m) (fs_create_request_path_len m)"

record fs_create_response =
  fs_create_response_ino :: u32

definition fs_create_response_fields :: "fs_create_response \<Rightarrow> wire_field list" where
  "fs_create_response_fields m = [W32 (fs_create_response_ino m)]"

definition fs_create_response_decode_payload :: "u8 list \<Rightarrow> (proto_error, fs_create_response) result" where
  "fs_create_response_decode_payload b =
     try_bind (read_u32 b) (\<lambda>(ino', b).
     Ok \<lparr>fs_create_response_ino = ino'\<rparr>)"

definition fs_create_response_encode_msg :: "fs_create_response \<Rightarrow> u8 list \<Rightarrow> (proto_error, nat) result \<times> u8 list" where
  "fs_create_response_encode_msg m =
     encode_msg_with fs_PROTOCOL_ID fs_VERSION_MAJOR fs_VERSION_MINOR 2 FLAG_RESPONSE (encode_fields (fs_create_response_fields m) 0)"

record fs_mkdir_request =
  fs_mkdir_request_path :: "u8 list"
  fs_mkdir_request_path_len :: u32

definition fs_mkdir_request_fields :: "fs_mkdir_request \<Rightarrow> wire_field list" where
  "fs_mkdir_request_fields m = [WBytes 256 (fs_mkdir_request_path m) (fs_mkdir_request_path_len m)]"

definition fs_mkdir_request_decode_payload :: "u8 list \<Rightarrow> (proto_error, fs_mkdir_request) result" where
  "fs_mkdir_request_decode_payload b =
     try_bind (read_bytes 256 b) (\<lambda>((path', path_len'), b).
     Ok \<lparr>fs_mkdir_request_path = path', fs_mkdir_request_path_len = path_len'\<rparr>)"

definition fs_mkdir_request_encode_msg :: "fs_mkdir_request \<Rightarrow> u8 list \<Rightarrow> (proto_error, nat) result \<times> u8 list" where
  "fs_mkdir_request_encode_msg m =
     encode_msg_with fs_PROTOCOL_ID fs_VERSION_MAJOR fs_VERSION_MINOR 3 0 (encode_fields (fs_mkdir_request_fields m) 0)"

definition fs_mkdir_request_path_valid :: "fs_mkdir_request \<Rightarrow> u8 list" where
  "fs_mkdir_request_path_valid m = valid_slice 256 (fs_mkdir_request_path m) (fs_mkdir_request_path_len m)"

record fs_mkdir_response =
  fs_mkdir_response_ino :: u32

definition fs_mkdir_response_fields :: "fs_mkdir_response \<Rightarrow> wire_field list" where
  "fs_mkdir_response_fields m = [W32 (fs_mkdir_response_ino m)]"

definition fs_mkdir_response_decode_payload :: "u8 list \<Rightarrow> (proto_error, fs_mkdir_response) result" where
  "fs_mkdir_response_decode_payload b =
     try_bind (read_u32 b) (\<lambda>(ino', b).
     Ok \<lparr>fs_mkdir_response_ino = ino'\<rparr>)"

definition fs_mkdir_response_encode_msg :: "fs_mkdir_response \<Rightarrow> u8 list \<Rightarrow> (proto_error, nat) result \<times> u8 list" where
  "fs_mkdir_response_encode_msg m =
     encode_msg_with fs_PROTOCOL_ID fs_VERSION_MAJOR fs_VERSION_MINOR 3 FLAG_RESPONSE (encode_fields (fs_mkdir_response_fields m) 0)"

record fs_unlink_request =
  fs_unlink_request_path :: "u8 list"
  fs_unlink_request_path_len :: u32

definition fs_unlink_request_fields :: "fs_unlink_request \<Rightarrow> wire_field list" where
  "fs_unlink_request_fields m = [WBytes 256 (fs_unlink_request_path m) (fs_unlink_request_path_len m)]"

definition fs_unlink_request_decode_payload :: "u8 list \<Rightarrow> (proto_error, fs_unlink_request) result" where
  "fs_unlink_request_decode_payload b =
     try_bind (read_bytes 256 b) (\<lambda>((path', path_len'), b).
     Ok \<lparr>fs_unlink_request_path = path', fs_unlink_request_path_len = path_len'\<rparr>)"

definition fs_unlink_request_encode_msg :: "fs_unlink_request \<Rightarrow> u8 list \<Rightarrow> (proto_error, nat) result \<times> u8 list" where
  "fs_unlink_request_encode_msg m =
     encode_msg_with fs_PROTOCOL_ID fs_VERSION_MAJOR fs_VERSION_MINOR 4 0 (encode_fields (fs_unlink_request_fields m) 0)"

definition fs_unlink_request_path_valid :: "fs_unlink_request \<Rightarrow> u8 list" where
  "fs_unlink_request_path_valid m = valid_slice 256 (fs_unlink_request_path m) (fs_unlink_request_path_len m)"

type_synonym fs_unlink_response = unit

definition fs_unlink_response_fields :: "fs_unlink_response \<Rightarrow> wire_field list" where
  "fs_unlink_response_fields m = []"

definition fs_unlink_response_decode_payload :: "u8 list \<Rightarrow> (proto_error, fs_unlink_response) result" where
  "fs_unlink_response_decode_payload b =
     Ok ()"

definition fs_unlink_response_encode_msg :: "fs_unlink_response \<Rightarrow> u8 list \<Rightarrow> (proto_error, nat) result \<times> u8 list" where
  "fs_unlink_response_encode_msg m =
     encode_msg_with fs_PROTOCOL_ID fs_VERSION_MAJOR fs_VERSION_MINOR 4 FLAG_RESPONSE (encode_fields (fs_unlink_response_fields m) 0)"

record fs_read_request =
  fs_read_request_ino :: u32
  fs_read_request_offset :: u64
  fs_read_request_len :: u32

definition fs_read_request_fields :: "fs_read_request \<Rightarrow> wire_field list" where
  "fs_read_request_fields m = [W32 (fs_read_request_ino m), W64 (fs_read_request_offset m), W32 (fs_read_request_len m)]"

definition fs_read_request_decode_payload :: "u8 list \<Rightarrow> (proto_error, fs_read_request) result" where
  "fs_read_request_decode_payload b =
     try_bind (read_u32 b) (\<lambda>(ino', b).
     try_bind (read_u64 b) (\<lambda>(offset', b).
     try_bind (read_u32 b) (\<lambda>(len', b).
     Ok \<lparr>fs_read_request_ino = ino', fs_read_request_offset = offset', fs_read_request_len = len'\<rparr>)))"

definition fs_read_request_encode_msg :: "fs_read_request \<Rightarrow> u8 list \<Rightarrow> (proto_error, nat) result \<times> u8 list" where
  "fs_read_request_encode_msg m =
     encode_msg_with fs_PROTOCOL_ID fs_VERSION_MAJOR fs_VERSION_MINOR 5 0 (encode_fields (fs_read_request_fields m) 0)"

record fs_read_response =
  fs_read_response_data :: "u8 list"
  fs_read_response_data_len :: u32

definition fs_read_response_fields :: "fs_read_response \<Rightarrow> wire_field list" where
  "fs_read_response_fields m = [WBytes 4000 (fs_read_response_data m) (fs_read_response_data_len m)]"

definition fs_read_response_decode_payload :: "u8 list \<Rightarrow> (proto_error, fs_read_response) result" where
  "fs_read_response_decode_payload b =
     try_bind (read_bytes 4000 b) (\<lambda>((data', data_len'), b).
     Ok \<lparr>fs_read_response_data = data', fs_read_response_data_len = data_len'\<rparr>)"

definition fs_read_response_encode_msg :: "fs_read_response \<Rightarrow> u8 list \<Rightarrow> (proto_error, nat) result \<times> u8 list" where
  "fs_read_response_encode_msg m =
     encode_msg_with fs_PROTOCOL_ID fs_VERSION_MAJOR fs_VERSION_MINOR 5 FLAG_RESPONSE (encode_fields (fs_read_response_fields m) 0)"

definition fs_read_response_data_valid :: "fs_read_response \<Rightarrow> u8 list" where
  "fs_read_response_data_valid m = valid_slice 4000 (fs_read_response_data m) (fs_read_response_data_len m)"

record fs_write_request =
  fs_write_request_ino :: u32
  fs_write_request_offset :: u64
  fs_write_request_data :: "u8 list"
  fs_write_request_data_len :: u32

definition fs_write_request_fields :: "fs_write_request \<Rightarrow> wire_field list" where
  "fs_write_request_fields m = [
       W32 (fs_write_request_ino m),
       W64 (fs_write_request_offset m),
       WBytes 3900 (fs_write_request_data m) (fs_write_request_data_len m)]"

definition fs_write_request_decode_payload :: "u8 list \<Rightarrow> (proto_error, fs_write_request) result" where
  "fs_write_request_decode_payload b =
     try_bind (read_u32 b) (\<lambda>(ino', b).
     try_bind (read_u64 b) (\<lambda>(offset', b).
     try_bind (read_bytes 3900 b) (\<lambda>((data', data_len'), b).
     Ok \<lparr>fs_write_request_ino = ino', fs_write_request_offset = offset', fs_write_request_data = data', fs_write_request_data_len = data_len'\<rparr>)))"

definition fs_write_request_encode_msg :: "fs_write_request \<Rightarrow> u8 list \<Rightarrow> (proto_error, nat) result \<times> u8 list" where
  "fs_write_request_encode_msg m =
     encode_msg_with fs_PROTOCOL_ID fs_VERSION_MAJOR fs_VERSION_MINOR 6 0 (encode_fields (fs_write_request_fields m) 0)"

definition fs_write_request_data_valid :: "fs_write_request \<Rightarrow> u8 list" where
  "fs_write_request_data_valid m = valid_slice 3900 (fs_write_request_data m) (fs_write_request_data_len m)"

record fs_write_response =
  fs_write_response_written :: u32

definition fs_write_response_fields :: "fs_write_response \<Rightarrow> wire_field list" where
  "fs_write_response_fields m = [W32 (fs_write_response_written m)]"

definition fs_write_response_decode_payload :: "u8 list \<Rightarrow> (proto_error, fs_write_response) result" where
  "fs_write_response_decode_payload b =
     try_bind (read_u32 b) (\<lambda>(written', b).
     Ok \<lparr>fs_write_response_written = written'\<rparr>)"

definition fs_write_response_encode_msg :: "fs_write_response \<Rightarrow> u8 list \<Rightarrow> (proto_error, nat) result \<times> u8 list" where
  "fs_write_response_encode_msg m =
     encode_msg_with fs_PROTOCOL_ID fs_VERSION_MAJOR fs_VERSION_MINOR 6 FLAG_RESPONSE (encode_fields (fs_write_response_fields m) 0)"

record fs_list_request =
  fs_list_request_path :: "u8 list"
  fs_list_request_path_len :: u32

definition fs_list_request_fields :: "fs_list_request \<Rightarrow> wire_field list" where
  "fs_list_request_fields m = [WBytes 256 (fs_list_request_path m) (fs_list_request_path_len m)]"

definition fs_list_request_decode_payload :: "u8 list \<Rightarrow> (proto_error, fs_list_request) result" where
  "fs_list_request_decode_payload b =
     try_bind (read_bytes 256 b) (\<lambda>((path', path_len'), b).
     Ok \<lparr>fs_list_request_path = path', fs_list_request_path_len = path_len'\<rparr>)"

definition fs_list_request_encode_msg :: "fs_list_request \<Rightarrow> u8 list \<Rightarrow> (proto_error, nat) result \<times> u8 list" where
  "fs_list_request_encode_msg m =
     encode_msg_with fs_PROTOCOL_ID fs_VERSION_MAJOR fs_VERSION_MINOR 7 0 (encode_fields (fs_list_request_fields m) 0)"

definition fs_list_request_path_valid :: "fs_list_request \<Rightarrow> u8 list" where
  "fs_list_request_path_valid m = valid_slice 256 (fs_list_request_path m) (fs_list_request_path_len m)"

record fs_list_response =
  fs_list_response_count :: u32
  fs_list_response_entries :: "u8 list"
  fs_list_response_entries_len :: u32

definition fs_list_response_fields :: "fs_list_response \<Rightarrow> wire_field list" where
  "fs_list_response_fields m = [W32 (fs_list_response_count m), WBytes 3900 (fs_list_response_entries m) (fs_list_response_entries_len m)]"

definition fs_list_response_decode_payload :: "u8 list \<Rightarrow> (proto_error, fs_list_response) result" where
  "fs_list_response_decode_payload b =
     try_bind (read_u32 b) (\<lambda>(count', b).
     try_bind (read_bytes 3900 b) (\<lambda>((entries', entries_len'), b).
     Ok \<lparr>fs_list_response_count = count', fs_list_response_entries = entries', fs_list_response_entries_len = entries_len'\<rparr>))"

definition fs_list_response_encode_msg :: "fs_list_response \<Rightarrow> u8 list \<Rightarrow> (proto_error, nat) result \<times> u8 list" where
  "fs_list_response_encode_msg m =
     encode_msg_with fs_PROTOCOL_ID fs_VERSION_MAJOR fs_VERSION_MINOR 7 FLAG_RESPONSE (encode_fields (fs_list_response_fields m) 0)"

definition fs_list_response_entries_valid :: "fs_list_response \<Rightarrow> u8 list" where
  "fs_list_response_entries_valid m = valid_slice 3900 (fs_list_response_entries m) (fs_list_response_entries_len m)"

type_synonym fs_sync_request = unit

definition fs_sync_request_fields :: "fs_sync_request \<Rightarrow> wire_field list" where
  "fs_sync_request_fields m = []"

definition fs_sync_request_decode_payload :: "u8 list \<Rightarrow> (proto_error, fs_sync_request) result" where
  "fs_sync_request_decode_payload b =
     Ok ()"

definition fs_sync_request_encode_msg :: "fs_sync_request \<Rightarrow> u8 list \<Rightarrow> (proto_error, nat) result \<times> u8 list" where
  "fs_sync_request_encode_msg m =
     encode_msg_with fs_PROTOCOL_ID fs_VERSION_MAJOR fs_VERSION_MINOR 8 0 (encode_fields (fs_sync_request_fields m) 0)"

type_synonym fs_sync_response = unit

definition fs_sync_response_fields :: "fs_sync_response \<Rightarrow> wire_field list" where
  "fs_sync_response_fields m = []"

definition fs_sync_response_decode_payload :: "u8 list \<Rightarrow> (proto_error, fs_sync_response) result" where
  "fs_sync_response_decode_payload b =
     Ok ()"

definition fs_sync_response_encode_msg :: "fs_sync_response \<Rightarrow> u8 list \<Rightarrow> (proto_error, nat) result \<times> u8 list" where
  "fs_sync_response_encode_msg m =
     encode_msg_with fs_PROTOCOL_ID fs_VERSION_MAJOR fs_VERSION_MINOR 8 FLAG_RESPONSE (encode_fields (fs_sync_response_fields m) 0)"

type_synonym fs_info_request = unit

definition fs_info_request_fields :: "fs_info_request \<Rightarrow> wire_field list" where
  "fs_info_request_fields m = []"

definition fs_info_request_decode_payload :: "u8 list \<Rightarrow> (proto_error, fs_info_request) result" where
  "fs_info_request_decode_payload b =
     Ok ()"

definition fs_info_request_encode_msg :: "fs_info_request \<Rightarrow> u8 list \<Rightarrow> (proto_error, nat) result \<times> u8 list" where
  "fs_info_request_encode_msg m =
     encode_msg_with fs_PROTOCOL_ID fs_VERSION_MAJOR fs_VERSION_MINOR 9 0 (encode_fields (fs_info_request_fields m) 0)"

record fs_info_response =
  fs_info_response_total_blocks :: u64
  fs_info_response_free_blocks :: u64
  fs_info_response_repairs :: u64
  fs_info_response_generation :: u64

definition fs_info_response_fields :: "fs_info_response \<Rightarrow> wire_field list" where
  "fs_info_response_fields m = [
       W64 (fs_info_response_total_blocks m),
       W64 (fs_info_response_free_blocks m),
       W64 (fs_info_response_repairs m),
       W64 (fs_info_response_generation m)]"

definition fs_info_response_decode_payload :: "u8 list \<Rightarrow> (proto_error, fs_info_response) result" where
  "fs_info_response_decode_payload b =
     try_bind (read_u64 b) (\<lambda>(total_blocks', b).
     try_bind (read_u64 b) (\<lambda>(free_blocks', b).
     try_bind (read_u64 b) (\<lambda>(repairs', b).
     try_bind (read_u64 b) (\<lambda>(generation', b).
     Ok \<lparr>fs_info_response_total_blocks = total_blocks', fs_info_response_free_blocks = free_blocks', fs_info_response_repairs = repairs', fs_info_response_generation = generation'\<rparr>))))"

definition fs_info_response_encode_msg :: "fs_info_response \<Rightarrow> u8 list \<Rightarrow> (proto_error, nat) result \<times> u8 list" where
  "fs_info_response_encode_msg m =
     encode_msg_with fs_PROTOCOL_ID fs_VERSION_MAJOR fs_VERSION_MINOR 9 FLAG_RESPONSE (encode_fields (fs_info_response_fields m) 0)"

record fs_rename_request =
  fs_rename_request_from :: "u8 list"
  fs_rename_request_from_len :: u32
  fs_rename_request_to :: "u8 list"
  fs_rename_request_to_len :: u32

definition fs_rename_request_fields :: "fs_rename_request \<Rightarrow> wire_field list" where
  "fs_rename_request_fields m = [
       WBytes 256 (fs_rename_request_from m) (fs_rename_request_from_len m),
       WBytes 256 (fs_rename_request_to m) (fs_rename_request_to_len m)]"

definition fs_rename_request_decode_payload :: "u8 list \<Rightarrow> (proto_error, fs_rename_request) result" where
  "fs_rename_request_decode_payload b =
     try_bind (read_bytes 256 b) (\<lambda>((from', from_len'), b).
     try_bind (read_bytes 256 b) (\<lambda>((to', to_len'), b).
     Ok \<lparr>fs_rename_request_from = from', fs_rename_request_from_len = from_len', fs_rename_request_to = to', fs_rename_request_to_len = to_len'\<rparr>))"

definition fs_rename_request_encode_msg :: "fs_rename_request \<Rightarrow> u8 list \<Rightarrow> (proto_error, nat) result \<times> u8 list" where
  "fs_rename_request_encode_msg m =
     encode_msg_with fs_PROTOCOL_ID fs_VERSION_MAJOR fs_VERSION_MINOR 11 0 (encode_fields (fs_rename_request_fields m) 0)"

definition fs_rename_request_from_valid :: "fs_rename_request \<Rightarrow> u8 list" where
  "fs_rename_request_from_valid m = valid_slice 256 (fs_rename_request_from m) (fs_rename_request_from_len m)"

definition fs_rename_request_to_valid :: "fs_rename_request \<Rightarrow> u8 list" where
  "fs_rename_request_to_valid m = valid_slice 256 (fs_rename_request_to m) (fs_rename_request_to_len m)"

type_synonym fs_rename_response = unit

definition fs_rename_response_fields :: "fs_rename_response \<Rightarrow> wire_field list" where
  "fs_rename_response_fields m = []"

definition fs_rename_response_decode_payload :: "u8 list \<Rightarrow> (proto_error, fs_rename_response) result" where
  "fs_rename_response_decode_payload b =
     Ok ()"

definition fs_rename_response_encode_msg :: "fs_rename_response \<Rightarrow> u8 list \<Rightarrow> (proto_error, nat) result \<times> u8 list" where
  "fs_rename_response_encode_msg m =
     encode_msg_with fs_PROTOCOL_ID fs_VERSION_MAJOR fs_VERSION_MINOR 11 FLAG_RESPONSE (encode_fields (fs_rename_response_fields m) 0)"

record fs_truncate_request =
  fs_truncate_request_ino :: u32
  fs_truncate_request_size :: u64

definition fs_truncate_request_fields :: "fs_truncate_request \<Rightarrow> wire_field list" where
  "fs_truncate_request_fields m = [W32 (fs_truncate_request_ino m), W64 (fs_truncate_request_size m)]"

definition fs_truncate_request_decode_payload :: "u8 list \<Rightarrow> (proto_error, fs_truncate_request) result" where
  "fs_truncate_request_decode_payload b =
     try_bind (read_u32 b) (\<lambda>(ino', b).
     try_bind (read_u64 b) (\<lambda>(size', b).
     Ok \<lparr>fs_truncate_request_ino = ino', fs_truncate_request_size = size'\<rparr>))"

definition fs_truncate_request_encode_msg :: "fs_truncate_request \<Rightarrow> u8 list \<Rightarrow> (proto_error, nat) result \<times> u8 list" where
  "fs_truncate_request_encode_msg m =
     encode_msg_with fs_PROTOCOL_ID fs_VERSION_MAJOR fs_VERSION_MINOR 10 0 (encode_fields (fs_truncate_request_fields m) 0)"

type_synonym fs_truncate_response = unit

definition fs_truncate_response_fields :: "fs_truncate_response \<Rightarrow> wire_field list" where
  "fs_truncate_response_fields m = []"

definition fs_truncate_response_decode_payload :: "u8 list \<Rightarrow> (proto_error, fs_truncate_response) result" where
  "fs_truncate_response_decode_payload b =
     Ok ()"

definition fs_truncate_response_encode_msg :: "fs_truncate_response \<Rightarrow> u8 list \<Rightarrow> (proto_error, nat) result \<times> u8 list" where
  "fs_truncate_response_encode_msg m =
     encode_msg_with fs_PROTOCOL_ID fs_VERSION_MAJOR fs_VERSION_MINOR 10 FLAG_RESPONSE (encode_fields (fs_truncate_response_fields m) 0)"

record fs_map_request =
  fs_map_request_ino :: u32

definition fs_map_request_fields :: "fs_map_request \<Rightarrow> wire_field list" where
  "fs_map_request_fields m = [W32 (fs_map_request_ino m)]"

definition fs_map_request_decode_payload :: "u8 list \<Rightarrow> (proto_error, fs_map_request) result" where
  "fs_map_request_decode_payload b =
     try_bind (read_u32 b) (\<lambda>(ino', b).
     Ok \<lparr>fs_map_request_ino = ino'\<rparr>)"

definition fs_map_request_encode_msg :: "fs_map_request \<Rightarrow> u8 list \<Rightarrow> (proto_error, nat) result \<times> u8 list" where
  "fs_map_request_encode_msg m =
     encode_msg_with fs_PROTOCOL_ID fs_VERSION_MAJOR fs_VERSION_MINOR 12 0 (encode_fields (fs_map_request_fields m) 0)"

record fs_map_response =
  fs_map_response_mem :: u32
  fs_map_response_len :: u64

definition fs_map_response_fields :: "fs_map_response \<Rightarrow> wire_field list" where
  "fs_map_response_fields m = [W64 (fs_map_response_len m)]"

definition fs_map_response_decode_payload :: "u8 list \<Rightarrow> (proto_error, fs_map_response) result" where
  "fs_map_response_decode_payload b =
     try_bind (read_u64 b) (\<lambda>(len', b).
     Ok \<lparr>fs_map_response_mem = 0, fs_map_response_len = len'\<rparr>)"

definition fs_map_response_encode_msg :: "fs_map_response \<Rightarrow> u8 list \<Rightarrow> (proto_error, nat) result \<times> u8 list" where
  "fs_map_response_encode_msg m =
     encode_msg_with fs_PROTOCOL_ID fs_VERSION_MAJOR fs_VERSION_MINOR 12 FLAG_RESPONSE (encode_fields (fs_map_response_fields m) 0)"

definition fs_map_response_handles :: "fs_map_response \<Rightarrow> u32 list" where
  "fs_map_response_handles m = [fs_map_response_mem m]"

type_synonym fs_check_request = unit

definition fs_check_request_fields :: "fs_check_request \<Rightarrow> wire_field list" where
  "fs_check_request_fields m = []"

definition fs_check_request_decode_payload :: "u8 list \<Rightarrow> (proto_error, fs_check_request) result" where
  "fs_check_request_decode_payload b =
     Ok ()"

definition fs_check_request_encode_msg :: "fs_check_request \<Rightarrow> u8 list \<Rightarrow> (proto_error, nat) result \<times> u8 list" where
  "fs_check_request_encode_msg m =
     encode_msg_with fs_PROTOCOL_ID fs_VERSION_MAJOR fs_VERSION_MINOR 13 0 (encode_fields (fs_check_request_fields m) 0)"

record fs_check_response =
  fs_check_response_inodes :: u32
  fs_check_response_blocos :: u32
  fs_check_response_penduradas :: u32
  fs_check_response_duplicadas :: u32
  fs_check_response_orfaos :: u32
  fs_check_response_blocos_duplicados :: u32
  fs_check_response_fora_da_faixa :: u32
  fs_check_response_bitmap :: u32

definition fs_check_response_fields :: "fs_check_response \<Rightarrow> wire_field list" where
  "fs_check_response_fields m = [
       W32 (fs_check_response_inodes m),
       W32 (fs_check_response_blocos m),
       W32 (fs_check_response_penduradas m),
       W32 (fs_check_response_duplicadas m),
       W32 (fs_check_response_orfaos m),
       W32 (fs_check_response_blocos_duplicados m),
       W32 (fs_check_response_fora_da_faixa m),
       W32 (fs_check_response_bitmap m)]"

definition fs_check_response_decode_payload :: "u8 list \<Rightarrow> (proto_error, fs_check_response) result" where
  "fs_check_response_decode_payload b =
     try_bind (read_u32 b) (\<lambda>(inodes', b).
     try_bind (read_u32 b) (\<lambda>(blocos', b).
     try_bind (read_u32 b) (\<lambda>(penduradas', b).
     try_bind (read_u32 b) (\<lambda>(duplicadas', b).
     try_bind (read_u32 b) (\<lambda>(orfaos', b).
     try_bind (read_u32 b) (\<lambda>(blocos_duplicados', b).
     try_bind (read_u32 b) (\<lambda>(fora_da_faixa', b).
     try_bind (read_u32 b) (\<lambda>(bitmap', b).
     Ok \<lparr>fs_check_response_inodes = inodes', fs_check_response_blocos = blocos', fs_check_response_penduradas = penduradas', fs_check_response_duplicadas = duplicadas', fs_check_response_orfaos = orfaos', fs_check_response_blocos_duplicados = blocos_duplicados', fs_check_response_fora_da_faixa = fora_da_faixa', fs_check_response_bitmap = bitmap'\<rparr>))))))))"

definition fs_check_response_encode_msg :: "fs_check_response \<Rightarrow> u8 list \<Rightarrow> (proto_error, nat) result \<times> u8 list" where
  "fs_check_response_encode_msg m =
     encode_msg_with fs_PROTOCOL_ID fs_VERSION_MAJOR fs_VERSION_MINOR 13 FLAG_RESPONSE (encode_fields (fs_check_response_fields m) 0)"

record fs_open_request =
  fs_open_request_chan :: u32
  fs_open_request_mounts :: u64

definition fs_open_request_fields :: "fs_open_request \<Rightarrow> wire_field list" where
  "fs_open_request_fields m = [W64 (fs_open_request_mounts m)]"

definition fs_open_request_decode_payload :: "u8 list \<Rightarrow> (proto_error, fs_open_request) result" where
  "fs_open_request_decode_payload b =
     try_bind (read_u64 b) (\<lambda>(mounts', b).
     Ok \<lparr>fs_open_request_chan = 0, fs_open_request_mounts = mounts'\<rparr>)"

definition fs_open_request_encode_msg :: "fs_open_request \<Rightarrow> u8 list \<Rightarrow> (proto_error, nat) result \<times> u8 list" where
  "fs_open_request_encode_msg m =
     encode_msg_with fs_PROTOCOL_ID fs_VERSION_MAJOR fs_VERSION_MINOR 14 0 (encode_fields (fs_open_request_fields m) 0)"

definition fs_open_request_handles :: "fs_open_request \<Rightarrow> u32 list" where
  "fs_open_request_handles m = [fs_open_request_chan m]"

type_synonym fs_open_response = unit

definition fs_open_response_fields :: "fs_open_response \<Rightarrow> wire_field list" where
  "fs_open_response_fields m = []"

definition fs_open_response_decode_payload :: "u8 list \<Rightarrow> (proto_error, fs_open_response) result" where
  "fs_open_response_decode_payload b =
     Ok ()"

definition fs_open_response_encode_msg :: "fs_open_response \<Rightarrow> u8 list \<Rightarrow> (proto_error, nat) result \<times> u8 list" where
  "fs_open_response_encode_msg m =
     encode_msg_with fs_PROTOCOL_ID fs_VERSION_MAJOR fs_VERSION_MINOR 14 FLAG_RESPONSE (encode_fields (fs_open_response_fields m) 0)"

section \<open>Requests and responses\<close>

datatype fs_request =
    FsStat fs_stat_request
  | FsCreate fs_create_request
  | FsMkdir fs_mkdir_request
  | FsUnlink fs_unlink_request
  | FsRead fs_read_request
  | FsWrite fs_write_request
  | FsList fs_list_request
  | FsSync fs_sync_request
  | FsInfo fs_info_request
  | FsRename fs_rename_request
  | FsTruncate fs_truncate_request
  | FsMap fs_map_request
  | FsCheck fs_check_request
  | FsOpen fs_open_request

definition fs_decode_request :: "u8 list \<Rightarrow> (proto_error, fs_request) result" where
  "fs_decode_request msg =
     try_bind (request_head fs_PROTOCOL_ID fs_VERSION_MAJOR msg) (\<lambda>(meth, p).
       if meth = 1 then try_bind (fs_stat_request_decode_payload p) (\<lambda>m. Ok (FsStat m))
       else if meth = 2 then try_bind (fs_create_request_decode_payload p) (\<lambda>m. Ok (FsCreate m))
       else if meth = 3 then try_bind (fs_mkdir_request_decode_payload p) (\<lambda>m. Ok (FsMkdir m))
       else if meth = 4 then try_bind (fs_unlink_request_decode_payload p) (\<lambda>m. Ok (FsUnlink m))
       else if meth = 5 then try_bind (fs_read_request_decode_payload p) (\<lambda>m. Ok (FsRead m))
       else if meth = 6 then try_bind (fs_write_request_decode_payload p) (\<lambda>m. Ok (FsWrite m))
       else if meth = 7 then try_bind (fs_list_request_decode_payload p) (\<lambda>m. Ok (FsList m))
       else if meth = 8 then try_bind (fs_sync_request_decode_payload p) (\<lambda>m. Ok (FsSync m))
       else if meth = 9 then try_bind (fs_info_request_decode_payload p) (\<lambda>m. Ok (FsInfo m))
       else if meth = 11 then try_bind (fs_rename_request_decode_payload p) (\<lambda>m. Ok (FsRename m))
       else if meth = 10 then try_bind (fs_truncate_request_decode_payload p) (\<lambda>m. Ok (FsTruncate m))
       else if meth = 12 then try_bind (fs_map_request_decode_payload p) (\<lambda>m. Ok (FsMap m))
       else if meth = 13 then try_bind (fs_check_request_decode_payload p) (\<lambda>m. Ok (FsCheck m))
       else if meth = 14 then try_bind (fs_open_request_decode_payload p) (\<lambda>m. Ok (FsOpen m))
       else Err PMethod)"

definition fs_decode_request_with_handles :: "u8 list \<Rightarrow> u32 list \<Rightarrow> (proto_error, fs_request) result" where
  "fs_decode_request_with_handles msg hs =
     try_bind (fs_decode_request msg) (\<lambda>r.
       case r of
         FsStat m \<Rightarrow> if hs \<noteq> [] then Err PLength else Ok r
       | FsCreate m \<Rightarrow> if hs \<noteq> [] then Err PLength else Ok r
       | FsMkdir m \<Rightarrow> if hs \<noteq> [] then Err PLength else Ok r
       | FsUnlink m \<Rightarrow> if hs \<noteq> [] then Err PLength else Ok r
       | FsRead m \<Rightarrow> if hs \<noteq> [] then Err PLength else Ok r
       | FsWrite m \<Rightarrow> if hs \<noteq> [] then Err PLength else Ok r
       | FsList m \<Rightarrow> if hs \<noteq> [] then Err PLength else Ok r
       | FsSync m \<Rightarrow> if hs \<noteq> [] then Err PLength else Ok r
       | FsInfo m \<Rightarrow> if hs \<noteq> [] then Err PLength else Ok r
       | FsRename m \<Rightarrow> if hs \<noteq> [] then Err PLength else Ok r
       | FsTruncate m \<Rightarrow> if hs \<noteq> [] then Err PLength else Ok r
       | FsMap m \<Rightarrow> if hs \<noteq> [] then Err PLength else Ok r
       | FsCheck m \<Rightarrow> if hs \<noteq> [] then Err PLength else Ok r
       | FsOpen m \<Rightarrow> if length hs \<noteq> 1 then Err PLength
           else Ok (FsOpen (m\<lparr>fs_open_request_chan := hs ! 0\<rparr>)))"

definition fs_decode_stat_response :: "u8 list \<Rightarrow> (proto_error, fs_stat_response) result" where
  "fs_decode_stat_response msg = try_bind (response_head fs_PROTOCOL_ID fs_VERSION_MAJOR 1 msg) fs_stat_response_decode_payload"

definition fs_decode_create_response :: "u8 list \<Rightarrow> (proto_error, fs_create_response) result" where
  "fs_decode_create_response msg = try_bind (response_head fs_PROTOCOL_ID fs_VERSION_MAJOR 2 msg) fs_create_response_decode_payload"

definition fs_decode_mkdir_response :: "u8 list \<Rightarrow> (proto_error, fs_mkdir_response) result" where
  "fs_decode_mkdir_response msg = try_bind (response_head fs_PROTOCOL_ID fs_VERSION_MAJOR 3 msg) fs_mkdir_response_decode_payload"

definition fs_decode_unlink_response :: "u8 list \<Rightarrow> (proto_error, fs_unlink_response) result" where
  "fs_decode_unlink_response msg = try_bind (response_head fs_PROTOCOL_ID fs_VERSION_MAJOR 4 msg) fs_unlink_response_decode_payload"

definition fs_decode_read_response :: "u8 list \<Rightarrow> (proto_error, fs_read_response) result" where
  "fs_decode_read_response msg = try_bind (response_head fs_PROTOCOL_ID fs_VERSION_MAJOR 5 msg) fs_read_response_decode_payload"

definition fs_decode_write_response :: "u8 list \<Rightarrow> (proto_error, fs_write_response) result" where
  "fs_decode_write_response msg = try_bind (response_head fs_PROTOCOL_ID fs_VERSION_MAJOR 6 msg) fs_write_response_decode_payload"

definition fs_decode_list_response :: "u8 list \<Rightarrow> (proto_error, fs_list_response) result" where
  "fs_decode_list_response msg = try_bind (response_head fs_PROTOCOL_ID fs_VERSION_MAJOR 7 msg) fs_list_response_decode_payload"

definition fs_decode_sync_response :: "u8 list \<Rightarrow> (proto_error, fs_sync_response) result" where
  "fs_decode_sync_response msg = try_bind (response_head fs_PROTOCOL_ID fs_VERSION_MAJOR 8 msg) fs_sync_response_decode_payload"

definition fs_decode_info_response :: "u8 list \<Rightarrow> (proto_error, fs_info_response) result" where
  "fs_decode_info_response msg = try_bind (response_head fs_PROTOCOL_ID fs_VERSION_MAJOR 9 msg) fs_info_response_decode_payload"

definition fs_decode_rename_response :: "u8 list \<Rightarrow> (proto_error, fs_rename_response) result" where
  "fs_decode_rename_response msg = try_bind (response_head fs_PROTOCOL_ID fs_VERSION_MAJOR 11 msg) fs_rename_response_decode_payload"

definition fs_decode_truncate_response :: "u8 list \<Rightarrow> (proto_error, fs_truncate_response) result" where
  "fs_decode_truncate_response msg = try_bind (response_head fs_PROTOCOL_ID fs_VERSION_MAJOR 10 msg) fs_truncate_response_decode_payload"

definition fs_decode_map_response :: "u8 list \<Rightarrow> (proto_error, fs_map_response) result" where
  "fs_decode_map_response msg = try_bind (response_head fs_PROTOCOL_ID fs_VERSION_MAJOR 12 msg) fs_map_response_decode_payload"

definition fs_decode_check_response :: "u8 list \<Rightarrow> (proto_error, fs_check_response) result" where
  "fs_decode_check_response msg = try_bind (response_head fs_PROTOCOL_ID fs_VERSION_MAJOR 13 msg) fs_check_response_decode_payload"

definition fs_decode_open_response :: "u8 list \<Rightarrow> (proto_error, fs_open_response) result" where
  "fs_decode_open_response msg = try_bind (response_head fs_PROTOCOL_ID fs_VERSION_MAJOR 14 msg) fs_open_response_decode_payload"

definition fs_encode_error :: "u32 \<Rightarrow> u32 \<Rightarrow> u8 list \<Rightarrow> (proto_error, nat) result \<times> u8 list" where
  "fs_encode_error = encode_error_with fs_PROTOCOL_ID fs_VERSION_MAJOR fs_VERSION_MINOR"

section \<open>Every message keeps the contract\<close>

definition fs_stat_request_norm :: "fs_stat_request \<Rightarrow> fs_stat_request" where
  "fs_stat_request_norm m = m\<lparr>fs_stat_request_path := pad 256 (fs_stat_request_path m) (fs_stat_request_path_len m)\<rparr>"

interpretation fs_stat_request: message_codec fs_stat_request_fields fs_stat_request_decode_payload fs_stat_request_norm
  by unfold_locales (auto simp: fs_stat_request_fields_def fs_stat_request_decode_payload_def fs_stat_request_norm_def codec_simps dest!: read_bytes_Ok)

interpretation fs_stat_response: message_codec fs_stat_response_fields fs_stat_response_decode_payload "\<lambda>m. m"
  by unfold_locales (auto simp: fs_stat_response_fields_def fs_stat_response_decode_payload_def codec_simps dest!: read_bytes_Ok)

definition fs_create_request_norm :: "fs_create_request \<Rightarrow> fs_create_request" where
  "fs_create_request_norm m = m\<lparr>fs_create_request_path := pad 256 (fs_create_request_path m) (fs_create_request_path_len m)\<rparr>"

interpretation fs_create_request: message_codec fs_create_request_fields fs_create_request_decode_payload fs_create_request_norm
  by unfold_locales (auto simp: fs_create_request_fields_def fs_create_request_decode_payload_def fs_create_request_norm_def codec_simps dest!: read_bytes_Ok)

interpretation fs_create_response: message_codec fs_create_response_fields fs_create_response_decode_payload "\<lambda>m. m"
  by unfold_locales (auto simp: fs_create_response_fields_def fs_create_response_decode_payload_def codec_simps dest!: read_bytes_Ok)

definition fs_mkdir_request_norm :: "fs_mkdir_request \<Rightarrow> fs_mkdir_request" where
  "fs_mkdir_request_norm m = m\<lparr>fs_mkdir_request_path := pad 256 (fs_mkdir_request_path m) (fs_mkdir_request_path_len m)\<rparr>"

interpretation fs_mkdir_request: message_codec fs_mkdir_request_fields fs_mkdir_request_decode_payload fs_mkdir_request_norm
  by unfold_locales (auto simp: fs_mkdir_request_fields_def fs_mkdir_request_decode_payload_def fs_mkdir_request_norm_def codec_simps dest!: read_bytes_Ok)

interpretation fs_mkdir_response: message_codec fs_mkdir_response_fields fs_mkdir_response_decode_payload "\<lambda>m. m"
  by unfold_locales (auto simp: fs_mkdir_response_fields_def fs_mkdir_response_decode_payload_def codec_simps dest!: read_bytes_Ok)

definition fs_unlink_request_norm :: "fs_unlink_request \<Rightarrow> fs_unlink_request" where
  "fs_unlink_request_norm m = m\<lparr>fs_unlink_request_path := pad 256 (fs_unlink_request_path m) (fs_unlink_request_path_len m)\<rparr>"

interpretation fs_unlink_request: message_codec fs_unlink_request_fields fs_unlink_request_decode_payload fs_unlink_request_norm
  by unfold_locales (auto simp: fs_unlink_request_fields_def fs_unlink_request_decode_payload_def fs_unlink_request_norm_def codec_simps dest!: read_bytes_Ok)

interpretation fs_unlink_response: message_codec fs_unlink_response_fields fs_unlink_response_decode_payload "\<lambda>m. m"
  by unfold_locales (auto simp: fs_unlink_response_fields_def fs_unlink_response_decode_payload_def codec_simps dest!: read_bytes_Ok)

interpretation fs_read_request: message_codec fs_read_request_fields fs_read_request_decode_payload "\<lambda>m. m"
  by unfold_locales (auto simp: fs_read_request_fields_def fs_read_request_decode_payload_def codec_simps dest!: read_bytes_Ok)

definition fs_read_response_norm :: "fs_read_response \<Rightarrow> fs_read_response" where
  "fs_read_response_norm m = m\<lparr>fs_read_response_data := pad 4000 (fs_read_response_data m) (fs_read_response_data_len m)\<rparr>"

interpretation fs_read_response: message_codec fs_read_response_fields fs_read_response_decode_payload fs_read_response_norm
  by unfold_locales (auto simp: fs_read_response_fields_def fs_read_response_decode_payload_def fs_read_response_norm_def codec_simps dest!: read_bytes_Ok)

definition fs_write_request_norm :: "fs_write_request \<Rightarrow> fs_write_request" where
  "fs_write_request_norm m = m\<lparr>fs_write_request_data := pad 3900 (fs_write_request_data m) (fs_write_request_data_len m)\<rparr>"

interpretation fs_write_request: message_codec fs_write_request_fields fs_write_request_decode_payload fs_write_request_norm
  by unfold_locales (auto simp: fs_write_request_fields_def fs_write_request_decode_payload_def fs_write_request_norm_def codec_simps dest!: read_bytes_Ok)

interpretation fs_write_response: message_codec fs_write_response_fields fs_write_response_decode_payload "\<lambda>m. m"
  by unfold_locales (auto simp: fs_write_response_fields_def fs_write_response_decode_payload_def codec_simps dest!: read_bytes_Ok)

definition fs_list_request_norm :: "fs_list_request \<Rightarrow> fs_list_request" where
  "fs_list_request_norm m = m\<lparr>fs_list_request_path := pad 256 (fs_list_request_path m) (fs_list_request_path_len m)\<rparr>"

interpretation fs_list_request: message_codec fs_list_request_fields fs_list_request_decode_payload fs_list_request_norm
  by unfold_locales (auto simp: fs_list_request_fields_def fs_list_request_decode_payload_def fs_list_request_norm_def codec_simps dest!: read_bytes_Ok)

definition fs_list_response_norm :: "fs_list_response \<Rightarrow> fs_list_response" where
  "fs_list_response_norm m = m\<lparr>fs_list_response_entries := pad 3900 (fs_list_response_entries m) (fs_list_response_entries_len m)\<rparr>"

interpretation fs_list_response: message_codec fs_list_response_fields fs_list_response_decode_payload fs_list_response_norm
  by unfold_locales (auto simp: fs_list_response_fields_def fs_list_response_decode_payload_def fs_list_response_norm_def codec_simps dest!: read_bytes_Ok)

interpretation fs_sync_request: message_codec fs_sync_request_fields fs_sync_request_decode_payload "\<lambda>m. m"
  by unfold_locales (auto simp: fs_sync_request_fields_def fs_sync_request_decode_payload_def codec_simps dest!: read_bytes_Ok)

interpretation fs_sync_response: message_codec fs_sync_response_fields fs_sync_response_decode_payload "\<lambda>m. m"
  by unfold_locales (auto simp: fs_sync_response_fields_def fs_sync_response_decode_payload_def codec_simps dest!: read_bytes_Ok)

interpretation fs_info_request: message_codec fs_info_request_fields fs_info_request_decode_payload "\<lambda>m. m"
  by unfold_locales (auto simp: fs_info_request_fields_def fs_info_request_decode_payload_def codec_simps dest!: read_bytes_Ok)

interpretation fs_info_response: message_codec fs_info_response_fields fs_info_response_decode_payload "\<lambda>m. m"
  by unfold_locales (auto simp: fs_info_response_fields_def fs_info_response_decode_payload_def codec_simps dest!: read_bytes_Ok)

definition fs_rename_request_norm :: "fs_rename_request \<Rightarrow> fs_rename_request" where
  "fs_rename_request_norm m = m\<lparr>fs_rename_request_from := pad 256 (fs_rename_request_from m) (fs_rename_request_from_len m), fs_rename_request_to := pad 256 (fs_rename_request_to m) (fs_rename_request_to_len m)\<rparr>"

interpretation fs_rename_request: message_codec fs_rename_request_fields fs_rename_request_decode_payload fs_rename_request_norm
  by unfold_locales (auto simp: fs_rename_request_fields_def fs_rename_request_decode_payload_def fs_rename_request_norm_def codec_simps dest!: read_bytes_Ok)

interpretation fs_rename_response: message_codec fs_rename_response_fields fs_rename_response_decode_payload "\<lambda>m. m"
  by unfold_locales (auto simp: fs_rename_response_fields_def fs_rename_response_decode_payload_def codec_simps dest!: read_bytes_Ok)

interpretation fs_truncate_request: message_codec fs_truncate_request_fields fs_truncate_request_decode_payload "\<lambda>m. m"
  by unfold_locales (auto simp: fs_truncate_request_fields_def fs_truncate_request_decode_payload_def codec_simps dest!: read_bytes_Ok)

interpretation fs_truncate_response: message_codec fs_truncate_response_fields fs_truncate_response_decode_payload "\<lambda>m. m"
  by unfold_locales (auto simp: fs_truncate_response_fields_def fs_truncate_response_decode_payload_def codec_simps dest!: read_bytes_Ok)

interpretation fs_map_request: message_codec fs_map_request_fields fs_map_request_decode_payload "\<lambda>m. m"
  by unfold_locales (auto simp: fs_map_request_fields_def fs_map_request_decode_payload_def codec_simps dest!: read_bytes_Ok)

definition fs_map_response_norm :: "fs_map_response \<Rightarrow> fs_map_response" where
  "fs_map_response_norm m = m\<lparr>fs_map_response_mem := 0\<rparr>"

interpretation fs_map_response: message_codec fs_map_response_fields fs_map_response_decode_payload fs_map_response_norm
  by unfold_locales (auto simp: fs_map_response_fields_def fs_map_response_decode_payload_def fs_map_response_norm_def codec_simps dest!: read_bytes_Ok)

interpretation fs_check_request: message_codec fs_check_request_fields fs_check_request_decode_payload "\<lambda>m. m"
  by unfold_locales (auto simp: fs_check_request_fields_def fs_check_request_decode_payload_def codec_simps dest!: read_bytes_Ok)

interpretation fs_check_response: message_codec fs_check_response_fields fs_check_response_decode_payload "\<lambda>m. m"
  by unfold_locales (auto simp: fs_check_response_fields_def fs_check_response_decode_payload_def codec_simps dest!: read_bytes_Ok)

definition fs_open_request_norm :: "fs_open_request \<Rightarrow> fs_open_request" where
  "fs_open_request_norm m = m\<lparr>fs_open_request_chan := 0\<rparr>"

interpretation fs_open_request: message_codec fs_open_request_fields fs_open_request_decode_payload fs_open_request_norm
  by unfold_locales (auto simp: fs_open_request_fields_def fs_open_request_decode_payload_def fs_open_request_norm_def codec_simps dest!: read_bytes_Ok)

interpretation fs_open_response: message_codec fs_open_response_fields fs_open_response_decode_payload "\<lambda>m. m"
  by unfold_locales (auto simp: fs_open_response_fields_def fs_open_response_decode_payload_def codec_simps dest!: read_bytes_Ok)

section \<open>The protocol\<close>

text \<open>A request as its sender encodes it, its well-formedness, the handles that travel with it, and what the receiver gets: the
  same request with its arrays zero beyond their valid length.\<close>

fun fs_request_encode_msg :: "fs_request \<Rightarrow> u8 list \<Rightarrow> (proto_error, nat) result \<times> u8 list" where
  "fs_request_encode_msg (FsStat m) = fs_stat_request_encode_msg m"
| "fs_request_encode_msg (FsCreate m) = fs_create_request_encode_msg m"
| "fs_request_encode_msg (FsMkdir m) = fs_mkdir_request_encode_msg m"
| "fs_request_encode_msg (FsUnlink m) = fs_unlink_request_encode_msg m"
| "fs_request_encode_msg (FsRead m) = fs_read_request_encode_msg m"
| "fs_request_encode_msg (FsWrite m) = fs_write_request_encode_msg m"
| "fs_request_encode_msg (FsList m) = fs_list_request_encode_msg m"
| "fs_request_encode_msg (FsSync m) = fs_sync_request_encode_msg m"
| "fs_request_encode_msg (FsInfo m) = fs_info_request_encode_msg m"
| "fs_request_encode_msg (FsRename m) = fs_rename_request_encode_msg m"
| "fs_request_encode_msg (FsTruncate m) = fs_truncate_request_encode_msg m"
| "fs_request_encode_msg (FsMap m) = fs_map_request_encode_msg m"
| "fs_request_encode_msg (FsCheck m) = fs_check_request_encode_msg m"
| "fs_request_encode_msg (FsOpen m) = fs_open_request_encode_msg m"

fun fs_request_fields :: "fs_request \<Rightarrow> wire_field list" where
  "fs_request_fields (FsStat m) = fs_stat_request_fields m"
| "fs_request_fields (FsCreate m) = fs_create_request_fields m"
| "fs_request_fields (FsMkdir m) = fs_mkdir_request_fields m"
| "fs_request_fields (FsUnlink m) = fs_unlink_request_fields m"
| "fs_request_fields (FsRead m) = fs_read_request_fields m"
| "fs_request_fields (FsWrite m) = fs_write_request_fields m"
| "fs_request_fields (FsList m) = fs_list_request_fields m"
| "fs_request_fields (FsSync m) = fs_sync_request_fields m"
| "fs_request_fields (FsInfo m) = fs_info_request_fields m"
| "fs_request_fields (FsRename m) = fs_rename_request_fields m"
| "fs_request_fields (FsTruncate m) = fs_truncate_request_fields m"
| "fs_request_fields (FsMap m) = fs_map_request_fields m"
| "fs_request_fields (FsCheck m) = fs_check_request_fields m"
| "fs_request_fields (FsOpen m) = fs_open_request_fields m"

fun fs_request_method :: "fs_request \<Rightarrow> u32" where
  "fs_request_method (FsStat m) = 1"
| "fs_request_method (FsCreate m) = 2"
| "fs_request_method (FsMkdir m) = 3"
| "fs_request_method (FsUnlink m) = 4"
| "fs_request_method (FsRead m) = 5"
| "fs_request_method (FsWrite m) = 6"
| "fs_request_method (FsList m) = 7"
| "fs_request_method (FsSync m) = 8"
| "fs_request_method (FsInfo m) = 9"
| "fs_request_method (FsRename m) = 11"
| "fs_request_method (FsTruncate m) = 10"
| "fs_request_method (FsMap m) = 12"
| "fs_request_method (FsCheck m) = 13"
| "fs_request_method (FsOpen m) = 14"

fun fs_request_handles :: "fs_request \<Rightarrow> u32 list" where
  "fs_request_handles (FsStat m) = []"
| "fs_request_handles (FsCreate m) = []"
| "fs_request_handles (FsMkdir m) = []"
| "fs_request_handles (FsUnlink m) = []"
| "fs_request_handles (FsRead m) = []"
| "fs_request_handles (FsWrite m) = []"
| "fs_request_handles (FsList m) = []"
| "fs_request_handles (FsSync m) = []"
| "fs_request_handles (FsInfo m) = []"
| "fs_request_handles (FsRename m) = []"
| "fs_request_handles (FsTruncate m) = []"
| "fs_request_handles (FsMap m) = []"
| "fs_request_handles (FsCheck m) = []"
| "fs_request_handles (FsOpen m) = fs_open_request_handles m"

fun fs_request_padded :: "fs_request \<Rightarrow> fs_request" where
  "fs_request_padded (FsStat m) = FsStat (m\<lparr>fs_stat_request_path := pad 256 (fs_stat_request_path m) (fs_stat_request_path_len m)\<rparr>)"
| "fs_request_padded (FsCreate m) = FsCreate (m\<lparr>fs_create_request_path := pad 256 (fs_create_request_path m) (fs_create_request_path_len m)\<rparr>)"
| "fs_request_padded (FsMkdir m) = FsMkdir (m\<lparr>fs_mkdir_request_path := pad 256 (fs_mkdir_request_path m) (fs_mkdir_request_path_len m)\<rparr>)"
| "fs_request_padded (FsUnlink m) = FsUnlink (m\<lparr>fs_unlink_request_path := pad 256 (fs_unlink_request_path m) (fs_unlink_request_path_len m)\<rparr>)"
| "fs_request_padded (FsRead m) = FsRead m"
| "fs_request_padded (FsWrite m) = FsWrite (m\<lparr>fs_write_request_data := pad 3900 (fs_write_request_data m) (fs_write_request_data_len m)\<rparr>)"
| "fs_request_padded (FsList m) = FsList (m\<lparr>fs_list_request_path := pad 256 (fs_list_request_path m) (fs_list_request_path_len m)\<rparr>)"
| "fs_request_padded (FsSync m) = FsSync m"
| "fs_request_padded (FsInfo m) = FsInfo m"
| "fs_request_padded (FsRename m) = FsRename (m\<lparr>fs_rename_request_from := pad 256 (fs_rename_request_from m) (fs_rename_request_from_len m), fs_rename_request_to := pad 256 (fs_rename_request_to m) (fs_rename_request_to_len m)\<rparr>)"
| "fs_request_padded (FsTruncate m) = FsTruncate m"
| "fs_request_padded (FsMap m) = FsMap m"
| "fs_request_padded (FsCheck m) = FsCheck m"
| "fs_request_padded (FsOpen m) = FsOpen m"

lemma fs_request_encode_eq:
  "fs_request_encode_msg r out = encode_msg_with fs_PROTOCOL_ID fs_VERSION_MAJOR fs_VERSION_MINOR (fs_request_method r) 0 (encode_fields (fs_request_fields r) 0) out"
  by (cases r) (simp_all add: fs_stat_request_encode_msg_def fs_create_request_encode_msg_def fs_mkdir_request_encode_msg_def fs_unlink_request_encode_msg_def fs_read_request_encode_msg_def fs_write_request_encode_msg_def fs_list_request_encode_msg_def fs_sync_request_encode_msg_def fs_info_request_encode_msg_def fs_rename_request_encode_msg_def fs_truncate_request_encode_msg_def fs_map_request_encode_msg_def fs_check_request_encode_msg_def fs_open_request_encode_msg_def)

lemma fs_request_small: "list_all field_ok (fs_request_fields r) \<Longrightarrow> length (fields_bytes (fs_request_fields r)) < 2 ^ 32"
  using fs_stat_request.bytes_small fs_create_request.bytes_small fs_mkdir_request.bytes_small fs_unlink_request.bytes_small fs_read_request.bytes_small fs_write_request.bytes_small fs_list_request.bytes_small fs_sync_request.bytes_small fs_info_request.bytes_small fs_rename_request.bytes_small fs_truncate_request.bytes_small fs_map_request.bytes_small fs_check_request.bytes_small fs_open_request.bytes_small by (cases r) simp_all

lemma fs_decode_frame:
  assumes "list_all field_ok (fs_request_fields r)" "length (fields_bytes (fs_request_fields r) @ extra) < 2 ^ 32"
  shows "fs_decode_request_with_handles (frame fs_PROTOCOL_ID fs_VERSION_MAJOR minor (fs_request_method r) 0 (fields_bytes (fs_request_fields r) @ extra)) (fs_request_handles r) = Ok (fs_request_padded r)"
proof -
  note h = request_head_frame [OF assms(2), of fs_PROTOCOL_ID fs_VERSION_MAJOR minor "fs_request_method r"]
  show ?thesis using assms(1) h
    by (cases r) (simp_all add: fs_decode_request_with_handles_def fs_decode_request_def fs_stat_request.decode_fields fs_create_request.decode_fields fs_mkdir_request.decode_fields fs_unlink_request.decode_fields fs_read_request.decode_fields fs_write_request.decode_fields fs_list_request.decode_fields fs_sync_request.decode_fields fs_info_request.decode_fields fs_rename_request.decode_fields fs_truncate_request.decode_fields fs_map_request.decode_fields fs_check_request.decode_fields fs_open_request.decode_fields fs_stat_request_norm_def fs_create_request_norm_def fs_mkdir_request_norm_def fs_unlink_request_norm_def fs_write_request_norm_def fs_list_request_norm_def fs_rename_request_norm_def fs_open_request_norm_def fs_open_request_handles_def)
qed

lemma fs_decode_request_Ok:
  assumes "fs_decode_request msg = Ok r"
  shows "\<exists>minor extra. msg = frame fs_PROTOCOL_ID fs_VERSION_MAJOR minor (fs_request_method r) 0 (fields_bytes (fs_request_fields r) @ extra) \<and>
    list_all field_ok (fs_request_fields r)"
proof -
  obtain meth p where h: "request_head fs_PROTOCOL_ID fs_VERSION_MAJOR msg = Ok (meth, p)"
    using assms by (auto simp: fs_decode_request_def try_bind_Ok_iff)
  obtain minor where f: "msg = frame fs_PROTOCOL_ID fs_VERSION_MAJOR minor meth 0 p" using request_head_Ok [OF h] by blast
  have "meth = fs_request_method r \<and> list_all field_ok (fs_request_fields r) \<and> (\<exists>extra. p = fields_bytes (fs_request_fields r) @ extra)"
    using assms h by (auto simp: fs_decode_request_def try_bind_Ok_iff split: if_splits dest: fs_stat_request.decode_canon fs_create_request.decode_canon fs_mkdir_request.decode_canon fs_unlink_request.decode_canon fs_read_request.decode_canon fs_write_request.decode_canon fs_list_request.decode_canon fs_sync_request.decode_canon fs_info_request.decode_canon fs_rename_request.decode_canon fs_truncate_request.decode_canon fs_map_request.decode_canon fs_check_request.decode_canon fs_open_request.decode_canon)
  then show ?thesis using f by blast
qed

lemma fs_decode_request_id: "is_ok (fs_decode_request msg) \<Longrightarrow> msg_protocol msg = fs_PROTOCOL_ID"
  unfolding fs_decode_request_def by (rule request_head_id)

text \<open>
  C9: requests of \<^verbatim>\<open>nexo.fs\<close>. Every well-formed request either does not fit the buffer of its sender, which is
  the only error, or arrives: the receiver decodes from the written bytes and the handles that travel with them exactly the request that was
  sent, with its byte arrays zero beyond their valid length.
\<close>

theorem fs_request_roundtrip:
  assumes "list_all field_ok (fs_request_fields r)"
  shows "case fs_request_encode_msg r out of
      (Inr n, out') \<Rightarrow> n \<le> length out \<and> fs_decode_request_with_handles (take n out') (fs_request_handles r) = Ok (fs_request_padded r)
    | (Inl e, out') \<Rightarrow> e = PShort \<and> length out < 24 + length (fields_bytes (fs_request_fields r))"
  using encode_msg_fields [OF assms, of fs_PROTOCOL_ID fs_VERSION_MAJOR fs_VERSION_MINOR "fs_request_method r" 0 out]
    fs_decode_frame [OF assms, of "[]"] fs_request_small [OF assms]
  by (auto simp: Let_def fs_request_encode_eq split: if_splits prod.splits sum.splits)

theorem fs_request_roundtrip_witness:
  "case fs_request_encode_msg (FsOpen \<lparr>fs_open_request_chan = 9, fs_open_request_mounts = 3\<rparr>) (replicate 40 0) of
      (Inr n, out') \<Rightarrow> fs_decode_request_with_handles (take n out') [9] = Ok (FsOpen \<lparr>fs_open_request_chan = 9, fs_open_request_mounts = 3\<rparr>)
    | (Inl e, out') \<Rightarrow> False"
  using fs_request_roundtrip [of "FsOpen \<lparr>fs_open_request_chan = 9, fs_open_request_mounts = 3\<rparr>" "replicate 40 0"]
  by (auto simp: fs_open_request_fields_def fs_open_request_handles_def split: sum.splits)

lemma fs_stat_response_trip: "message_trip fs_stat_response_fields fs_stat_response_encode_msg fs_decode_stat_response (\<lambda>m. m)"
  unfolding fs_stat_response_encode_msg_def [abs_def] fs_decode_stat_response_def [abs_def] by (rule fs_stat_response.response_message_trip)

lemma fs_stat_response_error: "error_trip 1 fs_encode_error fs_decode_stat_response"
  unfolding fs_encode_error_def fs_decode_stat_response_def [abs_def] by (rule error_tripI)

lemma fs_create_response_trip: "message_trip fs_create_response_fields fs_create_response_encode_msg fs_decode_create_response (\<lambda>m. m)"
  unfolding fs_create_response_encode_msg_def [abs_def] fs_decode_create_response_def [abs_def] by (rule fs_create_response.response_message_trip)

lemma fs_create_response_error: "error_trip 2 fs_encode_error fs_decode_create_response"
  unfolding fs_encode_error_def fs_decode_create_response_def [abs_def] by (rule error_tripI)

lemma fs_mkdir_response_trip: "message_trip fs_mkdir_response_fields fs_mkdir_response_encode_msg fs_decode_mkdir_response (\<lambda>m. m)"
  unfolding fs_mkdir_response_encode_msg_def [abs_def] fs_decode_mkdir_response_def [abs_def] by (rule fs_mkdir_response.response_message_trip)

lemma fs_mkdir_response_error: "error_trip 3 fs_encode_error fs_decode_mkdir_response"
  unfolding fs_encode_error_def fs_decode_mkdir_response_def [abs_def] by (rule error_tripI)

lemma fs_unlink_response_trip: "message_trip fs_unlink_response_fields fs_unlink_response_encode_msg fs_decode_unlink_response (\<lambda>m. m)"
  unfolding fs_unlink_response_encode_msg_def [abs_def] fs_decode_unlink_response_def [abs_def] by (rule fs_unlink_response.response_message_trip)

lemma fs_unlink_response_error: "error_trip 4 fs_encode_error fs_decode_unlink_response"
  unfolding fs_encode_error_def fs_decode_unlink_response_def [abs_def] by (rule error_tripI)

lemma fs_read_response_trip: "message_trip fs_read_response_fields fs_read_response_encode_msg fs_decode_read_response fs_read_response_norm"
  unfolding fs_read_response_encode_msg_def [abs_def] fs_decode_read_response_def [abs_def] by (rule fs_read_response.response_message_trip)

lemma fs_read_response_error: "error_trip 5 fs_encode_error fs_decode_read_response"
  unfolding fs_encode_error_def fs_decode_read_response_def [abs_def] by (rule error_tripI)

lemma fs_write_response_trip: "message_trip fs_write_response_fields fs_write_response_encode_msg fs_decode_write_response (\<lambda>m. m)"
  unfolding fs_write_response_encode_msg_def [abs_def] fs_decode_write_response_def [abs_def] by (rule fs_write_response.response_message_trip)

lemma fs_write_response_error: "error_trip 6 fs_encode_error fs_decode_write_response"
  unfolding fs_encode_error_def fs_decode_write_response_def [abs_def] by (rule error_tripI)

lemma fs_list_response_trip: "message_trip fs_list_response_fields fs_list_response_encode_msg fs_decode_list_response fs_list_response_norm"
  unfolding fs_list_response_encode_msg_def [abs_def] fs_decode_list_response_def [abs_def] by (rule fs_list_response.response_message_trip)

lemma fs_list_response_error: "error_trip 7 fs_encode_error fs_decode_list_response"
  unfolding fs_encode_error_def fs_decode_list_response_def [abs_def] by (rule error_tripI)

lemma fs_sync_response_trip: "message_trip fs_sync_response_fields fs_sync_response_encode_msg fs_decode_sync_response (\<lambda>m. m)"
  unfolding fs_sync_response_encode_msg_def [abs_def] fs_decode_sync_response_def [abs_def] by (rule fs_sync_response.response_message_trip)

lemma fs_sync_response_error: "error_trip 8 fs_encode_error fs_decode_sync_response"
  unfolding fs_encode_error_def fs_decode_sync_response_def [abs_def] by (rule error_tripI)

lemma fs_info_response_trip: "message_trip fs_info_response_fields fs_info_response_encode_msg fs_decode_info_response (\<lambda>m. m)"
  unfolding fs_info_response_encode_msg_def [abs_def] fs_decode_info_response_def [abs_def] by (rule fs_info_response.response_message_trip)

lemma fs_info_response_error: "error_trip 9 fs_encode_error fs_decode_info_response"
  unfolding fs_encode_error_def fs_decode_info_response_def [abs_def] by (rule error_tripI)

lemma fs_rename_response_trip: "message_trip fs_rename_response_fields fs_rename_response_encode_msg fs_decode_rename_response (\<lambda>m. m)"
  unfolding fs_rename_response_encode_msg_def [abs_def] fs_decode_rename_response_def [abs_def] by (rule fs_rename_response.response_message_trip)

lemma fs_rename_response_error: "error_trip 11 fs_encode_error fs_decode_rename_response"
  unfolding fs_encode_error_def fs_decode_rename_response_def [abs_def] by (rule error_tripI)

lemma fs_truncate_response_trip: "message_trip fs_truncate_response_fields fs_truncate_response_encode_msg fs_decode_truncate_response (\<lambda>m. m)"
  unfolding fs_truncate_response_encode_msg_def [abs_def] fs_decode_truncate_response_def [abs_def] by (rule fs_truncate_response.response_message_trip)

lemma fs_truncate_response_error: "error_trip 10 fs_encode_error fs_decode_truncate_response"
  unfolding fs_encode_error_def fs_decode_truncate_response_def [abs_def] by (rule error_tripI)

lemma fs_map_response_trip: "message_trip fs_map_response_fields fs_map_response_encode_msg fs_decode_map_response fs_map_response_norm"
  unfolding fs_map_response_encode_msg_def [abs_def] fs_decode_map_response_def [abs_def] by (rule fs_map_response.response_message_trip)

lemma fs_map_response_trip_handle:
  "message_trip fs_map_response_fields fs_map_response_encode_msg fs_decode_map_response (\<lambda>m. m\<lparr>fs_map_response_mem := 0\<rparr>)"
  "\<forall>m :: fs_map_response. (m\<lparr>fs_map_response_mem := 0\<rparr>)\<lparr>fs_map_response_mem := hd (fs_map_response_handles m)\<rparr> = m"
  using fs_map_response_trip by (simp_all add: fs_map_response_norm_def [abs_def] fs_map_response_handles_def)

lemma fs_map_response_error: "error_trip 12 fs_encode_error fs_decode_map_response"
  unfolding fs_encode_error_def fs_decode_map_response_def [abs_def] by (rule error_tripI)

lemma fs_check_response_trip: "message_trip fs_check_response_fields fs_check_response_encode_msg fs_decode_check_response (\<lambda>m. m)"
  unfolding fs_check_response_encode_msg_def [abs_def] fs_decode_check_response_def [abs_def] by (rule fs_check_response.response_message_trip)

lemma fs_check_response_error: "error_trip 13 fs_encode_error fs_decode_check_response"
  unfolding fs_encode_error_def fs_decode_check_response_def [abs_def] by (rule error_tripI)

lemma fs_open_response_trip: "message_trip fs_open_response_fields fs_open_response_encode_msg fs_decode_open_response (\<lambda>m. m)"
  unfolding fs_open_response_encode_msg_def [abs_def] fs_decode_open_response_def [abs_def] by (rule fs_open_response.response_message_trip)

lemma fs_open_response_error: "error_trip 14 fs_encode_error fs_decode_open_response"
  unfolding fs_encode_error_def fs_decode_open_response_def [abs_def] by (rule error_tripI)

text \<open>
  C31: responses of \<^verbatim>\<open>nexo.fs\<close>. For each of the fourteen methods, a well-formed response either does not fit the buffer of its
  sender, which is the only error, or the caller decodes from the written bytes every field that travels in them, with byte
  arrays zero beyond their valid length. The memory handle of the response to \<^verbatim>\<open>map\<close> is no such field: the decoder leaves 0 there,
  and the response is whole again once the first handle that travels with the message is put back. An error frame for the
  method, where the buffer has room for it, reaches the caller as the remote error with its code.
\<close>

theorem fs_response_roundtrip:
  "message_trip fs_stat_response_fields fs_stat_response_encode_msg fs_decode_stat_response (\<lambda>m. m) \<and>
   error_trip 1 fs_encode_error fs_decode_stat_response \<and>
   message_trip fs_create_response_fields fs_create_response_encode_msg fs_decode_create_response (\<lambda>m. m) \<and>
   error_trip 2 fs_encode_error fs_decode_create_response \<and>
   message_trip fs_mkdir_response_fields fs_mkdir_response_encode_msg fs_decode_mkdir_response (\<lambda>m. m) \<and>
   error_trip 3 fs_encode_error fs_decode_mkdir_response \<and>
   message_trip fs_unlink_response_fields fs_unlink_response_encode_msg fs_decode_unlink_response (\<lambda>m. m) \<and>
   error_trip 4 fs_encode_error fs_decode_unlink_response \<and>
   message_trip fs_read_response_fields fs_read_response_encode_msg fs_decode_read_response fs_read_response_norm \<and>
   error_trip 5 fs_encode_error fs_decode_read_response \<and>
   message_trip fs_write_response_fields fs_write_response_encode_msg fs_decode_write_response (\<lambda>m. m) \<and>
   error_trip 6 fs_encode_error fs_decode_write_response \<and>
   message_trip fs_list_response_fields fs_list_response_encode_msg fs_decode_list_response fs_list_response_norm \<and>
   error_trip 7 fs_encode_error fs_decode_list_response \<and>
   message_trip fs_sync_response_fields fs_sync_response_encode_msg fs_decode_sync_response (\<lambda>m. m) \<and>
   error_trip 8 fs_encode_error fs_decode_sync_response \<and>
   message_trip fs_info_response_fields fs_info_response_encode_msg fs_decode_info_response (\<lambda>m. m) \<and>
   error_trip 9 fs_encode_error fs_decode_info_response \<and>
   message_trip fs_rename_response_fields fs_rename_response_encode_msg fs_decode_rename_response (\<lambda>m. m) \<and>
   error_trip 11 fs_encode_error fs_decode_rename_response \<and>
   message_trip fs_truncate_response_fields fs_truncate_response_encode_msg fs_decode_truncate_response (\<lambda>m. m) \<and>
   error_trip 10 fs_encode_error fs_decode_truncate_response \<and>
   message_trip fs_map_response_fields fs_map_response_encode_msg fs_decode_map_response (\<lambda>m. m\<lparr>fs_map_response_mem := 0\<rparr>) \<and>
   (\<forall>m :: fs_map_response. (m\<lparr>fs_map_response_mem := 0\<rparr>)\<lparr>fs_map_response_mem := hd (fs_map_response_handles m)\<rparr> = m) \<and>
   error_trip 12 fs_encode_error fs_decode_map_response \<and>
   message_trip fs_check_response_fields fs_check_response_encode_msg fs_decode_check_response (\<lambda>m. m) \<and>
   error_trip 13 fs_encode_error fs_decode_check_response \<and>
   message_trip fs_open_response_fields fs_open_response_encode_msg fs_decode_open_response (\<lambda>m. m) \<and>
   error_trip 14 fs_encode_error fs_decode_open_response"
  by (intro conjI fs_stat_response_trip
      fs_stat_response_error
      fs_create_response_trip
      fs_create_response_error
      fs_mkdir_response_trip
      fs_mkdir_response_error
      fs_unlink_response_trip
      fs_unlink_response_error
      fs_read_response_trip
      fs_read_response_error
      fs_write_response_trip
      fs_write_response_error
      fs_list_response_trip
      fs_list_response_error
      fs_sync_response_trip
      fs_sync_response_error
      fs_info_response_trip
      fs_info_response_error
      fs_rename_response_trip
      fs_rename_response_error
      fs_truncate_response_trip
      fs_truncate_response_error
      fs_map_response_trip_handle
      fs_map_response_error
      fs_check_response_trip
      fs_check_response_error
      fs_open_response_trip
      fs_open_response_error)

text \<open>
  C32: nothing else is accepted. Whatever message the file system service decodes as a request is a header of this
  protocol and major version, followed by exactly the encoding of the decoded request and possibly later additions, with
  every array within its bounds.
\<close>

theorem fs_request_canonical:
  assumes "fs_decode_request msg = Ok r"
  shows "\<exists>minor extra. msg = frame fs_PROTOCOL_ID fs_VERSION_MAJOR minor (fs_request_method r) 0 (fields_bytes (fs_request_fields r) @ extra) \<and>
    list_all field_ok (fs_request_fields r)"
  using assms by (rule fs_decode_request_Ok)

theorem fs_request_canonical_witness:
  "\<exists>minor extra. take 32 (snd (fs_request_encode_msg (FsTruncate \<lparr>fs_truncate_request_ino = 5, fs_truncate_request_size = 1\<rparr>) (replicate 36 0))) @ [0, 0, 0, 0] =
    frame fs_PROTOCOL_ID fs_VERSION_MAJOR minor 10 0 (fields_bytes [W32 5, W64 1] @ extra)"
proof -
  have "fs_decode_request (take 32 (snd (fs_request_encode_msg (FsTruncate \<lparr>fs_truncate_request_ino = 5, fs_truncate_request_size = 1\<rparr>) (replicate 36 0))) @ [0, 0, 0, 0]) =
      Ok (FsTruncate \<lparr>fs_truncate_request_ino = 5, fs_truncate_request_size = 1\<rparr>)"
    by code_simp
  from fs_request_canonical [OF this] show ?thesis by (simp add: fs_truncate_request_fields_def)
qed


end
