(* ===== verification/Svc_Dep.thy ===== *)
theory Svc_Dep
  imports Nexo_Prelude
begin

text \<open>
  \<^verbatim>\<open>libraries/svcdep/src/lib.rs\<close>: the order in which services start, from their declared dependencies. The caller
  gives the output array; errors are values. The loop goes over the table again and again and writes every service
  whose dependencies are written already, until all are written or a turn writes none.
\<close>

section \<open>Model\<close>

definition MAX_SERVICOS :: nat where "MAX_SERVICOS = 32"

record spec =
  nome :: string
  depende :: "string list"

datatype dep_erro = Desconhecida string string | Ciclo string | Duplicado string | Espaco

text \<open>The first name that occurs again later in the table.\<close>

fun nome_duplicado :: "spec list \<Rightarrow> string option" where
  "nome_duplicado [] = None"
| "nome_duplicado (s # ss) = (if list_ex (\<lambda>t. nome t = nome s) ss then Some (nome s) else nome_duplicado ss)"

text \<open>The first dependency that is not declared.\<close>

fun desconhecida :: "spec list \<Rightarrow> spec list \<Rightarrow> (string \<times> string) option" where
  "desconhecida specs [] = None"
| "desconhecida specs (s # ss) =
     (case find (\<lambda>d. \<not> list_ex (\<lambda>t. nome t = d) specs) (depende s) of
        Some d \<Rightarrow> Some (nome s, d)
      | None \<Rightarrow> desconhecida specs ss)"

fun posicao :: "spec list \<Rightarrow> string \<Rightarrow> nat option" where
  "posicao [] d = None"
| "posicao (s # ss) d = (if nome s = d then Some 0 else map_option Suc (posicao ss d))"

definition liberado :: "spec list \<Rightarrow> bool list \<Rightarrow> nat \<Rightarrow> bool" where
  "liberado specs pronto i =
     list_all (\<lambda>d. case posicao specs d of Some j \<Rightarrow> pronto ! j | None \<Rightarrow> False) (depende (specs ! i))"

text \<open>The state of the loop: the flags, the output array and the number of services written.\<close>

type_synonym ordem_state = "bool list \<times> nat list \<times> nat"

fun ordem_passo :: "spec list \<Rightarrow> nat \<Rightarrow> ordem_state \<Rightarrow> ordem_state" where
  "ordem_passo specs i (pronto, saida, escritos) =
     (if pronto ! i then (pronto, saida, escritos)
      else if liberado specs pronto i then (pronto[i := True], saida[escritos := i], Suc escritos)
      else (pronto, saida, escritos))"

definition ordem_volta :: "spec list \<Rightarrow> ordem_state \<Rightarrow> ordem_state" where
  "ordem_volta specs st = fold (ordem_passo specs) [0..<length specs] st"

lemma fold_passo_mono: "snd (snd st) \<le> snd (snd (fold (ordem_passo specs) is st))"
proof (induction "is" arbitrary: st)
  case (Cons i "is")
  have "snd (snd st) \<le> snd (snd (ordem_passo specs i st))" by (cases st) auto
  then show ?case using Cons.IH [of "ordem_passo specs i st"] by simp
qed simp

lemma ordem_volta_mono: "ordem_volta specs (pronto, saida, escritos) = (pronto', saida', escritos') \<Longrightarrow> escritos \<le> escritos'"
  using fold_passo_mono [of "(pronto, saida, escritos)" specs "[0..<length specs]"] by (simp add: ordem_volta_def)

function ordem_laco :: "spec list \<Rightarrow> ordem_state \<Rightarrow> (dep_erro, nat) result \<times> nat list" where
  "ordem_laco specs (pronto, saida, escritos) =
     (if escritos < length specs
      then (case ordem_volta specs (pronto, saida, escritos) of
              (pronto', saida', escritos') \<Rightarrow>
                if escritos' = escritos
                then (Err (Ciclo (case find (\<lambda>i. \<not> pronto' ! i) [0..<length specs] of
                                    Some i \<Rightarrow> nome (specs ! i) | None \<Rightarrow> ''?'')), saida')
                else ordem_laco specs (pronto', saida', escritos'))
      else (Ok escritos, saida))"
  by pat_completeness auto
termination
proof (relation "measure (\<lambda>(specs, st). length specs - snd (snd st))", goal_cases)
  case (2 specs pronto saida escritos pronto' y saida' escritos')
  then have "ordem_volta specs (pronto, saida, escritos) = (pronto', saida', escritos')" by simp
  from ordem_volta_mono [OF this] have "length specs - escritos' < length specs - escritos" using 2(1,4) by linarith
  then show ?case by simp
qed simp

definition ordem :: "spec list \<Rightarrow> nat list \<Rightarrow> (dep_erro, nat) result \<times> nat list" where
  "ordem specs saida =
     (let n = length specs in
      if n > MAX_SERVICOS \<or> length saida < n then (Err Espaco, saida)
      else (case nome_duplicado specs of
              Some d \<Rightarrow> (Err (Duplicado d), saida)
            | None \<Rightarrow>
                (case desconhecida specs specs of
                   Some (s, d) \<Rightarrow> (Err (Desconhecida s d), saida)
                 | None \<Rightarrow> ordem_laco specs (replicate MAX_SERVICOS False, saida, 0))))"

section \<open>The checks\<close>

lemma nome_duplicado_None: "nome_duplicado specs = None \<longleftrightarrow> distinct (map nome specs)"
  by (induction specs) (auto simp: list_ex_iff image_iff eq_commute)

lemma find_mem: "find P xs = Some x \<Longrightarrow> P x \<and> x \<in> set xs"
  by (induction xs) (auto split: if_splits)

lemma desconhecida_None: "desconhecida specs ss = None \<longleftrightarrow> (\<forall>s\<in>set ss. set (depende s) \<subseteq> nome ` set specs)"
proof (induction ss)
  case (Cons s ss)
  have known: "list_ex (\<lambda>t. nome t = d) specs \<longleftrightarrow> d \<in> nome ` set specs" for d by (auto simp: list_ex_iff)
  show ?case
  proof (cases "find (\<lambda>d. d \<notin> nome ` set specs) (depende s)")
    case None
    then have "set (depende s) \<subseteq> nome ` set specs" unfolding find_None_iff by blast
    then show ?thesis using Cons None by (simp add: known)
  next
    case (Some d)
    then have "d \<in> set (depende s)" "d \<notin> nome ` set specs" using find_mem by metis+
    then show ?thesis using Some by (auto simp: known)
  qed
qed simp

lemma posicao_Some: "posicao specs d = Some j \<Longrightarrow> j < length specs \<and> nome (specs ! j) = d"
  by (induction specs arbitrary: j) (auto split: if_splits)

lemma posicao_known: "d \<in> nome ` set specs \<Longrightarrow> \<exists>j. posicao specs d = Some j"
  by (induction specs) auto

text \<open>The table is well declared.\<close>

definition declared :: "spec list \<Rightarrow> bool" where
  "declared specs \<longleftrightarrow> distinct (map nome specs) \<and> (\<forall>s\<in>set specs. set (depende s) \<subseteq> nome ` set specs)"

lemma posicao_iff:
  assumes "declared specs" "j < length specs"
  shows "posicao specs (nome (specs ! j)) = Some j"
proof -
  obtain i where i: "posicao specs (nome (specs ! j)) = Some i" using posicao_known [of "nome (specs ! j)" specs] assms(2) by auto
  then have "i < length specs" "nome (specs ! i) = nome (specs ! j)" using posicao_Some by blast+
  then have "i = j" using assms by (auto simp: declared_def distinct_conv_nth)
  then show ?thesis using i by simp
qed

section \<open>Orders\<close>

text \<open>Every service of \<open>xs\<close> comes after the services it depends on.\<close>

definition deps_before :: "spec list \<Rightarrow> nat list \<Rightarrow> bool" where
  "deps_before specs xs \<longleftrightarrow> (\<forall>k<length xs. \<forall>d\<in>set (depende (specs ! (xs ! k))). \<exists>l<k. nome (specs ! (xs ! l)) = d)"

definition start_order :: "spec list \<Rightarrow> nat list \<Rightarrow> bool" where
  "start_order specs xs \<longleftrightarrow> distinct xs \<and> set xs = {..<length specs} \<and> deps_before specs xs"

text \<open>What holds in the loop: the services written are the ready ones, each after its dependencies.\<close>

definition ordem_inv :: "spec list \<Rightarrow> nat list \<Rightarrow> ordem_state \<Rightarrow> bool" where
  [nexo_inv]: "ordem_inv specs saida0 st \<longleftrightarrow>
     (case st of (pronto, saida, e) \<Rightarrow>
        length pronto \<ge> length specs \<and> length saida = length saida0 \<and> length specs \<le> length saida0 \<and> e \<le> length specs \<and>
        distinct (take e saida) \<and> set (take e saida) = {i. i < length specs \<and> pronto ! i} \<and> deps_before specs (take e saida) \<and>
        drop (length specs) saida = drop (length specs) saida0)"

lemma deps_before_snoc:
  "deps_before specs (xs @ [i]) \<longleftrightarrow> deps_before specs xs \<and> (\<forall>d\<in>set (depende (specs ! i)). \<exists>l<length xs. nome (specs ! (xs ! l)) = d)"
proof -
  have "(\<exists>l<k. nome (specs ! ((xs @ [i]) ! l)) = d) \<longleftrightarrow> (\<exists>l<k. nome (specs ! (xs ! l)) = d)" if "k \<le> length xs" for k d
    using that by (intro ex_cong conj_cong refl) (simp add: nth_append)
  then show ?thesis by (simp add: deps_before_def All_less_Suc nth_append conj_commute cong: conj_cong)
qed

lemma ordem_inv_written:
  assumes "ordem_inv specs saida0 (pronto, saida, e)"
  shows "card (set (take e saida)) = e" "\<not> pronto ! i \<Longrightarrow> i < length specs \<Longrightarrow> e < length specs"
    "e = length specs \<Longrightarrow> set (take e saida) = {..<length specs}"
proof -
  have dist: "distinct (take e saida)" and len: "length (take e saida) = e"
    and mem: "set (take e saida) = {i. i < length specs \<and> pronto ! i}"
    using assms by (simp_all add: ordem_inv_def)
  show card: "card (set (take e saida)) = e" using distinct_card [OF dist] len by simp
  show "e < length specs" if "\<not> pronto ! i" "i < length specs"
  proof -
    have "set (take e saida) \<subset> {..<length specs}" using mem that by auto
    from psubset_card_mono [OF finite_lessThan this] show ?thesis using card by simp
  qed
  show "set (take e saida) = {..<length specs}" if "e = length specs"
    using card that mem by (intro card_subset_eq) auto
qed

lemma ordem_passo_inv:
  assumes d: "declared specs" and inv: "ordem_inv specs saida0 st" and i: "i < length specs"
  shows "ordem_inv specs saida0 (ordem_passo specs i st)"
proof -
  obtain pronto saida e where st: "st = (pronto, saida, e)" by (metis surj_pair)
  note I = inv [unfolded ordem_inv_def st prod.case]
  show ?thesis
  proof (cases "\<not> pronto ! i \<and> liberado specs pronto i")
    case True
    have e: "e < length specs" using ordem_inv_written(2) [OF inv [unfolded st]] True i by blast
    have mem: "set (take e saida) = {i. i < length specs \<and> pronto ! i}" using I by simp
    have t: "take (Suc e) (saida[e := i]) = take e saida @ [i]" using e I by (simp add: take_Suc_conv_app_nth)
    have "\<exists>l<length (take e saida). nome (specs ! (take e saida ! l)) = dn" if dn: "dn \<in> set (depende (specs ! i))" for dn
    proof -
      obtain j where j: "posicao specs dn = Some j" "pronto ! j" using True dn by (auto simp: liberado_def list_all_iff split: option.splits)
      then have "j \<in> set (take e saida)" "nome (specs ! j) = dn" using posicao_Some [OF j(1)] mem by auto
      then show ?thesis unfolding in_set_conv_nth by blast
    qed
    then have "deps_before specs (take e saida @ [i])" using I deps_before_snoc by blast
    moreover have "{k. k < length specs \<and> pronto[i := True] ! k} = insert i {k. k < length specs \<and> pronto ! k}"
      using i I by (auto simp: nth_list_update)
    moreover have "distinct (take e saida @ [i])" using I True mem by simp
    ultimately show ?thesis using True st t e I i mem by (simp add: ordem_inv_def)
  next
    case False
    then show ?thesis using inv st by auto
  qed
qed

lemma fold_passo_inv:
  assumes "declared specs" "ordem_inv specs saida0 st" "set is \<subseteq> {..<length specs}"
  shows "ordem_inv specs saida0 (fold (ordem_passo specs) is st)"
  using assms(2,3)
proof (induction "is" arbitrary: st)
  case (Cons i "is")
  then show ?case using Cons.IH [OF ordem_passo_inv [OF assms(1) Cons.prems(1)]] by simp
qed simp

lemma ordem_volta_inv: "declared specs \<Longrightarrow> ordem_inv specs saida0 st \<Longrightarrow> ordem_inv specs saida0 (ordem_volta specs st)"
  unfolding ordem_volta_def by (rule fold_passo_inv) auto

text \<open>A turn that writes nothing found nothing to write.\<close>

lemma fold_passo_idle:
  assumes "snd (snd (fold (ordem_passo specs) is st)) = snd (snd st)"
  shows "fold (ordem_passo specs) is st = st \<and> (\<forall>i\<in>set is. fst st ! i \<or> \<not> liberado specs (fst st) i)"
  using assms
proof (induction "is")
  case (Cons i "is")
  obtain p s e where st: "st = (p, s, e)" by (metis surj_pair)
  have "ordem_passo specs i st = st \<and> (p ! i \<or> \<not> liberado specs p i)"
    using fold_passo_mono [of "ordem_passo specs i st" specs "is"] Cons.prems st by (auto split: if_splits)
  then show ?case using Cons st by simp
qed simp

text \<open>A table in which some service is not ready and none can be released has no order.\<close>

lemma stuck_no_order:
  assumes d: "declared specs" and i0: "i0 < length specs" "\<not> pronto ! i0"
    and idle: "\<forall>i<length specs. pronto ! i \<or> \<not> liberado specs pronto i"
  shows "\<not> start_order specs xs"
proof
  assume xs: "start_order specs xs"
  have mem: "xs ! l < length specs" if "l < length xs" for l using xs that nth_mem by (auto simp: start_order_def)
  have "i0 \<in> set xs" using xs i0 by (auto simp: start_order_def)
  then have "\<exists>m. m < length xs \<and> \<not> pronto ! (xs ! m)" using i0(2) by (auto simp: in_set_conv_nth)
  then obtain m where m: "m < length xs" "\<not> pronto ! (xs ! m)" "\<And>l. l < m \<Longrightarrow> \<not> (l < length xs \<and> \<not> pronto ! (xs ! l))"
    using exists_least_iff [of "\<lambda>m. m < length xs \<and> \<not> pronto ! (xs ! m)"] by auto
  have "\<exists>j. posicao specs dn = Some j \<and> pronto ! j" if dn: "dn \<in> set (depende (specs ! (xs ! m)))" for dn
  proof -
    obtain l where l: "l < m" "nome (specs ! (xs ! l)) = dn" using xs m(1) dn unfolding start_order_def deps_before_def by blast
    have "xs ! l < length specs" "pronto ! (xs ! l)" using mem [of l] m(1) m(3) [OF l(1)] l(1) by auto
    then show ?thesis using posicao_iff [OF d, of "xs ! l"] l(2) by simp
  qed
  then have "liberado specs pronto (xs ! m)" by (fastforce simp: liberado_def list_all_iff)
  then show False using idle m(2) mem [OF m(1)] by blast
qed

text \<open>What the call reports, and what is in the output array.\<close>

fun ordem_report :: "spec list \<Rightarrow> nat list \<Rightarrow> (dep_erro, nat) result \<times> nat list \<Rightarrow> bool" where
  "ordem_report specs saida (Inr n, saida') \<longleftrightarrow>
     n = length specs \<and> start_order specs (take n saida') \<and> length saida' = length saida \<and> drop n saida' = drop n saida"
| "ordem_report specs saida (Inl (Ciclo s), saida') \<longleftrightarrow>
     declared specs \<and> s \<in> nome ` set specs \<and> (\<nexists>xs. start_order specs xs) \<and> length saida' = length saida"
| "ordem_report specs saida (Inl (Desconhecida s d), saida') \<longleftrightarrow>
     saida' = saida \<and> d \<notin> nome ` set specs \<and> (\<exists>sp\<in>set specs. nome sp = s \<and> d \<in> set (depende sp))"
| "ordem_report specs saida (Inl (Duplicado d), saida') \<longleftrightarrow>
     saida' = saida \<and> (\<exists>i j. i < j \<and> j < length specs \<and> nome (specs ! i) = d \<and> nome (specs ! j) = d)"
| "ordem_report specs saida (Inl Espaco, saida') \<longleftrightarrow>
     saida' = saida \<and> (length specs > MAX_SERVICOS \<or> length saida < length specs)"

lemma ordem_laco_report:
  assumes "declared specs" "ordem_inv specs saida0 st"
  shows "ordem_report specs saida0 (ordem_laco specs st)"
  using assms
proof (induction specs st rule: ordem_laco.induct)
  case (1 specs pronto saida e)
  note d = "1.prems"(1) and I = "1.prems"(2) [unfolded ordem_inv_def prod.case]
  show ?case
  proof (cases "e < length specs")
    case True
    obtain p' s' e' where v: "ordem_volta specs (pronto, saida, e) = (p', s', e')" by (metis surj_pair)
    have inv': "ordem_inv specs saida0 (p', s', e')" using ordem_volta_inv [OF "1.prems"] v by simp
    show ?thesis
    proof (cases "e' = e")
      case False
      then show ?thesis using "1.IH" [OF True v [symmetric] refl False d inv'] True v by simp
    next
      case same: True
      have idle: "(p', s', e') = (pronto, saida, e)" "\<forall>i<length specs. pronto ! i \<or> \<not> liberado specs pronto i"
        using fold_passo_idle [of specs "[0..<length specs]" "(pronto, saida, e)"] v same by (auto simp: ordem_volta_def)
      have "\<exists>i<length specs. \<not> pronto ! i"
      proof (rule ccontr)
        assume "\<not> ?thesis"
        then have "set (take e saida) = {..<length specs}" using I by auto
        then show False using ordem_inv_written(1) [OF "1.prems"(2)] True by simp
      qed
      then obtain i0 where i0: "i0 < length specs" "\<not> pronto ! i0" by blast
      obtain k where k: "find (\<lambda>i. \<not> p' ! i) [0..<length specs] = Some k" "k < length specs"
        using i0 idle(1) by (cases "find (\<lambda>i. \<not> p' ! i) [0..<length specs]") (auto simp: find_None_iff find_Some_iff)
      have "nome (specs ! k) \<in> nome ` set specs" using k(2) by simp
      then show ?thesis using stuck_no_order [OF d i0 idle(2)] True v same k(1) d I idle(1) by simp
    qed
  next
    case False
    then have e: "e = length specs" using I by simp
    have "set (take e saida) = {..<length specs}" using ordem_inv_written(3) [OF "1.prems"(2) e] .
    then show ?thesis using False I e by (simp add: start_order_def)
  qed
qed

lemma nome_duplicado_Some: "nome_duplicado specs = Some d \<Longrightarrow> \<exists>i j. i < j \<and> j < length specs \<and> nome (specs ! i) = d \<and> nome (specs ! j) = d"
proof (induction specs)
  case (Cons s ss)
  show ?case
  proof (cases "list_ex (\<lambda>t. nome t = nome s) ss")
    case True
    then obtain j where "j < length ss" "nome (ss ! j) = nome s" by (auto simp: list_ex_iff in_set_conv_nth)
    then show ?thesis using Cons.prems True by (intro exI [of _ 0] exI [of _ "Suc j"]) auto
  next
    case False
    then obtain i j where "i < j" "j < length ss" "nome (ss ! i) = d" "nome (ss ! j) = d" using Cons by auto
    then show ?thesis by (intro exI [of _ "Suc i"] exI [of _ "Suc j"]) simp
  qed
qed simp

lemma desconhecida_Some:
  "desconhecida specs ss = Some (s, d) \<Longrightarrow> d \<notin> nome ` set specs \<and> (\<exists>sp\<in>set ss. nome sp = s \<and> d \<in> set (depende sp))"
proof (induction ss)
  case (Cons t ss)
  then show ?case by (cases "find (\<lambda>d. \<not> list_ex (\<lambda>t. nome t = d) specs) (depende t)") (auto simp: list_ex_iff dest!: find_mem)
qed simp

lemma ordem_start:
  assumes "\<not> (length specs > MAX_SERVICOS \<or> length saida < length specs)"
  shows "ordem_inv specs saida (replicate MAX_SERVICOS False, saida, 0)"
  using assms by (auto simp: ordem_inv_def deps_before_def)

lemma declared_iff: "declared specs \<longleftrightarrow> nome_duplicado specs = None \<and> desconhecida specs specs = None"
  by (simp add: declared_def nome_duplicado_None desconhecida_None)

lemma ordem_report_all: "ordem_report specs saida (ordem specs saida)"
proof (cases "length specs > MAX_SERVICOS \<or> length saida < length specs")
  case False
  note room = False
  show ?thesis
  proof (cases "declared specs")
    case True
    then show ?thesis using ordem_laco_report [OF True ordem_start [OF room]] room
      by (simp add: ordem_def declared_iff)
  next
    case False
    then consider d where "nome_duplicado specs = Some d"
      | s d where "nome_duplicado specs = None" "desconhecida specs specs = Some (s, d)"
      unfolding declared_iff by (metis option.exhaust surj_pair)
    then show ?thesis using room by cases (simp_all add: ordem_def nome_duplicado_Some desconhecida_Some)
  qed
qed (simp add: ordem_def)

section \<open>Properties\<close>

text \<open>
  C10. Whatever the table and the output array, the call ends and its report is right: on success all services are
  written, each once and after everything it depends on, and the rest of the array is as before; \<open>Ciclo\<close> names a
  declared service and the table has no start order at all; \<open>Desconhecida\<close> and \<open>Duplicado\<close> name an undeclared
  dependency and a name declared twice; \<open>Espaco\<close> means too many services or too small an array. On the last three
  nothing has been written.
\<close>

theorem ordem_reports: "ordem_report specs saida (ordem specs saida)"
  by (rule ordem_report_all)

definition tabela_init :: "spec list" where
  "tabela_init = [\<lparr>nome = ''fs'', depende = [''block'']\<rparr>, \<lparr>nome = ''block'', depende = []\<rparr>, \<lparr>nome = ''net'', depende = []\<rparr>]"

text \<open>
  Two remarks on the order. Among the services that can start, the one declared first does not always win: once
  \<open>block\<close> is written both \<open>fs\<close> (declared first) and \<open>net\<close> can start, and \<open>net\<close> is written. And the service
  named by \<open>Ciclo\<close> need not be on a cycle.
\<close>

lemma ordem_not_earliest: "ordem tabela_init [0, 0, 0] = (Ok 3, [1, 2, 0])"
  by code_simp

lemma ordem_ciclo_outside:
  "fst (ordem [\<lparr>nome = ''x'', depende = [''a'']\<rparr>, \<lparr>nome = ''a'', depende = [''b'']\<rparr>, \<lparr>nome = ''b'', depende = [''a'']\<rparr>] [0, 0, 0]) =
     Err (Ciclo ''x'')"
  by code_simp

end
