(* ===== verification/Firewall.thy ===== *)
theory Firewall
  imports Le_Bytes
begin

text \<open>
  \<^verbatim>\<open>libraries/net/src/firewall.rs\<close>: the network policy of a client session. A profile is an array of at most
  \<open>MAX_RULES\<close> rules, each a subnet, a range of ports and a set of protocols; what no rule allows is denied. The
  mask arithmetic of the subnet test is compared with agreement on the leading bits of the dotted address.
\<close>

section \<open>Model\<close>

type_synonym ipv4 = "u8 \<times> u8 \<times> u8 \<times> u8"

record rule =
  base :: ipv4
  prefix :: u8
  port_lo :: u16
  port_hi :: u16
  protos :: u8

definition PROTO_TCP :: u8 where "PROTO_TCP = 1"
definition PROTO_UDP :: u8 where "PROTO_UDP = 2"
definition PROTO_ICMP :: u8 where "PROTO_ICMP = 4"
definition MAX_RULES :: nat where "MAX_RULES = 8"

fun u32_from_be_bytes :: "ipv4 \<Rightarrow> u32" where
  "u32_from_be_bytes (a, b, c, d) = from_be [a, b, c, d]"

definition rule_mask :: "rule \<Rightarrow> u32" where
  "rule_mask r = (let bits = min (unat (prefix r)) 32 in
     if bits = 32 then - 1 else NOT (push_bit (32 - bits) 1 - 1))"

definition matches_addr :: "rule \<Rightarrow> ipv4 \<Rightarrow> bool" where
  "matches_addr r ip =
     (if prefix r = 0 then True
      else u32_from_be_bytes ip AND rule_mask r = u32_from_be_bytes (base r) AND rule_mask r)"

definition rule_matches :: "rule \<Rightarrow> ipv4 \<Rightarrow> u16 \<Rightarrow> u8 \<Rightarrow> bool" where
  "rule_matches r ip port proto =
     (if protos r AND proto = 0 \<or> port < port_lo r \<or> port > port_hi r then False else matches_addr r ip)"

record profile =
  rules :: "rule list"
  count :: nat
  allow_dns :: bool
  allow_listen :: bool

datatype deny = NoRule | Protocol | Dns | Listen

definition deny_all :: profile where
  "deny_all = \<lparr>rules = replicate MAX_RULES \<lparr>base = (0, 0, 0, 0), prefix = 0, port_lo = 0, port_hi = 0, protos = 0\<rparr>,
               count = 0, allow_dns = False, allow_listen = False\<rparr>"

definition unrestricted :: profile where
  "unrestricted = deny_all
     \<lparr>rules := (rules deny_all)[0 := \<lparr>base = (0, 0, 0, 0), prefix = 0, port_lo = 0, port_hi = - 1,
                                     protos = PROTO_TCP OR PROTO_UDP OR PROTO_ICMP\<rparr>],
      count := 1, allow_dns := True, allow_listen := True\<rparr>"

definition add_rule :: "profile \<Rightarrow> rule \<Rightarrow> bool \<times> profile" where
  "add_rule p r =
     (if count p \<ge> MAX_RULES then (False, p)
      else (True, p\<lparr>rules := (rules p)[count p := r], count := count p + 1\<rparr>))"

definition deny_for :: "profile \<Rightarrow> ipv4 \<Rightarrow> deny" where
  "deny_for p ip = (if list_ex (\<lambda>r. matches_addr r ip) (take (count p) (rules p)) then Protocol else NoRule)"

fun allows_loop :: "rule list \<Rightarrow> ipv4 \<Rightarrow> u16 \<Rightarrow> u8 \<Rightarrow> bool" where
  "allows_loop [] ip port proto = False"
| "allows_loop (r # rs) ip port proto = (if rule_matches r ip port proto then True else allows_loop rs ip port proto)"

definition allows :: "profile \<Rightarrow> ipv4 \<Rightarrow> u16 \<Rightarrow> u8 \<Rightarrow> (deny, unit) result" where
  "allows p ip port proto =
     (if allows_loop (take (count p) (rules p)) ip port proto then Ok () else Err (deny_for p ip))"

definition allows_icmp :: "profile \<Rightarrow> ipv4 \<Rightarrow> (deny, unit) result" where
  "allows_icmp p ip =
     (if list_ex (\<lambda>r. protos r AND PROTO_ICMP \<noteq> 0 \<and> matches_addr r ip) (take (count p) (rules p))
      then Ok () else Err (deny_for p ip))"

definition allows_dns :: "profile \<Rightarrow> (deny, unit) result" where
  "allows_dns p = (if allow_dns p then Ok () else Err Dns)"

definition allows_listen :: "profile \<Rightarrow> (deny, unit) result" where
  "allows_listen p = (if allow_listen p then Ok () else Err Listen)"

section \<open>Subnets\<close>

text \<open>The bits of an address from the left, as in the dotted notation, and the addresses of a subnet.\<close>

fun addr_bit :: "ipv4 \<Rightarrow> nat \<Rightarrow> bool" where
  "addr_bit (a, b, c, d) k = bit ([a, b, c, d] ! (k div 8)) (7 - k mod 8)"

definition in_subnet :: "ipv4 \<Rightarrow> nat \<Rightarrow> ipv4 \<Rightarrow> bool" where
  "in_subnet net n ip \<longleftrightarrow> (\<forall>k<min n 32. addr_bit ip k = addr_bit net k)"

lemma div8_rev:
  assumes "k < 32"
  shows "(31 - k) div 8 = 3 - k div 8 \<and> (31 - k) mod 8 = 7 - k mod (8 :: nat)"
proof -
  obtain q r where k: "k = 8 * q + r" "r < 8" by (metis mult_div_mod_eq mod_less_divisor zero_less_numeral)
  define c where "c = 7 - r"
  have "31 - k = 8 * (3 - q) + c" "c < 8" using assms k by (auto simp: c_def)
  then show ?thesis using k by (simp add: c_def [symmetric])
qed

lemma bit_from_be_bytes: "k < 32 \<Longrightarrow> bit (u32_from_be_bytes ip) (31 - k) = addr_bit ip k"
proof (cases ip)
  case (fields a b c d)
  assume k: "k < 32"
  then have "k div 8 < 4" by simp
  then have "rev [a, b, c, d] ! (3 - k div 8) = [a, b, c, d] ! (k div 8)" using rev_nth [of "3 - k div 8" "[a, b, c, d]"] by simp
  moreover have "3 - k div 8 < Suc (Suc (Suc (Suc 0)))" "31 - k < 32" by (rule le_less_trans [OF diff_le_self], simp)+
  ultimately show ?thesis using fields k div8_rev [OF k] by (auto simp: from_be_def bit_from_le simp del: from_le.simps)
qed

lemma bit_rule_mask: "i < 32 \<Longrightarrow> bit (rule_mask r) i \<longleftrightarrow> 32 - min (unat (prefix r)) 32 \<le> i"
  by (auto simp: rule_mask_def Let_def push_bit_eq_mult bit_simps simp flip: mask_eq_exp_minus_1)

lemma matches_addr_iff: "matches_addr r ip \<longleftrightarrow> in_subnet (base r) (unat (prefix r)) ip"
proof -
  let ?n = "min (unat (prefix r)) 32" and ?a = "u32_from_be_bytes ip" and ?b = "u32_from_be_bytes (base r)"
  have "?a AND rule_mask r = ?b AND rule_mask r \<longleftrightarrow> (\<forall>i<32. 32 - ?n \<le> i \<longrightarrow> bit ?a i = bit ?b i)"
    by (auto simp: bit_eq_iff bit_simps bit_rule_mask)
  also have "\<dots> \<longleftrightarrow> (\<forall>k<?n. bit ?a (31 - k) = bit ?b (31 - k))"
  proof (rule iffI; intro allI impI)
    fix i assume *: "\<forall>k<?n. bit ?a (31 - k) = bit ?b (31 - k)" and i: "i < 32" "32 - ?n \<le> i"
    then have "31 - i < ?n" "31 - (31 - i) = i" by linarith+
    then show "bit ?a i = bit ?b i" using *[rule_format, of "31 - i"] by simp
  next
    fix k assume *: "\<forall>i<32. 32 - ?n \<le> i \<longrightarrow> bit ?a i = bit ?b i" and k: "k < ?n"
    then have "31 - k < 32" "32 - ?n \<le> 31 - k" by linarith+
    then show "bit ?a (31 - k) = bit ?b (31 - k)" using * by blast
  qed
  also have "\<dots> \<longleftrightarrow> in_subnet (base r) (unat (prefix r)) ip"
    by (simp add: in_subnet_def bit_from_be_bytes cong: all_cong)
  finally show ?thesis by (auto simp: matches_addr_def in_subnet_def)
qed

section \<open>Profiles\<close>

text \<open>The profile that results from adding rules to an empty one.\<close>

definition profile_of :: "rule list \<Rightarrow> profile" where
  "profile_of rs = foldl (\<lambda>p r. snd (add_rule p r)) deny_all rs"

lemma profile_of_rules:
  "length (rules (profile_of rs)) = MAX_RULES \<and> count (profile_of rs) = min (length rs) MAX_RULES \<and>
   take (count (profile_of rs)) (rules (profile_of rs)) = take MAX_RULES rs"
proof (induction rs rule: rev_induct)
  case Nil
  then show ?case by (simp add: profile_of_def deny_all_def)
next
  case (snoc r rs)
  have step: "profile_of (rs @ [r]) = snd (add_rule (profile_of rs) r)" by (simp add: profile_of_def)
  show ?case
  proof (cases "length rs < MAX_RULES")
    case True
    then show ?thesis using snoc by (auto simp: step add_rule_def take_Suc_conv_app_nth)
  next
    case False
    then show ?thesis using snoc by (auto simp: step add_rule_def)
  qed
qed

lemma allows_loop_iff: "allows_loop rs ip port proto \<longleftrightarrow> (\<exists>r\<in>set rs. rule_matches r ip port proto)"
  by (induction rs) auto

text \<open>What a rule permits, and the rules of a list that cover an address.\<close>

definition permits :: "rule \<Rightarrow> ipv4 \<Rightarrow> u16 \<Rightarrow> u8 \<Rightarrow> bool" where
  "permits r ip port proto \<longleftrightarrow>
     protos r AND proto \<noteq> 0 \<and> port \<in> {port_lo r..port_hi r} \<and> in_subnet (base r) (unat (prefix r)) ip"

definition covers :: "rule list \<Rightarrow> ipv4 \<Rightarrow> rule list" where
  "covers rs ip = filter (\<lambda>r. in_subnet (base r) (unat (prefix r)) ip) rs"

lemma deny_for_covers: "deny_for (profile_of rs) ip = (if covers (take MAX_RULES rs) ip = [] then NoRule else Protocol)"
  using profile_of_rules [of rs] by (auto simp: deny_for_def covers_def list_ex_iff matches_addr_iff filter_empty_conv)

lemma allows_covers:
  "allows (profile_of rs) ip port proto =
     (if \<exists>r\<in>set (take MAX_RULES rs). permits r ip port proto then Ok () else Err (deny_for (profile_of rs) ip))"
  "allows_icmp (profile_of rs) ip =
     (if \<exists>r\<in>set (covers (take MAX_RULES rs) ip). protos r AND PROTO_ICMP \<noteq> 0 then Ok () else Err (deny_for (profile_of rs) ip))"
  using profile_of_rules [of rs]
  by (auto simp: allows_def allows_icmp_def permits_def covers_def rule_matches_def allows_loop_iff matches_addr_iff list_ex_iff not_less)

text \<open>
  C11. The answers of a profile built by adding rules are those of the declared policy. Traffic is allowed exactly when one
  of the first \<open>MAX_RULES\<close> rules covers its protocol, its port and, bit by bit, the leading part of its address; a ping
  exactly when a rule that covers the address has ICMP, whatever its ports. The reason of a denial is \<open>NoRule\<close> exactly when
  no rule covers the address. It is \<open>Protocol\<close> for traffic to an address that has rules of which none allows the protocol,
  and for a denied ping exactly when the address has rules.
\<close>

theorem firewall_policy:
  "let p = profile_of rs; here = covers (take MAX_RULES rs) ip in
     (allows p ip port proto = Ok () \<longleftrightarrow> (\<exists>r\<in>set (take MAX_RULES rs). permits r ip port proto)) \<and>
     (allows p ip port proto = Err NoRule \<longleftrightarrow> here = []) \<and>
     (here \<noteq> [] \<and> (\<forall>r\<in>set here. protos r AND proto = 0) \<longrightarrow> allows p ip port proto = Err Protocol) \<and>
     (allows_icmp p ip = Ok () \<longleftrightarrow> (\<exists>r\<in>set here. protos r AND PROTO_ICMP \<noteq> 0)) \<and>
     (allows_icmp p ip = Err NoRule \<longleftrightarrow> here = []) \<and>
     (allows_icmp p ip = Err Protocol \<longleftrightarrow> here \<noteq> [] \<and> (\<forall>r\<in>set here. protos r AND PROTO_ICMP = 0))"
  unfolding Let_def allows_covers deny_for_covers by (auto simp: covers_def permits_def filter_empty_conv)

text \<open>A rule for web traffic to 10.0.0.0/8 and a datagram to one of its addresses.\<close>

definition web_rule :: rule where
  "web_rule = \<lparr>base = (10, 0, 0, 0), prefix = 8, port_lo = 80, port_hi = 443, protos = PROTO_TCP\<rparr>"

lemma web_covers: "take MAX_RULES [web_rule] = [web_rule]" "covers [web_rule] (10, 0, 2, 2) = [web_rule]" "covers [web_rule] (11, 0, 2, 2) = []"
  "permits web_rule (10, 0, 2, 2) 80 PROTO_TCP" "\<not> permits web_rule (10, 0, 2, 2) 22 PROTO_TCP" "protos web_rule AND PROTO_UDP = 0"
  by code_simp+

lemma firewall_policy_witness:
  "allows (profile_of [web_rule]) (10, 0, 2, 2) 80 PROTO_TCP = Ok () \<and> allows (profile_of [web_rule]) (10, 0, 2, 2) 53 PROTO_UDP = Err Protocol \<and>
   allows (profile_of [web_rule]) (11, 0, 2, 2) 80 PROTO_TCP = Err NoRule"
  using firewall_policy [of "[web_rule]" "(10, 0, 2, 2)" 80 PROTO_TCP] firewall_policy [of "[web_rule]" "(10, 0, 2, 2)" 53 PROTO_UDP]
    firewall_policy [of "[web_rule]" "(11, 0, 2, 2)" 80 PROTO_TCP] by (simp add: web_covers Let_def)

text \<open>Where only the port is outside of every rule, the reason is \<open>Protocol\<close> as well, although the protocol is allowed.\<close>

lemma port_denied_as_protocol: "allows (profile_of [web_rule]) (10, 0, 2, 2) 22 PROTO_TCP = Err Protocol"
  unfolding allows_covers deny_for_covers by (simp add: web_covers)

lemma deny_all_denies: "allows deny_all ip port proto = Err NoRule" "allows_icmp deny_all ip = Err NoRule"
  "allows_dns deny_all = Err Dns" "allows_listen deny_all = Err Listen"
  by (simp_all add: allows_def allows_icmp_def deny_for_def deny_all_def allows_dns_def allows_listen_def)

lemma unrestricted_rules:
  "take (count unrestricted) (rules unrestricted) = [\<lparr>base = (0, 0, 0, 0), prefix = 0, port_lo = 0, port_hi = - 1, protos = 7\<rparr>]"
proof -
  have "PROTO_TCP OR PROTO_UDP OR PROTO_ICMP = 7" by (simp add: PROTO_TCP_def PROTO_UDP_def PROTO_ICMP_def)
  then show ?thesis by (simp add: unrestricted_def deny_all_def MAX_RULES_def numeral_nat)
qed

lemma unrestricted_allows: "proto AND 7 \<noteq> 0 \<Longrightarrow> allows unrestricted ip port proto = Ok ()"
  "allows_icmp unrestricted ip = Ok ()" "allows_dns unrestricted = Ok ()" "allows_listen unrestricted = Ok ()"
  by (simp_all add: allows_def allows_icmp_def unrestricted_rules rule_matches_def matches_addr_def PROTO_ICMP_def
      allows_dns_def allows_listen_def and.commute not_less)
    (simp_all add: unrestricted_def)

end
