(* ===== verification/Nexofs_Format.thy ===== *)
theory Nexofs_Format
  imports Le_Bytes
begin

text \<open>
  The disk format of NexoFS (\<^verbatim>\<open>libraries/nexofs/src/lib.rs\<close>): the checksum, the superblock, the inodes and the
  directory entries, each with its encoder and its decoder. Byte strings are lists of bytes; an encoder takes the
  slice it overwrites and returns it.
\<close>

section \<open>Constants and errors\<close>

definition BLOCK :: nat where [simp]: "BLOCK = 2048"
definition NEXOFS_MAGIC :: "u8 list" where "NEXOFS_MAGIC = [0x4e, 0x45, 0x58, 0x4f, 0x46, 0x53, 0x30, 0x30]"
definition VERSION :: u32 where "VERSION = 0"
definition INODE_SIZE :: nat where [simp]: "INODE_SIZE = 128"
definition DIRENT_SIZE :: nat where [simp]: "DIRENT_SIZE = 64"
definition NAME_MAX :: nat where [simp]: "NAME_MAX = 55"
definition NDIRECT :: nat where [simp]: "NDIRECT = 12"
definition PTRS_PER_BLOCK :: nat where [simp]: "PTRS_PER_BLOCK = BLOCK div 8"
definition MAX_FILE :: nat where [simp]: "MAX_FILE = (NDIRECT + PTRS_PER_BLOCK) * BLOCK"
definition MAX_BLOCKS :: nat where [simp]: "MAX_BLOCKS = 65536"
definition ROOT_INO :: u32 where [simp]: "ROOT_INO = 1"

datatype fs_error = Io | Corrupted string | NotFound | Exists | NotDir | IsDir | NotEmpty | NoSpace | TooBig
  | InvalidName | InvalidArgs

definition fs_error_code :: "fs_error \<Rightarrow> u8" where
  "fs_error_code e = (case e of Io \<Rightarrow> 1 | Corrupted _ \<Rightarrow> 2 | NotFound \<Rightarrow> 3 | Exists \<Rightarrow> 4 | NotDir \<Rightarrow> 5 | IsDir \<Rightarrow> 6
     | NotEmpty \<Rightarrow> 7 | NoSpace \<Rightarrow> 8 | TooBig \<Rightarrow> 9 | InvalidName \<Rightarrow> 10 | InvalidArgs \<Rightarrow> 11)"

datatype kind = File | Dir

definition kind_code :: "kind \<Rightarrow> u32" where
  "kind_code k = (case k of File \<Rightarrow> 1 | Dir \<Rightarrow> 2)"

section \<open>Bytes\<close>

definition crc_bit :: "u32 \<Rightarrow> u32" where
  "crc_bit crc = drop_bit 1 crc XOR (0xedb88320 AND (- (crc AND 1)))"

definition crc32 :: "u8 list \<Rightarrow> u32" where
  "crc32 data = NOT (fold (\<lambda>b crc. (crc_bit ^^ 8) (crc XOR ucast b)) data 0xffffffff)"

definition u32_at :: "u8 list \<Rightarrow> nat \<Rightarrow> u32" where
  "u32_at b off = from_le (slice_at off 4 b)"

definition u64_at :: "u8 list \<Rightarrow> nat \<Rightarrow> u64" where
  "u64_at b off = from_le (slice_at off 8 b)"

definition put32 :: "u8 list \<Rightarrow> nat \<Rightarrow> u32 \<Rightarrow> u8 list" where
  "put32 b off v = copy_at off (to_le 4 v) b"

definition put64 :: "u8 list \<Rightarrow> nat \<Rightarrow> u64 \<Rightarrow> u8 list" where
  "put64 b off v = copy_at off (to_le 8 v) b"

text \<open>The loop that stores pointers one after the other.\<close>

fun put64s :: "u8 list \<Rightarrow> nat \<Rightarrow> u64 list \<Rightarrow> u8 list" where
  "put64s b off [] = b"
| "put64s b off (d # ds) = put64s (put64 b off d) (off + 8) ds"

section \<open>Superblock\<close>

record superblock =
  total_blocks :: u64
  bitmap_start :: u64
  bitmap_blocks :: u64
  inode_start :: u64
  inode_blocks :: u64
  data_start :: u64
  inode_count :: u32
  sb_generation :: u64

definition geometry :: "superblock \<Rightarrow> bool" where
  "geometry sb \<longleftrightarrow>
     total_blocks sb \<ge> 4 \<and> unat (total_blocks sb) \<le> MAX_BLOCKS \<and> bitmap_start sb = 1 \<and> bitmap_blocks sb \<ge> 1 \<and>
     inode_start sb = bitmap_start sb + bitmap_blocks sb \<and> inode_blocks sb \<ge> 1 \<and>
     data_start sb = inode_start sb + inode_blocks sb \<and> data_start sb < total_blocks sb \<and> inode_count sb \<ge> 2 \<and>
     div_ceil (unat (inode_count sb) * INODE_SIZE) BLOCK = unat (inode_blocks sb) \<and>
     div_ceil (unat (total_blocks sb)) (8 * BLOCK) = unat (bitmap_blocks sb)"

definition superblock_decode :: "u8 list \<Rightarrow> (fs_error, superblock) result" where
  "superblock_decode b =
     (if slice_at 0 8 b \<noteq> NEXOFS_MAGIC then Err (Corrupted ''assinatura do superbloco'')
      else if u32_at b 80 \<noteq> crc32 (slice_at 0 80 b) then Err (Corrupted ''crc do superbloco'')
      else if u32_at b 8 \<noteq> VERSION \<or> unat (u32_at b 12) \<noteq> BLOCK then Err (Corrupted ''versao/tamanho de bloco'')
      else let sb = \<lparr>total_blocks = u64_at b 16, bitmap_start = u64_at b 24, bitmap_blocks = u64_at b 32,
                     inode_start = u64_at b 40, inode_blocks = u64_at b 48, data_start = u64_at b 56,
                     inode_count = u32_at b 64, sb_generation = u64_at b 72\<rparr> in
           if \<not> geometry sb then Err (Corrupted ''geometria do superbloco'') else Ok sb)"

definition superblock_encode :: "superblock \<Rightarrow> u8 list" where
  "superblock_encode sb =
     (let b = replicate BLOCK 0;
          b = copy_at 0 NEXOFS_MAGIC b;
          b = put32 b 8 VERSION;
          b = put32 b 12 (word_of_nat BLOCK);
          b = put64 b 16 (total_blocks sb);
          b = put64 b 24 (bitmap_start sb);
          b = put64 b 32 (bitmap_blocks sb);
          b = put64 b 40 (inode_start sb);
          b = put64 b 48 (inode_blocks sb);
          b = put64 b 56 (data_start sb);
          b = put32 b 64 (inode_count sb);
          b = put64 b 72 (sb_generation sb)
      in put32 b 80 (crc32 (slice_at 0 80 b)))"

section \<open>Inodes\<close>

record inode =
  i_kind :: u32
  i_size :: u64
  i_direct :: "u64 list"
  i_indirect :: u64
  i_generation :: u32

definition inode_free :: inode where
  "inode_free = \<lparr>i_kind = 0, i_size = 0, i_direct = replicate NDIRECT 0, i_indirect = 0, i_generation = 0\<rparr>"

definition inode_decode :: "u8 list \<Rightarrow> (fs_error, inode) result" where
  "inode_decode b =
     (let k = u32_at b 0 in
      if k = 0 then Ok inode_free
      else if u32_at b 124 \<noteq> crc32 (slice_at 0 124 b) then Err (Corrupted ''crc de inode'')
      else if k \<noteq> 1 \<and> k \<noteq> 2 then Err (Corrupted ''tipo de inode'')
      else Ok \<lparr>i_kind = k, i_size = u64_at b 8, i_direct = map (\<lambda>i. u64_at b (16 + 8 * i)) [0..<NDIRECT],
               i_indirect = u64_at b 112, i_generation = u32_at b 120\<rparr>)"

definition inode_encode :: "inode \<Rightarrow> u8 list \<Rightarrow> u8 list" where
  "inode_encode i b =
     (let b = copy_at 0 (replicate INODE_SIZE 0) b in
      if i_kind i = 0 then b
      else let b = put32 b 0 (i_kind i);
               b = put64 b 8 (i_size i);
               b = put64s b 16 (i_direct i);
               b = put64 b 112 (i_indirect i);
               b = put32 b 120 (i_generation i)
           in put32 b 124 (crc32 (slice_at 0 124 b)))"

definition inode_kind :: "inode \<Rightarrow> kind option" where
  "inode_kind i = (if i_kind i = 1 then Some File else if i_kind i = 2 then Some Dir else None)"

section \<open>Directory entries\<close>

record dirent =
  d_ino :: u32
  d_name :: "u8 list"
  d_len :: u8

text \<open>The bytes of an entry that its checksum covers: all but the checksum itself.\<close>

definition dirent_summed :: "u8 list \<Rightarrow> u8 list" where
  "dirent_summed b = slice_at 0 4 b @ slice_at 8 56 b"

definition dirent_decode :: "u8 list \<Rightarrow> (fs_error, dirent option) result" where
  "dirent_decode b =
     (let ino = u32_at b 0 in
      if ino = 0 then Ok None
      else if u32_at b 4 \<noteq> crc32 (dirent_summed b) then Err (Corrupted ''crc de entrada de diretorio'')
      else let len = b ! 8 in
           if len = 0 \<or> unat len > NAME_MAX then Err (Corrupted ''nome de entrada'')
           else Ok (Some \<lparr>d_ino = ino, d_name = slice_at 9 NAME_MAX b, d_len = len\<rparr>))"

definition dirent_encode :: "u32 \<Rightarrow> u8 list \<Rightarrow> u8 list \<Rightarrow> u8 list" where
  "dirent_encode ino name b =
     (let b = copy_at 0 (replicate DIRENT_SIZE 0) b;
          b = put32 b 0 ino;
          b = b[8 := word_of_nat (length name)];
          b = copy_at 9 name b
      in put32 b 4 (crc32 (dirent_summed b)))"

definition dirent_name :: "dirent \<Rightarrow> u8 list" where
  "dirent_name e = take (unat (d_len e)) (d_name e)"

definition valid_name :: "u8 list \<Rightarrow> (fs_error, unit) result" where
  "valid_name name =
     (if name = [] \<or> length name > NAME_MAX \<or> 0x2f \<in> set name \<or> name = [0x2e] \<or> name = [0x2e, 0x2e]
      then Err InvalidName else Ok ())"

section \<open>Round trips\<close>

lemma length_put32 [simp]: "off + 4 \<le> length b \<Longrightarrow> length (put32 b off v) = length b"
  and length_put64 [simp]: "off + 8 \<le> length b \<Longrightarrow> length (put64 b off w) = length b"
  by (simp_all add: put32_def put64_def)

lemma u32_at_put32 [simp]: "off + 4 \<le> length b \<Longrightarrow> u32_at (put32 b off v) off = v"
  and u64_at_put64 [simp]: "off + 8 \<le> length b \<Longrightarrow> u64_at (put64 b off w) off = w"
  by (simp_all add: u32_at_def u64_at_def put32_def put64_def slice_copy_same)

lemma slice_put32 [simp]: "off + 4 \<le> length b \<Longrightarrow> p + n \<le> off \<or> off + 4 \<le> p \<Longrightarrow> slice_at p n (put32 b off v) = slice_at p n b"
  and slice_put64 [simp]: "off + 8 \<le> length b \<Longrightarrow> p + n \<le> off \<or> off + 8 \<le> p \<Longrightarrow> slice_at p n (put64 b off w) = slice_at p n b"
  by (simp_all add: put32_def put64_def slice_copy_other)

lemma u32_at_slice: "slice_at p 4 b = slice_at p 4 c \<Longrightarrow> u32_at b p = u32_at c p"
  and u64_at_slice: "slice_at p 8 b = slice_at p 8 c \<Longrightarrow> u64_at b p = u64_at c p"
  by (simp_all add: u32_at_def u64_at_def)

lemma u32_at_put_other [simp]:
  "off + 4 \<le> length b \<Longrightarrow> p + 4 \<le> off \<or> off + 4 \<le> p \<Longrightarrow> u32_at (put32 b off v) p = u32_at b p"
  "off + 8 \<le> length b \<Longrightarrow> p + 4 \<le> off \<or> off + 8 \<le> p \<Longrightarrow> u32_at (put64 b off w) p = u32_at b p"
  by (rule u32_at_slice; simp)+

lemma u64_at_put_other [simp]:
  "off + 4 \<le> length b \<Longrightarrow> p + 8 \<le> off \<or> off + 4 \<le> p \<Longrightarrow> u64_at (put32 b off v) p = u64_at b p"
  "off + 8 \<le> length b \<Longrightarrow> p + 8 \<le> off \<or> off + 8 \<le> p \<Longrightarrow> u64_at (put64 b off w) p = u64_at b p"
  by (rule u64_at_slice; simp)+

lemma length_put64s [simp]: "off + 8 * length ds \<le> length b \<Longrightarrow> length (put64s b off ds) = length b"
  by (induction ds arbitrary: b off) simp_all

lemma slice_put64s [simp]:
  "off + 8 * length ds \<le> length b \<Longrightarrow> p + n \<le> off \<or> off + 8 * length ds \<le> p \<Longrightarrow> slice_at p n (put64s b off ds) = slice_at p n b"
proof (induction ds arbitrary: b off)
  case (Cons d ds)
  then show ?case using Cons.IH [of "off + 8" "put64 b off d"] by auto
qed simp

lemma u64_at_put64s: "off + 8 * length ds \<le> length b \<Longrightarrow> i < length ds \<Longrightarrow> u64_at (put64s b off ds) (off + 8 * i) = ds ! i"
proof (induction ds arbitrary: b off i)
  case (Cons d ds)
  show ?case
  proof (cases i)
    case 0
    then show ?thesis using Cons.prems by (simp add: u64_at_slice [OF slice_put64s])
  next
    case (Suc j)
    then show ?thesis using Cons.IH [of "off + 8" "put64 b off d" j] Cons.prems by (simp add: algebra_simps)
  qed
qed simp

lemma slice_copy0: "n \<le> length bs \<Longrightarrow> length bs \<le> length out \<Longrightarrow> slice_at 0 n (copy_at 0 bs out) = take n bs"
  by (simp add: slice_at_def copy_at_def)

text \<open>A run of writes at growing offsets: each one can be read back.\<close>

definition apply_writes :: "(nat \<times> u8 list) list \<Rightarrow> u8 list \<Rightarrow> u8 list" where
  "apply_writes ws b = fold (\<lambda>(off, bs). copy_at off bs) ws b"

definition writes_ok :: "nat \<Rightarrow> (nat \<times> u8 list) list \<Rightarrow> bool" where
  "writes_ok n ws \<longleftrightarrow> list_all (\<lambda>(off, bs). off + length bs \<le> n) ws \<and> sorted_wrt (\<lambda>(p, bs) (q, cs). p + length bs \<le> q) ws"

lemma length_apply_writes: "writes_ok (length b) ws \<Longrightarrow> length (apply_writes ws b) = length b"
  by (induction ws arbitrary: b) (auto simp: apply_writes_def writes_ok_def)

lemma apply_writes_below:
  "writes_ok (length b) ws \<Longrightarrow> list_all (\<lambda>(q, cs). p + n \<le> q) ws \<Longrightarrow> slice_at p n (apply_writes ws b) = slice_at p n b"
  by (induction ws arbitrary: b) (auto simp: apply_writes_def writes_ok_def slice_copy_other)

lemma slice_apply_writes:
  "writes_ok (length b) ws \<Longrightarrow> (off, bs) \<in> set ws \<Longrightarrow> n = length bs \<Longrightarrow> slice_at off n (apply_writes ws b) = bs"
proof (induction ws arbitrary: b)
  case (Cons w ws)
  obtain p cs where w: "w = (p, cs)" by force
  have ok: "writes_ok (length (copy_at p cs b)) ws" using Cons.prems(1) w by (simp add: writes_ok_def)
  have step: "apply_writes (w # ws) b = apply_writes ws (copy_at p cs b)" by (simp add: apply_writes_def w)
  show ?case
  proof (cases "(off, bs) \<in> set ws")
    case True
    then show ?thesis using Cons.IH [OF ok True Cons.prems(3)] step by simp
  next
    case False
    then have "p = off" "cs = bs" using Cons.prems(2) w by auto
    moreover have "list_all (\<lambda>(q, cs). off + length bs \<le> q) ws" using Cons.prems(1) w \<open>p = off\<close> \<open>cs = bs\<close>
      by (auto simp: writes_ok_def list_all_iff)
    ultimately show ?thesis using apply_writes_below [OF ok, of off n] Cons.prems step w by (simp add: writes_ok_def slice_copy_same)
  qed
qed simp

definition superblock_writes :: "superblock \<Rightarrow> (nat \<times> u8 list) list" where
  "superblock_writes sb = [(0, NEXOFS_MAGIC), (8, to_le 4 VERSION), (12, to_le 4 (word_of_nat BLOCK :: u32)),
     (16, to_le 8 (total_blocks sb)), (24, to_le 8 (bitmap_start sb)), (32, to_le 8 (bitmap_blocks sb)),
     (40, to_le 8 (inode_start sb)), (48, to_le 8 (inode_blocks sb)), (56, to_le 8 (data_start sb)),
     (64, to_le 4 (inode_count sb)), (72, to_le 8 (sb_generation sb))]"

lemma superblock_encode_writes:
  "superblock_encode sb = (let b = apply_writes (superblock_writes sb) (replicate BLOCK 0) in put32 b 80 (crc32 (slice_at 0 80 b)))"
  by (simp only: superblock_encode_def superblock_writes_def apply_writes_def put32_def put64_def Let_def
      fold_simps(1) fold_Cons comp_def id_apply prod.case)

lemma superblock_writes_ok: "writes_ok BLOCK (superblock_writes sb)"
  by (simp add: writes_ok_def superblock_writes_def NEXOFS_MAGIC_def)

lemma superblock_decode_sealed:
  assumes "length b = BLOCK" "c = crc32 (slice_at 0 80 b)"
  shows "superblock_decode (put32 b 80 c) =
    (if slice_at 0 8 b = NEXOFS_MAGIC \<and> u32_at b 8 = VERSION \<and> unat (u32_at b 12) = BLOCK
     then let sb = \<lparr>total_blocks = u64_at b 16, bitmap_start = u64_at b 24, bitmap_blocks = u64_at b 32,
                     inode_start = u64_at b 40, inode_blocks = u64_at b 48, data_start = u64_at b 56,
                     inode_count = u32_at b 64, sb_generation = u64_at b 72\<rparr> in
           if \<not> geometry sb then Err (Corrupted ''geometria do superbloco'') else Ok sb
     else superblock_decode (put32 b 80 c))"
  using assms by (simp add: superblock_decode_def)

lemma length_superblock_encode [simp]: "length (superblock_encode sb) = BLOCK"
  using superblock_writes_ok [of sb] by (simp add: superblock_encode_writes Let_def length_apply_writes)

lemma superblock_roundtrip:
  "superblock_decode (superblock_encode sb) = (if geometry sb then Ok sb else Err (Corrupted ''geometria do superbloco''))"
proof -
  define b where "b = apply_writes (superblock_writes sb) (replicate BLOCK 0)"
  have enc: "superblock_encode sb = put32 b 80 (crc32 (slice_at 0 80 b))" by (simp add: superblock_encode_writes Let_def b_def)
  have len: "length b = BLOCK" using superblock_writes_ok by (simp add: b_def length_apply_writes)
  have at: "slice_at off n b = bs" if "(off, bs) \<in> set (superblock_writes sb)" "n = length bs" for off n bs
    unfolding b_def using slice_apply_writes [of "replicate BLOCK 0"] superblock_writes_ok that by simp
  have eta: "\<lparr>total_blocks = total_blocks sb, bitmap_start = bitmap_start sb, bitmap_blocks = bitmap_blocks sb,
    inode_start = inode_start sb, inode_blocks = inode_blocks sb, data_start = data_start sb, inode_count = inode_count sb,
    sb_generation = sb_generation sb\<rparr> = sb" by simp
  have at32: "u32_at b off = v" if "(off, to_le 4 v) \<in> set (superblock_writes sb)" for off v using at [OF that] by (simp add: u32_at_def)
  have at64: "u64_at b off = v" if "(off, to_le 8 v) \<in> set (superblock_writes sb)" for off v using at [OF that] by (simp add: u64_at_def)
  have "slice_at 0 8 b = NEXOFS_MAGIC" by (rule at) (simp_all add: superblock_writes_def NEXOFS_MAGIC_def)
  moreover have "u32_at b 8 = VERSION" "u32_at b 12 = word_of_nat BLOCK" "u32_at b 64 = inode_count sb"
    by (rule at32; simp add: superblock_writes_def)+
  moreover have "u64_at b 16 = total_blocks sb" "u64_at b 24 = bitmap_start sb" "u64_at b 32 = bitmap_blocks sb"
    "u64_at b 40 = inode_start sb" "u64_at b 48 = inode_blocks sb" "u64_at b 56 = data_start sb" "u64_at b 72 = sb_generation sb"
    by (rule at64; simp add: superblock_writes_def)+
  ultimately show ?thesis
    using superblock_decode_sealed [OF len refl] by (simp add: enc eta)
qed

definition inode_wf :: "inode \<Rightarrow> bool" where
  "inode_wf i \<longleftrightarrow> length (i_direct i) = NDIRECT \<and> (i_kind i = 1 \<or> i_kind i = 2)"

lemma put64s_copy: "off + 8 * length ds \<le> length b \<Longrightarrow> put64s b off ds = copy_at off (concat (map (to_le 8) ds)) b"
proof (induction ds arbitrary: b off)
  case Nil
  then show ?case by (simp add: copy_at_def)
next
  case (Cons d ds)
  have "length (concat (map (to_le 8) ds)) = 8 * length ds" by (induction ds) simp_all
  then show ?case using Cons by (simp add: put64_def copy_at_def add.commute add.left_commute add.assoc)
qed

lemma u64_at_concat: "i < length ds \<Longrightarrow> u64_at (concat (map (to_le 8) ds)) (8 * i) = ds ! i"
proof (induction ds arbitrary: i)
  case (Cons d ds)
  then show ?case by (cases i) (simp_all add: u64_at_def slice_at_def)
qed simp

lemma length_concat_to_le: "length (concat (map (to_le n) ds)) = n * length ds"
  by (induction ds) simp_all

definition inode_writes :: "inode \<Rightarrow> (nat \<times> u8 list) list" where
  "inode_writes i = [(0, to_le 4 (i_kind i)), (8, to_le 8 (i_size i)), (16, concat (map (to_le 8) (i_direct i))),
     (112, to_le 8 (i_indirect i)), (120, to_le 4 (i_generation i))]"

lemma inode_writes_ok: "length (i_direct i) = NDIRECT \<Longrightarrow> INODE_SIZE \<le> n \<Longrightarrow> writes_ok n (inode_writes i)"
  by (simp add: writes_ok_def inode_writes_def length_concat_to_le)

lemma inode_encode_writes:
  assumes "length (i_direct i) = NDIRECT" "INODE_SIZE \<le> length b" "i_kind i \<noteq> 0"
  shows "inode_encode i b =
    (let c = apply_writes (inode_writes i) (copy_at 0 (replicate INODE_SIZE 0) b) in put32 c 124 (crc32 (slice_at 0 124 c)))"
proof -
  let ?c = "put64 (put32 (copy_at 0 (replicate INODE_SIZE 0) b) 0 (i_kind i)) 8 (i_size i)"
  have "put64s ?c 16 (i_direct i) = copy_at 16 (concat (map (to_le 8) (i_direct i))) ?c"
    using assms by (intro put64s_copy) simp
  then show ?thesis using assms(3) by (simp add: inode_encode_def inode_writes_def apply_writes_def put32_def put64_def Let_def)
qed

lemma length_inode_encode [simp]: "length (i_direct i) = NDIRECT \<Longrightarrow> INODE_SIZE \<le> length b \<Longrightarrow> length (inode_encode i b) = length b"
proof (cases "i_kind i = 0")
  case False
  assume *: "length (i_direct i) = NDIRECT" "INODE_SIZE \<le> length b"
  show ?thesis using inode_writes_ok [OF *] * by (simp add: inode_encode_writes [OF * False] Let_def length_apply_writes)
qed (simp add: inode_encode_def)

lemma inode_decode_sealed:
  assumes "INODE_SIZE \<le> length b" "c = crc32 (slice_at 0 124 b)" "u32_at b 0 = 1 \<or> u32_at b 0 = 2"
  shows "inode_decode (put32 b 124 c) = Ok \<lparr>i_kind = u32_at b 0, i_size = u64_at b 8,
    i_direct = map (\<lambda>i. u64_at b (16 + 8 * i)) [0..<NDIRECT], i_indirect = u64_at b 112, i_generation = u32_at b 120\<rparr>"
proof -
  have "map (\<lambda>i. u64_at (put32 b 124 c) (16 + 8 * i)) [0..<NDIRECT] = map (\<lambda>i. u64_at b (16 + 8 * i)) [0..<NDIRECT]"
    using assms(1) by (intro map_cong refl) simp
  then show ?thesis using assms by (auto simp: inode_decode_def Let_def)
qed

lemma inode_roundtrip:
  assumes "INODE_SIZE \<le> length b" "inode_wf i"
  shows "inode_decode (inode_encode i b) = Ok i"
proof -
  have wf: "length (i_direct i) = NDIRECT" "i_kind i = 1 \<or> i_kind i = 2" using assms(2) by (auto simp: inode_wf_def)
  define c where "c = apply_writes (inode_writes i) (copy_at 0 (replicate INODE_SIZE 0) b)"
  have "i_kind i \<noteq> 0" using wf(2) by auto
  then have enc: "inode_encode i b = put32 c 124 (crc32 (slice_at 0 124 c))"
    using inode_encode_writes [OF wf(1) assms(1)] by (simp add: Let_def c_def)
  have ok: "writes_ok (length (copy_at 0 (replicate INODE_SIZE 0) b)) (inode_writes i)" using inode_writes_ok [OF wf(1)] assms(1) by simp
  have len: "length c = length b" using length_apply_writes [OF ok] assms(1) by (simp add: c_def)
  have at: "slice_at off n c = bs" if "(off, bs) \<in> set (inode_writes i)" "n = length bs" for off n bs
    unfolding c_def using slice_apply_writes [OF ok that] .
  have "u32_at c 0 = i_kind i" "u32_at c 120 = i_generation i" "u64_at c 8 = i_size i" "u64_at c 112 = i_indirect i"
    using at [of 0 "to_le 4 (i_kind i)"] at [of 120 "to_le 4 (i_generation i)"] at [of 8 "to_le 8 (i_size i)"] at [of 112 "to_le 8 (i_indirect i)"]
    by (simp_all add: u32_at_def u64_at_def inode_writes_def)
  moreover have "map (\<lambda>k. u64_at c (16 + 8 * k)) [0..<NDIRECT] = i_direct i"
  proof (rule nth_equalityI)
    fix k assume "k < length (map (\<lambda>k. u64_at c (16 + 8 * k)) [0..<NDIRECT])"
    then have k: "k < 12" by simp
    have "slice_at 16 96 c = concat (map (to_le 8) (i_direct i))"
      by (rule at) (simp_all add: inode_writes_def length_concat_to_le wf(1))
    moreover have "slice_at (16 + 8 * k) 8 c = slice_at (8 * k) 8 (slice_at 16 96 c)" using k by (simp add: slice_at_def drop_take min_def add.commute)
    ultimately show "map (\<lambda>k. u64_at c (16 + 8 * k)) [0..<NDIRECT] ! k = i_direct i ! k"
      using k u64_at_concat [of k "i_direct i"] wf(1) by (simp add: u64_at_def)
  qed (simp add: wf(1))
  ultimately show ?thesis using inode_decode_sealed [of c, OF _ refl] len assms(1) wf
    by (simp add: enc)
qed

lemma inode_free_roundtrip: "INODE_SIZE \<le> length b \<Longrightarrow> i_kind i = 0 \<Longrightarrow> inode_decode (inode_encode i b) = Ok inode_free"
  by (simp add: inode_decode_def inode_encode_def u32_at_def slice_copy0 numeral_eq_Suc)

lemma inode_decode_wf: "inode_decode b = Ok i \<Longrightarrow> inode_wf i \<or> i = inode_free"
  by (auto simp: inode_decode_def Let_def inode_wf_def split: if_splits)

lemma dirent_roundtrip:
  assumes "length b = DIRENT_SIZE" "ino \<noteq> 0" "name \<noteq> []" "length name \<le> NAME_MAX"
  shows "\<exists>e. dirent_decode (dirent_encode ino name b) = Ok (Some e) \<and> d_ino e = ino \<and> dirent_name e = name"
proof -
  define c where "c = copy_at 9 name ((put32 (copy_at 0 (replicate DIRENT_SIZE 0) b) 0 ino)[8 := word_of_nat (length name)])"
  have len: "length c = 64" using assms by (simp add: c_def)
  have upd: "xs[8 := v] = copy_at 8 [v] xs" if "length xs = 64" for xs :: "u8 list" and v
    using that by (intro nth_equalityI) (auto simp: nth_copy_at nth_list_update)
  define ws where "ws = [(0 :: nat, to_le 4 ino), (8, [word_of_nat (length name)]), (9, name)]"
  have c: "c = apply_writes ws (copy_at 0 (replicate DIRENT_SIZE 0) b)" using assms(1)
    by (simp add: c_def apply_writes_def put32_def upd ws_def)
  have ok: "writes_ok (length (copy_at 0 (replicate DIRENT_SIZE 0) b)) ws" using assms by (simp add: writes_ok_def ws_def)
  have at: "slice_at off n c = bs" if "(off, bs) \<in> set ws" "n = length bs" for off n bs
    unfolding c using slice_apply_writes [OF ok that] .
  let ?e = "put32 c 4 (crc32 (dirent_summed c))"
  have enc: "dirent_encode ino name b = ?e" by (simp add: dirent_encode_def Let_def c_def)
  have "u32_at ?e 0 = ino" using at [of 0 "to_le 4 ino" 4] len by (simp add: u32_at_def ws_def)
  moreover have b8: "?e ! 8 = word_of_nat (length name)" 
  proof -
    have "slice_at 8 1 ?e = [word_of_nat (length name)]" using at [of 8 "[word_of_nat (length name)]" 1] len by (simp add: ws_def)
    then show ?thesis using len by (simp add: slice_at_def take_Suc_conv_app_nth numeral_eq_Suc split: list.splits)
  qed
  moreover have "dirent_summed ?e = dirent_summed c" using len by (simp add: dirent_summed_def)
  moreover have small: "unat (word_of_nat (length name) :: u8) = length name" using assms(4) by (simp add: unat_of_nat take_bit_nat_eq_self)
  moreover have "(word_of_nat (length name) :: u8) \<noteq> 0" using small assms(3) by (metis length_0_conv unat_0)
  moreover have "take (length name) (slice_at 9 NAME_MAX ?e) = name"
    using slice_put32 [of 4 c 9 "length name"] at [of 9 name "length name"] assms(4) len by (simp add: ws_def slice_at_def min_def)
  ultimately show ?thesis using assms len
    by (simp add: enc dirent_decode_def dirent_name_def)
qed

end
