(* ===== verification/Nexofs_Dev.thy ===== *)
theory Nexofs_Dev
  imports Nexofs_Format
begin

text \<open>
  Block devices (\<^verbatim>\<open>libraries/nexofs/src/lib.rs\<close>, trait \<^verbatim>\<open>BlockDevice\<close>) as records of operations, the contract that
  the file system relies on, and the device of the crash tests (\<^verbatim>\<open>libraries/nexofs/src/tests.rs\<close>, \<^verbatim>\<open>MemDisk\<close>), which
  fails from a given write on and may leave that write torn at a sector.
\<close>

section \<open>The trait\<close>

datatype io_error = IoError

record 'd block_dev =
  block_count :: "'d \<Rightarrow> u64"
  read_block :: "'d \<Rightarrow> u64 \<Rightarrow> (io_error, u8 list) result \<times> 'd"
  write_block :: "'d \<Rightarrow> u64 \<Rightarrow> u8 list \<Rightarrow> (io_error, unit) result \<times> 'd"
  flush :: "'d \<Rightarrow> (io_error, unit) result \<times> 'd"

text \<open>What a write that fails may leave: its first sectors, and the old contents after them.\<close>

definition torn :: "nat \<Rightarrow> u8 list \<Rightarrow> u8 list \<Rightarrow> u8 list" where
  "torn k buf old = take (512 * k) buf @ drop (512 * k) old"

lemma torn_simps [simp]: "torn 0 buf old = old" "length buf = BLOCK \<Longrightarrow> length old = BLOCK \<Longrightarrow> torn 4 buf old = buf"
  by (simp_all add: torn_def)

lemma length_torn [simp]: "length buf = BLOCK \<Longrightarrow> length old = BLOCK \<Longrightarrow> length (torn k buf old) = BLOCK"
  by (auto simp: torn_def)

text \<open>A record that lies within a sector is either written or not.\<close>

lemma slice_torn:
  assumes "length buf = BLOCK" "length old = BLOCK" "off + n \<le> BLOCK" "off + n \<le> 512 * Suc (off div 512)"
  shows "slice_at off n (torn k buf old) = slice_at off n buf \<or> slice_at off n (torn k buf old) = slice_at off n old"
proof -
  have "off + n \<le> 512 * k \<or> 512 * k \<le> off"
  proof (cases "k \<le> off div 512")
    case True
    then have "512 * k \<le> 512 * (off div 512)" by simp
    also have "\<dots> \<le> off" by simp
    finally show ?thesis ..
  next
    case False
    then have "512 * Suc (off div 512) \<le> 512 * k" by simp
    then show ?thesis using assms(4) by linarith
  qed
  then consider "off + n \<le> 512 * k" | "512 * k \<le> off" by blast
  then show ?thesis
  proof cases
    case 1
    then have "slice_at off n (torn k buf old) = slice_at off n buf" using assms(1-3)
      by (auto simp: slice_at_def torn_def drop_take min_def)
    then show ?thesis ..
  next
    case 2
    show ?thesis
    proof (cases "2048 \<le> 512 * k")
      case False
      then have "slice_at off n (torn k buf old) = slice_at off n old" using assms(1-3) 2 by (simp add: slice_at_def torn_def)
      then show ?thesis ..
    qed (use assms in \<open>simp add: torn_def\<close>)
  qed
qed

section \<open>The contract\<close>

text \<open>
  \<open>content\<close> is what the blocks hold and \<open>ready\<close> says that reads report it. Reads change nothing; a write that
  succeeds stores the block; one that fails leaves it torn at a sector, and the other blocks as they were.
\<close>

locale block_device =
  fixes D :: "'d block_dev" and ready :: "'d \<Rightarrow> bool" and content :: "'d \<Rightarrow> u64 \<Rightarrow> u8 list"
  assumes content_length: "ready d \<Longrightarrow> b < block_count D d \<Longrightarrow> length (content d b) = BLOCK"
    and read_law: "ready d \<Longrightarrow> b < block_count D d \<Longrightarrow> read_block D d b = (r, d') \<Longrightarrow>
      ready d' \<and> block_count D d' = block_count D d \<and> content d' = content d \<and> (\<forall>buf. r = Ok buf \<longrightarrow> buf = content d b)"
    and write_ok_law: "ready d \<Longrightarrow> b < block_count D d \<Longrightarrow> length buf = BLOCK \<Longrightarrow> write_block D d b buf = (Ok u, d') \<Longrightarrow>
      ready d' \<and> block_count D d' = block_count D d \<and> content d' = (content d)(b := buf)"
    and write_err_law: "ready d \<Longrightarrow> b < block_count D d \<Longrightarrow> length buf = BLOCK \<Longrightarrow> write_block D d b buf = (Err e, d') \<Longrightarrow>
      \<exists>k. content d' = (content d)(b := torn k buf (content d b))"

section \<open>The device of the crash tests\<close>

record mem_disk =
  disk_data :: "u8 list"
  disk_writes :: nat
  disk_cut :: "(nat \<times> nat) option"

definition mem_disk_new :: "nat \<Rightarrow> mem_disk" where
  "mem_disk_new blocks = \<lparr>disk_data = replicate (blocks * BLOCK) 0, disk_writes = 0, disk_cut = None\<rparr>"

definition mem_block_count :: "mem_disk \<Rightarrow> u64" where
  "mem_block_count d = word_of_nat (length (disk_data d) div BLOCK)"

definition mem_read_block :: "mem_disk \<Rightarrow> u64 \<Rightarrow> (io_error, u8 list) result \<times> mem_disk" where
  "mem_read_block d block =
     (let off = unat block * BLOCK in
      if off + BLOCK > length (disk_data d) then (Err IoError, d)
      else (Ok (slice_at off BLOCK (disk_data d)), d))"

definition mem_write_block :: "mem_disk \<Rightarrow> u64 \<Rightarrow> u8 list \<Rightarrow> (io_error, unit) result \<times> mem_disk" where
  "mem_write_block d block buf =
     (let off = unat block * BLOCK;
          store = (Ok (), d\<lparr>disk_writes := disk_writes d + 1, disk_data := copy_at off buf (disk_data d)\<rparr>) in
      if off + BLOCK > length (disk_data d) then (Err IoError, d)
      else (case disk_cut d of
              Some (cut_at, torn_sectors) \<Rightarrow>
                if disk_writes d > cut_at then (Err IoError, d)
                else if disk_writes d = cut_at
                then (Err IoError, d\<lparr>disk_data := copy_at off (take (torn_sectors * 512) buf) (disk_data d),
                                    disk_writes := disk_writes d + 1\<rparr>)
                else store
            | None \<Rightarrow> store))"

definition mem_dev :: "mem_disk block_dev" where
  "mem_dev = \<lparr>block_count = mem_block_count, read_block = mem_read_block, write_block = mem_write_block,
              flush = (\<lambda>d. (Ok (), d))\<rparr>"

definition mem_content :: "mem_disk \<Rightarrow> u64 \<Rightarrow> u8 list" where
  "mem_content d b = slice_at (unat b * BLOCK) BLOCK (disk_data d)"

definition mem_ready :: "mem_disk \<Rightarrow> bool" where
  "mem_ready d \<longleftrightarrow> length (disk_data d) div BLOCK < 2 ^ 64"

lemma mem_in_range:
  assumes "mem_ready d" "b < mem_block_count d"
  shows "unat b * BLOCK + BLOCK \<le> length (disk_data d)"
proof -
  have "unat b < unat (mem_block_count d)" using assms(2) by (simp add: word_less_nat_alt)
  also have "\<dots> = length (disk_data d) div BLOCK" using assms(1) by (simp add: mem_block_count_def mem_ready_def unat_of_nat take_bit_nat_eq_self)
  finally have "Suc (unat b) * BLOCK \<le> length (disk_data d)" by (simp add: less_eq_div_iff_mult_less_eq Suc_le_eq [symmetric])
  then show ?thesis by simp
qed

lemma mem_content_write:
  assumes "unat b * BLOCK + BLOCK \<le> length (disk_data d)" "length bs \<le> BLOCK"
  shows "mem_content (d\<lparr>disk_data := copy_at (unat b * BLOCK) bs (disk_data d)\<rparr>) =
    (mem_content d)(b := bs @ drop (length bs) (mem_content d b))"
proof
  fix c
  show "mem_content (d\<lparr>disk_data := copy_at (unat b * BLOCK) bs (disk_data d)\<rparr>) c = ((mem_content d)(b := bs @ drop (length bs) (mem_content d b))) c"
  proof (cases "c = b")
    case True
    then show ?thesis using assms
      by (simp add: mem_content_def slice_at_def copy_at_def drop_take add.commute)
  next
    case False
    then have "unat c \<noteq> unat b" by (simp add: word_unat_eq_iff)
    then have "unat c * BLOCK + BLOCK \<le> unat b * BLOCK \<or> unat b * BLOCK + length bs \<le> unat c * BLOCK"
      using assms(2) by (auto simp: neq_iff)
    then show ?thesis using False assms by (simp add: mem_content_def slice_copy_other)
  qed
qed

interpretation mem: block_device mem_dev mem_ready mem_content
proof (unfold_locales, goal_cases)
  case (1 d b)
  then show ?case using mem_in_range [of d b] by (simp add: mem_dev_def mem_content_def)
next
  case (2 d b r d')
  then show ?case using mem_in_range [of d b] by (auto simp: mem_dev_def mem_read_block_def mem_content_def Let_def split: if_splits)
next
  case (3 d b buf u d')
  then have r: "unat b * BLOCK + BLOCK \<le> length (disk_data d)" using mem_in_range [of d b] by (simp add: mem_dev_def)
  have "d' = d\<lparr>disk_writes := disk_writes d + 1, disk_data := copy_at (unat b * BLOCK) buf (disk_data d)\<rparr>"
    using 3 r by (auto simp: mem_dev_def mem_write_block_def Let_def split: if_splits option.splits)
  then show ?case using 3 r mem_content_write [OF r, of buf] by (simp add: mem_dev_def mem_ready_def mem_block_count_def mem_content_def fun_eq_iff)
next
  case (4 d b buf e d')
  then have r: "unat b * BLOCK + BLOCK \<le> length (disk_data d)" using mem_in_range [of d b] by (simp add: mem_dev_def)
  consider "d' = d" | k where "d' = d\<lparr>disk_data := copy_at (unat b * BLOCK) (take (k * 512) buf) (disk_data d), disk_writes := disk_writes d + 1\<rparr>"
    using 4 r by (auto simp: mem_dev_def mem_write_block_def Let_def split: if_splits option.splits)
  then show ?case
  proof cases
    case 1
    then show ?thesis by (intro exI [of _ 0]) simp
  next
    case (2 k)
    have "mem_content d' = (mem_content d)(b := torn k buf (mem_content d b))"
      using 2 4(3) mem_content_write [OF r, of "take (k * 512) buf"]
      by (auto simp: mem_content_def fun_eq_iff torn_def slice_at_def min_def mult.commute)
    then show ?thesis by blast
  qed
qed

end
