(* ===== verification/Nexofs_Core.thy ===== *)
theory Nexofs_Core
  imports Nexofs_Dev
begin

text \<open>
  A mounted volume (\<^verbatim>\<open>libraries/nexofs/src/lib.rs\<close>, \<^verbatim>\<open>Fs\<close>): its state, the block bitmap, the inode table and reading a
  file. An operation takes the volume and returns its result with the volume after it, also when it fails; \<open>fs_bind\<close> is
  the operator \<^verbatim>\<open>?\<close>. The buffer that \<open>fs_read\<close> fills is part of its result, so what it holds after an error is not
  modelled. Byte counts and indices are natural numbers: all are below \<open>MAX_FILE + BLOCK\<close>.
\<close>

section \<open>State and control flow\<close>

record 'd fs =
  fs_dev :: 'd
  fs_sb :: superblock
  fs_bitmap :: "u8 list"
  fs_repairs :: u32

type_synonym ('d, 'a) fsm = "'d fs \<Rightarrow> (fs_error, 'a) result \<times> 'd fs"

definition fs_return :: "'a \<Rightarrow> ('d, 'a) fsm" where
  "fs_return a s = (Ok a, s)"

definition fs_fail :: "fs_error \<Rightarrow> ('d, 'a) fsm" where
  "fs_fail e s = (Err e, s)"

definition fs_bind :: "('d, 'a) fsm \<Rightarrow> ('a \<Rightarrow> ('d, 'b) fsm) \<Rightarrow> ('d, 'b) fsm" where
  "fs_bind m f s = (case m s of (Inl e, s') \<Rightarrow> (Inl e, s') | (Inr a, s') \<Rightarrow> f a s')"

definition fs_lift :: "('d fs \<Rightarrow> (fs_error, 'a) result) \<Rightarrow> ('d, 'a) fsm" where
  "fs_lift f s = (f s, s)"

text \<open>A loop over a list whose body may fail.\<close>

fun fs_for :: "'a list \<Rightarrow> ('a \<Rightarrow> ('d, unit) fsm) \<Rightarrow> ('d, unit) fsm" where
  "fs_for [] f = fs_return ()"
| "fs_for (x # xs) f = fs_bind (f x) (\<lambda>_. fs_for xs f)"

lemma fs_simps [simp]:
  "fs_return a s = (Ok a, s)" "fs_fail e s = (Err e, s)" "fs_lift f s = (f s, s)"
  by (simp_all add: fs_return_def fs_fail_def fs_lift_def)

text \<open>Access to the device: an I/O error becomes \<open>Io\<close>.\<close>

definition dev_read :: "'d block_dev \<Rightarrow> u64 \<Rightarrow> ('d, u8 list) fsm" where
  "dev_read D b s =
     (case read_block D (fs_dev s) b of
        (Inl IoError, d) \<Rightarrow> (Err Io, s\<lparr>fs_dev := d\<rparr>)
      | (Inr buf, d) \<Rightarrow> (Ok buf, s\<lparr>fs_dev := d\<rparr>))"

definition dev_write :: "'d block_dev \<Rightarrow> u64 \<Rightarrow> u8 list \<Rightarrow> ('d, unit) fsm" where
  "dev_write D b buf s =
     (case write_block D (fs_dev s) b buf of
        (Inl IoError, d) \<Rightarrow> (Err Io, s\<lparr>fs_dev := d\<rparr>)
      | (Inr _, d) \<Rightarrow> (Ok (), s\<lparr>fs_dev := d\<rparr>))"

section \<open>Bitmap\<close>

definition fs_bit :: "'d fs \<Rightarrow> u64 \<Rightarrow> bool" where
  "fs_bit s b \<longleftrightarrow> (fs_bitmap s ! (unat b div 8)) AND push_bit (unat b mod 8) 1 \<noteq> 0"

definition fs_set_bit :: "u64 \<Rightarrow> bool \<Rightarrow> 'd fs \<Rightarrow> 'd fs" where
  "fs_set_bit b v s =
     (let i = unat b div 8; m = push_bit (unat b mod 8) 1; x = fs_bitmap s ! i in
      s\<lparr>fs_bitmap := (fs_bitmap s)[i := if v then x OR m else x AND NOT m]\<rparr>)"

definition alloc_block :: "('d, u64) fsm" where
  "alloc_block s =
     (case find (\<lambda>b. \<not> fs_bit s (word_of_nat b)) [unat (data_start (fs_sb s))..<unat (total_blocks (fs_sb s))] of
        Some b \<Rightarrow> (Ok (word_of_nat b), fs_set_bit (word_of_nat b) True s)
      | None \<Rightarrow> (Err NoSpace, s))"

definition free_block :: "u64 \<Rightarrow> 'd fs \<Rightarrow> 'd fs" where
  "free_block b s =
     (if b \<ge> data_start (fs_sb s) \<and> b < total_blocks (fs_sb s) then fs_set_bit b False s else s)"

definition write_bitmap :: "'d block_dev \<Rightarrow> ('d, unit) fsm" where
  "write_bitmap D s =
     fs_for [0..<unat (bitmap_blocks (fs_sb s))]
       (\<lambda>i. let start = i * BLOCK; stop = min (start + BLOCK) (length (fs_bitmap s));
                buf = copy_at 0 (slice_at start (stop - start) (fs_bitmap s)) (replicate BLOCK 0)
            in dev_write D (bitmap_start (fs_sb s) + word_of_nat i) buf) s"

fun read_bitmap_loop :: "'d block_dev \<Rightarrow> nat list \<Rightarrow> u8 list \<Rightarrow> ('d, u8 list) fsm" where
  "read_bitmap_loop D [] out s = (Ok out, s)"
| "read_bitmap_loop D (i # is) out s =
     fs_bind (dev_read D (bitmap_start (fs_sb s) + word_of_nat i))
       (\<lambda>buf. let start = i * BLOCK; stop = min (start + BLOCK) (length out) in
              read_bitmap_loop D is (copy_at start (slice_at 0 (stop - start) buf) out)) s"

definition read_bitmap :: "'d block_dev \<Rightarrow> u8 list \<Rightarrow> ('d, u8 list) fsm" where
  "read_bitmap D out s = read_bitmap_loop D [0..<unat (bitmap_blocks (fs_sb s))] out s"

record volume_info =
  info_total_blocks :: u64
  info_free_blocks :: nat
  info_inode_count :: u32
  info_repairs :: u32
  info_generation :: u64

definition fs_info :: "'d fs \<Rightarrow> volume_info" where
  "fs_info s =
     \<lparr>info_total_blocks = total_blocks (fs_sb s),
      info_free_blocks = length (filter (\<lambda>b. \<not> fs_bit s (word_of_nat b)) [unat (data_start (fs_sb s))..<unat (total_blocks (fs_sb s))]),
      info_inode_count = inode_count (fs_sb s), info_repairs = fs_repairs s, info_generation = sb_generation (fs_sb s)\<rparr>"

section \<open>Blocks and inodes\<close>

definition read_data_block :: "'d block_dev \<Rightarrow> u64 \<Rightarrow> ('d, u8 list) fsm" where
  "read_data_block D b s =
     (if b < data_start (fs_sb s) \<or> b \<ge> total_blocks (fs_sb s)
      then (Err (Corrupted ''ponteiro de bloco fora da area de dados''), s)
      else dev_read D b s)"

definition inode_pos :: "superblock \<Rightarrow> u32 \<Rightarrow> (fs_error, u64 \<times> nat) result" where
  "inode_pos sb ino =
     (if ino = 0 \<or> ino \<ge> inode_count sb then Err (Corrupted ''numero de inode'')
      else let off = unat ino * INODE_SIZE in Ok (inode_start sb + word_of_nat (off div BLOCK), off mod BLOCK))"

definition read_inode :: "'d block_dev \<Rightarrow> u32 \<Rightarrow> ('d, inode) fsm" where
  "read_inode D ino =
     fs_bind (fs_lift (\<lambda>s. inode_pos (fs_sb s) ino)) (\<lambda>(blk, off).
     fs_bind (dev_read D blk) (\<lambda>buf.
     fs_lift (\<lambda>_. inode_decode (slice_at off INODE_SIZE buf))))"

definition write_inode :: "'d block_dev \<Rightarrow> u32 \<Rightarrow> inode \<Rightarrow> ('d, unit) fsm" where
  "write_inode D ino i =
     fs_bind (fs_lift (\<lambda>s. inode_pos (fs_sb s) ino)) (\<lambda>(blk, off).
     fs_bind (dev_read D blk) (\<lambda>buf.
     dev_write D blk (copy_at off (inode_encode i (slice_at off INODE_SIZE buf)) buf)))"

text \<open>The first free inode of a block of the table, after the root.\<close>

definition free_inode_in :: "superblock \<Rightarrow> nat \<Rightarrow> u8 list \<Rightarrow> u32 option" where
  "free_inode_in sb blk buf =
     map_option (\<lambda>i. word_of_nat (blk * (BLOCK div INODE_SIZE) + i))
       (find (\<lambda>i. let ino = word_of_nat (blk * (BLOCK div INODE_SIZE) + i) :: u32 in
                  \<not> (ino \<le> ROOT_INO \<or> ino \<ge> inode_count sb) \<and> u32_at buf (i * INODE_SIZE) = 0)
         [0..<BLOCK div INODE_SIZE])"

fun alloc_inode_loop :: "'d block_dev \<Rightarrow> nat list \<Rightarrow> ('d, u32) fsm" where
  "alloc_inode_loop D [] s = (Err NoSpace, s)"
| "alloc_inode_loop D (blk # blks) s =
     fs_bind (dev_read D (inode_start (fs_sb s) + word_of_nat blk)) (\<lambda>buf s.
       case free_inode_in (fs_sb s) blk buf of
         Some ino \<Rightarrow> (Ok ino, s)
       | None \<Rightarrow> alloc_inode_loop D blks s) s"

definition alloc_inode :: "'d block_dev \<Rightarrow> ('d, u32) fsm" where
  "alloc_inode D s = alloc_inode_loop D [0..<unat (inode_blocks (fs_sb s))] s"

text \<open>The block that holds block \<open>idx\<close> of the file; 0 is a hole.\<close>

definition block_ptr :: "'d block_dev \<Rightarrow> inode \<Rightarrow> nat \<Rightarrow> ('d, u64) fsm" where
  "block_ptr D i idx =
     (if idx < NDIRECT then fs_return (i_direct i ! idx)
      else let k = idx - NDIRECT in
           if k \<ge> PTRS_PER_BLOCK then fs_fail TooBig
           else if i_indirect i = 0 then fs_return 0
           else fs_bind (read_data_block D (i_indirect i)) (\<lambda>buf. fs_return (u64_at buf (k * 8))))"

section \<open>Reading\<close>

function read_loop :: "'d block_dev \<Rightarrow> inode \<Rightarrow> nat \<Rightarrow> nat \<Rightarrow> nat \<Rightarrow> u8 list \<Rightarrow> ('d, u8 list) fsm" where
  "read_loop D i offset n k buf s =
     (if k < n then
        let pos = offset + k; idx = pos div BLOCK; in_off = pos mod BLOCK; m = min (BLOCK - in_off) (n - k) in
        (case block_ptr D i idx s of
           (Inl e, s1) \<Rightarrow> (Inl e, s1)
         | (Inr ptr, s1) \<Rightarrow>
             if ptr = 0 then read_loop D i offset n (k + m) (copy_at k (replicate m 0) buf) s1
             else (case read_data_block D ptr s1 of
                     (Inl e, s2) \<Rightarrow> (Inl e, s2)
                   | (Inr blk, s2) \<Rightarrow> read_loop D i offset n (k + m) (copy_at k (slice_at in_off m blk) buf) s2))
      else (Ok buf, s))"
  by pat_completeness auto
termination
  by (relation "measure (\<lambda>(D, i, offset, n, k, buf, s). n - k)") auto

declare read_loop.simps [simp del]

definition fs_read :: "'d block_dev \<Rightarrow> u32 \<Rightarrow> u64 \<Rightarrow> u8 list \<Rightarrow> ('d, nat \<times> u8 list) fsm" where
  "fs_read D ino offset buf =
     fs_bind (read_inode D ino) (\<lambda>i.
       if i_kind i = 0 then fs_fail InvalidArgs
       else if offset \<ge> i_size i then fs_return (0, buf)
       else let n = min (length buf) (unat (i_size i - offset)) in
            fs_bind (read_loop D i (unat offset) n 0 buf) (\<lambda>buf. fs_return (n, buf)))"

section \<open>Rules\<close>

lemma fs_bind_cases:
  assumes "fs_bind m f s = (r, s')"
  obtains (err) e where "m s = (Err e, s')" "r = Err e" | (ok) a s1 where "m s = (Ok a, s1)" "f a s1 = (r, s')"
  using assms by (auto simp: fs_bind_def split: prod.splits sum.splits)

definition in_data :: "superblock \<Rightarrow> u64 \<Rightarrow> bool" where
  "in_data sb b \<longleftrightarrow> data_start sb \<le> b \<and> b < total_blocks sb"

text \<open>The volume can be used: its geometry is right and it lies on a device that answers.\<close>

definition volume_ok :: "'d block_dev \<Rightarrow> ('d \<Rightarrow> bool) \<Rightarrow> 'd fs \<Rightarrow> bool" where
  [nexo_inv]: "volume_ok D ready s \<longleftrightarrow>
     ready (fs_dev s) \<and> geometry (fs_sb s) \<and> total_blocks (fs_sb s) \<le> block_count D (fs_dev s) \<and>
     length (fs_bitmap s) = MAX_BLOCKS div 8"

definition same_meta :: "'d fs \<Rightarrow> 'd fs \<Rightarrow> bool" where
  "same_meta s s' \<longleftrightarrow> fs_sb s' = fs_sb s \<and> fs_bitmap s' = fs_bitmap s \<and> fs_repairs s' = fs_repairs s"

lemma same_meta_refl [simp]: "same_meta s s"
  and same_meta_trans: "same_meta s s1 \<Longrightarrow> same_meta s1 s2 \<Longrightarrow> same_meta s s2"
  and same_meta_dev [simp]: "same_meta s (s\<lparr>fs_dev := d\<rparr>)"
  by (simp_all add: same_meta_def)

lemma geometry_bounds:
  assumes "geometry sb"
  shows "data_start sb < total_blocks sb" "unat (total_blocks sb) \<le> 65536" "inode_start sb < data_start sb" "0 < inode_start sb"
    "unat (inode_start sb) = Suc (unat (bitmap_blocks sb))" "unat (data_start sb) = unat (inode_start sb) + unat (inode_blocks sb)"
proof -
  note g = assms [unfolded geometry_def]
  have bb: "unat (bitmap_blocks sb) \<le> 4" using g by (auto simp: div_ceil_def)
  have ib: "unat (inode_blocks sb) \<le> 2 ^ 32 div 16 + 1"
  proof -
    have "unat (inode_count sb) < 2 ^ 32" using unsigned_less [of "inode_count sb"] by simp
    then have "div_ceil (unat (inode_count sb) * 128) 2048 \<le> 2 ^ 32 div 16 + 1" by (simp add: div_ceil_le_iff)
    then show ?thesis using g by simp
  qed
  have ist: "unat (inode_start sb) = Suc (unat (bitmap_blocks sb))" using g bb by (simp add: unat_add_no_overflow)
  then show "unat (inode_start sb) = Suc (unat (bitmap_blocks sb))" .
  show ds: "unat (data_start sb) = unat (inode_start sb) + unat (inode_blocks sb)" using g ist bb ib by (simp add: unat_add_no_overflow)
  show "data_start sb < total_blocks sb" "unat (total_blocks sb) \<le> 65536" using g by auto
  show "inode_start sb < data_start sb" using g ds by (simp add: word_less_nat_alt word_le_nat_alt)
  show "0 < inode_start sb" using ist by (simp add: word_less_nat_alt)
qed

subsection \<open>Bitmap\<close>

lemma fs_bit_bm: "fs_bit s b \<longleftrightarrow> bm_bit (fs_bitmap s) (unat b)"
  by (simp add: fs_bit_def bm_bit_def bit_iff_and_push_bit_not_eq_0)

lemma set_bit_fields [simp]:
  "fs_dev (fs_set_bit b v s) = fs_dev s" "fs_sb (fs_set_bit b v s) = fs_sb s" "fs_repairs (fs_set_bit b v s) = fs_repairs s"
  "length (fs_bitmap (fs_set_bit b v s)) = length (fs_bitmap s)"
  by (simp_all add: fs_set_bit_def Let_def)

lemma fs_bit_set:
  assumes "unat b div 8 < length (fs_bitmap s)"
  shows "fs_bit (fs_set_bit b v s) c \<longleftrightarrow> (if c = b then v else fs_bit s c)"
  using assms bm_bit_or [of "unat b" "fs_bitmap s" "unat c"] bm_bit_and_not [of "unat b" "fs_bitmap s" "unat c"]
  by (auto simp: fs_bit_bm fs_set_bit_def Let_def word_unat_eq_iff)

lemma volume_ok_set_bit [simp]: "volume_ok D ready (fs_set_bit b v s) = volume_ok D ready s"
  by (simp add: volume_ok_def)

lemma free_block_fields [simp]:
  "fs_dev (free_block b s) = fs_dev s" "fs_sb (free_block b s) = fs_sb s" "volume_ok D ready (free_block b s) = volume_ok D ready s"
  by (simp_all add: free_block_def)

lemma in_data_index: "volume_ok D ready s \<Longrightarrow> in_data (fs_sb s) b \<Longrightarrow> unat b div 8 < length (fs_bitmap s)"
  using geometry_bounds [of "fs_sb s"] by (auto simp: volume_ok_def in_data_def word_less_nat_alt)

lemma fs_bit_free_block:
  assumes "volume_ok D ready s"
  shows "fs_bit (free_block b s) c \<longleftrightarrow> fs_bit s c \<and> \<not> (c = b \<and> in_data (fs_sb s) b)"
proof (cases "in_data (fs_sb s) b")
  case True
  then show ?thesis using fs_bit_set [OF in_data_index [OF assms True]] by (simp add: free_block_def in_data_def)
next
  case False
  then show ?thesis by (auto simp: free_block_def in_data_def)
qed

lemma find_upt_SomeD: "find P [a..<b] = Some x \<Longrightarrow> a \<le> x \<and> x < b \<and> P x \<and> (\<forall>y. a \<le> y \<and> y < x \<longrightarrow> \<not> P y)"
proof -
  assume "find P [a..<b] = Some x"
  then obtain i where i: "i < b - a" "P (a + i)" "x = a + i" "\<forall>j<i. \<not> P ([a..<b] ! j)" by (auto simp: find_Some_iff)
  have "\<not> P y" if "a \<le> y" "y < x" for y using i(4) [rule_format, of "y - a"] that i(1,3) by simp
  then show ?thesis using i by auto
qed

lemma in_data_of_nat:
  assumes "geometry sb" "unat (data_start sb) \<le> x" "x < unat (total_blocks sb)"
  shows "in_data sb (word_of_nat x)" "unat (word_of_nat x :: u64) = x"
proof -
  show u: "unat (word_of_nat x :: u64) = x" using assms geometry_bounds(2) [OF assms(1)] by (intro unat_word_of_nat_64) simp
  show "in_data sb (word_of_nat x)" using assms u by (simp add: in_data_def word_le_nat_alt word_less_nat_alt)
qed

text \<open>
  The allocator takes a free block of the data area and marks it, and fails only when all are marked.
\<close>

lemma alloc_block_cases:
  assumes "volume_ok D ready s" "alloc_block s = (r, s')"
  obtains (full) "r = Err NoSpace" "s' = s" "\<forall>b. in_data (fs_sb s) b \<longrightarrow> fs_bit s b"
  | (ok) b where "r = Ok b" "in_data (fs_sb s) b" "\<not> fs_bit s b" "s' = fs_set_bit b True s"
      "\<forall>c. fs_bit s' c \<longleftrightarrow> c = b \<or> fs_bit s c"
proof (cases "find (\<lambda>b. \<not> fs_bit s (word_of_nat b)) [unat (data_start (fs_sb s))..<unat (total_blocks (fs_sb s))]")
  case None
  have "fs_bit s b" if "in_data (fs_sb s) b" for b
    using that None [unfolded find_None_iff] by (auto simp: in_data_def word_le_nat_alt word_less_nat_alt dest!: bspec [of _ _ "unat b"])
  then show ?thesis using full None assms(2) by (simp add: alloc_block_def)
next
  case (Some x)
  have x: "in_data (fs_sb s) (word_of_nat x)" using in_data_of_nat assms(1) find_upt_SomeD [OF Some] by (simp add: volume_ok_def)
  show ?thesis
  proof (rule ok [of "word_of_nat x"])
    show "\<forall>c. fs_bit s' c \<longleftrightarrow> c = word_of_nat x \<or> fs_bit s c"
      using fs_bit_set [OF in_data_index [OF assms(1) x]] Some assms(2) by (auto simp: alloc_block_def split: if_splits)
  qed (use Some assms(2) x find_upt_SomeD [OF Some] in \<open>auto simp: alloc_block_def\<close>)
qed

subsection \<open>Operations that only read\<close>

text \<open>What the disk says, given what its blocks hold.\<close>

definition inode_in :: "(u64 \<Rightarrow> u8 list) \<Rightarrow> superblock \<Rightarrow> u32 \<Rightarrow> (fs_error, inode) result" where
  "inode_in c sb ino = try_bind (inode_pos sb ino) (\<lambda>(blk, off). inode_decode (slice_at off INODE_SIZE (c blk)))"

definition data_in :: "(u64 \<Rightarrow> u8 list) \<Rightarrow> superblock \<Rightarrow> u64 \<Rightarrow> (fs_error, u8 list) result" where
  "data_in c sb b = (if in_data sb b then Ok (c b) else Err (Corrupted ''ponteiro de bloco fora da area de dados''))"

definition ptr_in :: "(u64 \<Rightarrow> u8 list) \<Rightarrow> superblock \<Rightarrow> inode \<Rightarrow> nat \<Rightarrow> (fs_error, u64) result" where
  "ptr_in c sb i idx =
     (if idx < NDIRECT then Ok (i_direct i ! idx)
      else if idx - NDIRECT \<ge> PTRS_PER_BLOCK then Err TooBig
      else if i_indirect i = 0 then Ok 0
      else try_bind (data_in c sb (i_indirect i)) (\<lambda>buf. Ok (u64_at buf ((idx - NDIRECT) * 8))))"

text \<open>Block \<open>idx\<close> of a file: zeros for a hole.\<close>

definition file_block :: "(u64 \<Rightarrow> u8 list) \<Rightarrow> superblock \<Rightarrow> inode \<Rightarrow> nat \<Rightarrow> (fs_error, u8 list) result" where
  "file_block c sb i idx =
     try_bind (ptr_in c sb i idx) (\<lambda>p. if p = 0 then Ok (replicate BLOCK 0) else data_in c sb p)"

text \<open>
  An operation \<open>m\<close> that leaves the volume as it is; what it returns, if it does, is \<open>v\<close> of what the disk holds, and
  its errors are that of \<open>v\<close> or \<open>Io\<close>.
\<close>

definition reads_as :: "'d block_dev \<Rightarrow> ('d \<Rightarrow> bool) \<Rightarrow> ('d \<Rightarrow> u64 \<Rightarrow> u8 list) \<Rightarrow> ('d, 'a) fsm \<Rightarrow>
    ((u64 \<Rightarrow> u8 list) \<Rightarrow> superblock \<Rightarrow> (fs_error, 'a) result) \<Rightarrow> bool" where
  "reads_as D ready content m v \<longleftrightarrow>
     (\<forall>s r s'. volume_ok D ready s \<longrightarrow> m s = (r, s') \<longrightarrow>
        volume_ok D ready s' \<and> same_meta s s' \<and> content (fs_dev s') = content (fs_dev s) \<and>
        (r = Err Io \<or> r = v (content (fs_dev s)) (fs_sb s)))"

lemma reads_asD:
  assumes "reads_as D ready content m v" "volume_ok D ready s" "m s = (r, s')"
  shows "volume_ok D ready s'" "same_meta s s'" "content (fs_dev s') = content (fs_dev s)"
    "r = Err Io \<or> r = v (content (fs_dev s)) (fs_sb s)"
  using assms unfolding reads_as_def by blast+

lemma reads_as_bind:
  assumes "reads_as D ready content m v" "\<And>a. reads_as D ready content (f a) (w a)"
  shows "reads_as D ready content (fs_bind m f) (\<lambda>c sb. try_bind (v c sb) (\<lambda>a. w a c sb))"
  unfolding reads_as_def
proof (intro allI impI)
  fix s r s' assume s: "volume_ok D ready s" and run: "fs_bind m f s = (r, s')"
  from run show "volume_ok D ready s' \<and> same_meta s s' \<and> content (fs_dev s') = content (fs_dev s) \<and>
    (r = Err Io \<or> r = try_bind (v (content (fs_dev s)) (fs_sb s)) (\<lambda>a. w a (content (fs_dev s)) (fs_sb s)))"
  proof (cases rule: fs_bind_cases)
    case (err e)
    then show ?thesis using reads_asD [OF assms(1) s err(1)] by (auto simp: try_bind_def split: sum.splits)
  next
    case (ok a s1)
    note one = reads_asD [OF assms(1) s ok(1)]
    note two = reads_asD [OF assms(2) one(1) ok(2)]
    then show ?thesis using one same_meta_trans [OF one(2) two(2)] by (auto simp: same_meta_def try_bind_def split: sum.splits)
  qed
qed

lemma reads_as_lift: "reads_as D ready content (fs_lift (\<lambda>s. f (fs_sb s))) (\<lambda>c sb. f sb)"
  by (simp add: reads_as_def)

lemma reads_as_return: "reads_as D ready content (fs_return a) (\<lambda>c sb. Ok a)"
  and reads_as_fail: "reads_as D ready content (fs_fail e) (\<lambda>c sb. Err e)"
  by (simp_all add: reads_as_def)

context block_device
begin

lemma dev_read_spec:
  assumes "volume_ok D ready s" "b < total_blocks (fs_sb s)" "dev_read D b s = (r, s')"
  shows "volume_ok D ready s' \<and> same_meta s s' \<and> content (fs_dev s') = content (fs_dev s) \<and> (r = Err Io \<or> r = Ok (content (fs_dev s) b))"
proof -
  obtain q d where q: "read_block D (fs_dev s) b = (q, d)" by force
  have b: "b < block_count D (fs_dev s)" using assms(1,2) by (auto simp: volume_ok_def)
  have law: "ready d \<and> block_count D d = block_count D (fs_dev s) \<and> content d = content (fs_dev s) \<and> (\<forall>buf. q = Ok buf \<longrightarrow> buf = content (fs_dev s) b)"
    using read_law [OF _ b q] assms(1) by (simp add: volume_ok_def)
  have "s' = s\<lparr>fs_dev := d\<rparr>" using assms(3) q by (auto simp: dev_read_def split: sum.splits io_error.splits)
  then show ?thesis using law assms q by (auto simp: volume_ok_def dev_read_def split: sum.splits io_error.splits)
qed

lemma dev_write_cases:
  assumes "volume_ok D ready s" "b < total_blocks (fs_sb s)" "length buf = BLOCK" "dev_write D b buf s = (r, s')"
  obtains (ok) "r = Ok ()" "volume_ok D ready s'" "same_meta s s'" "content (fs_dev s') = (content (fs_dev s))(b := buf)"
  | (err) k where "r = Err Io" "same_meta s s'" "content (fs_dev s') = (content (fs_dev s))(b := torn k buf (content (fs_dev s) b))"
proof -
  obtain q d where q: "write_block D (fs_dev s) b buf = (q, d)" by force
  have b: "b < block_count D (fs_dev s)" and rd: "ready (fs_dev s)" using assms(1,2) by (auto simp: volume_ok_def)
  have s': "s' = s\<lparr>fs_dev := d\<rparr>" using assms(4) q by (auto simp: dev_write_def split: sum.splits io_error.splits)
  show ?thesis
  proof (cases q)
    case (Inl e)
    then show ?thesis using err s' write_err_law [OF rd b assms(3)] q assms(4) by (auto simp: dev_write_def split: io_error.splits)
  next
    case (Inr u)
    then show ?thesis using ok s' write_ok_law [OF rd b assms(3)] q assms(1,4) by (auto simp: dev_write_def volume_ok_def)
  qed
qed

lemma reads_data_block: "reads_as D ready content (read_data_block D b) (\<lambda>c sb. data_in c sb b)"
  unfolding reads_as_def
proof (intro allI impI)
  fix s r s' assume s: "volume_ok D ready s" and run: "read_data_block D b s = (r, s')"
  show "volume_ok D ready s' \<and> same_meta s s' \<and> content (fs_dev s') = content (fs_dev s) \<and>
    (r = Err Io \<or> r = data_in (content (fs_dev s)) (fs_sb s) b)"
  proof (cases "in_data (fs_sb s) b")
    case True
    then have "dev_read D b s = (r, s')" using run by (auto simp: read_data_block_def in_data_def not_less split: if_splits)
    then show ?thesis using dev_read_spec [OF s] True by (auto simp: in_data_def data_in_def)
  next
    case False
    then show ?thesis using run s by (auto simp: read_data_block_def in_data_def data_in_def not_less not_le split: if_splits)
  qed
qed

end

lemma inode_pos_bounds:
  assumes "geometry sb" "inode_pos sb ino = Ok (blk, off)"
  shows "inode_start sb \<le> blk" "blk < data_start sb" "off + INODE_SIZE \<le> BLOCK" "off mod INODE_SIZE = 0"
    "ino \<noteq> 0" "ino < inode_count sb" "unat blk = unat (inode_start sb) + unat ino div 16" "off = unat ino mod 16 * 128"
proof -
  note g = geometry_bounds [OF assms(1)]
  have p: "ino \<noteq> 0" "ino < inode_count sb" "blk = inode_start sb + word_of_nat (unat ino * 128 div 2048)" "off = unat ino * 128 mod 2048"
    using assms(2) by (auto simp: inode_pos_def Let_def split: if_splits)
  have q: "unat ino * 128 div 2048 = unat ino div 16" "unat ino * 128 mod 2048 = unat ino mod 16 * 128"
    using div_mult_mult1_if [of 128 "unat ino" 16] mod_mult_mult1 [of 128 "unat ino" 16] by (simp_all add: mult.commute)
  have "unat ino div 16 < unat (inode_blocks sb)"
  proof -
    have "unat ino div 16 < div_ceil (unat (inode_count sb) * 128) 2048"
      using p(2) by (simp add: less_div_ceil_iff word_less_nat_alt)
    then show ?thesis using assms(1) by (simp add: geometry_def)
  qed
  moreover have "unat (data_start sb) < 2 ^ 64" using unsigned_less [of "data_start sb"] by simp
  ultimately have u: "unat blk = unat (inode_start sb) + unat ino div 16" and lt: "unat ino div 16 < unat (inode_blocks sb)"
    using p(3) q(1) g by (simp_all add: unat_add_no_overflow unat_word_of_nat_64)
  then show "unat blk = unat (inode_start sb) + unat ino div 16" by simp
  show "inode_start sb \<le> blk" "blk < data_start sb" using u lt g by (simp_all add: word_le_nat_alt word_less_nat_alt)
  show "off = unat ino mod 16 * 128" using p(4) q(2) by simp
  moreover have "unat ino mod 16 < 16" by simp
  ultimately show "off + INODE_SIZE \<le> BLOCK" "off mod INODE_SIZE = 0" by auto
qed (use assms(2) in \<open>auto simp: inode_pos_def Let_def split: if_splits\<close>)

definition file_byte :: "(u64 \<Rightarrow> u8 list) \<Rightarrow> superblock \<Rightarrow> inode \<Rightarrow> nat \<Rightarrow> u8 option" where
  "file_byte c sb i p = (case file_block c sb i (p div BLOCK) of Inr blk \<Rightarrow> Some (blk ! (p mod BLOCK)) | Inl e \<Rightarrow> None)"

lemma file_byte_in_block:
  assumes "file_block c sb i (p div BLOCK) = Ok blk" "p mod BLOCK + j < BLOCK"
  shows "file_byte c sb i (p + j) = Some (blk ! (p mod BLOCK + j))"
proof -
  have "p + j = p div BLOCK * BLOCK + (p mod BLOCK + j)" by simp
  then have "(p + j) div BLOCK = p div BLOCK" "(p + j) mod BLOCK = p mod BLOCK + j" using assms(2)
    by (metis BLOCK_def div_mult_self3 div_less add.right_neutral zero_neq_numeral, metis mod_mult_self3 mod_less)
  then show ?thesis using assms(1) by (simp add: file_byte_def)
qed

context block_device
begin

lemma reads_inode: "reads_as D ready content (read_inode D ino) (\<lambda>c sb. inode_in c sb ino)"
  unfolding reads_as_def
proof (intro allI impI)
  fix s r s' assume s: "volume_ok D ready s" and run: "read_inode D ino s = (r, s')"
  show "volume_ok D ready s' \<and> same_meta s s' \<and> content (fs_dev s') = content (fs_dev s) \<and>
    (r = Err Io \<or> r = inode_in (content (fs_dev s)) (fs_sb s) ino)"
  proof (cases "inode_pos (fs_sb s) ino")
    case (Inl e)
    then show ?thesis using run s by (auto simp: read_inode_def fs_bind_def inode_in_def)
  next
    case (Inr p)
    then obtain blk off where p: "inode_pos (fs_sb s) ino = Ok (blk, off)" by (cases p) auto
    have b: "blk < total_blocks (fs_sb s)"
      using inode_pos_bounds [OF _ p] geometry_bounds(1) [of "fs_sb s"] s by (auto simp: volume_ok_def)
    obtain q s1 where q: "dev_read D blk s = (q, s1)" by force
    show ?thesis using dev_read_spec [OF s b q] run p q
      by (auto simp: read_inode_def fs_bind_def inode_in_def split: sum.splits)
  qed
qed

lemma reads_block_ptr: "reads_as D ready content (block_ptr D i idx) (\<lambda>c sb. ptr_in c sb i idx)"
proof -
  have "reads_as D ready content (fs_bind (read_data_block D (i_indirect i)) (\<lambda>buf. fs_return (u64_at buf k)))
    (\<lambda>c sb. try_bind (data_in c sb (i_indirect i)) (\<lambda>buf. Ok (u64_at buf k)))" for k
    by (intro reads_as_bind reads_data_block reads_as_return)
  then show ?thesis by (auto simp: block_ptr_def ptr_in_def reads_as_return reads_as_fail Let_def)
qed

lemma file_block_length:
  assumes "volume_ok D ready s" "file_block (content (fs_dev s)) (fs_sb s) i idx = Ok blk"
  shows "length blk = BLOCK"
  using assms content_length [of "fs_dev s"]
  by (auto simp: file_block_def data_in_def volume_ok_def in_data_def try_bind_Ok_iff split: if_splits)

text \<open>One turn of the loop fetches the block at the position, if the device answers.\<close>

lemma read_loop_turn:
  assumes s: "volume_ok D ready s" and k: "k < n" and run: "read_loop D i offset n k buf s = (r, s')"
  defines "c \<equiv> content (fs_dev s)" and "m \<equiv> min (BLOCK - (offset + k) mod BLOCK) (n - k)"
  obtains (err) e where "r = Err e" "volume_ok D ready s'" "same_meta s s'" "content (fs_dev s') = c"
      "e = Io \<or> (\<exists>idx. file_block c (fs_sb s) i idx = Err e)"
  | (ok) blk s1 where "file_block c (fs_sb s) i ((offset + k) div BLOCK) = Ok blk" "volume_ok D ready s1" "same_meta s s1"
      "content (fs_dev s1) = c" "read_loop D i offset n (k + m) (copy_at k (slice_at ((offset + k) mod BLOCK) m blk) buf) s1 = (r, s')"
proof -
  let ?idx = "(offset + k) div BLOCK"
  note run = run [unfolded read_loop.simps [of D i offset n k buf s], simplified k if_True Let_def, folded m_def]
  obtain q s1 where q: "block_ptr D i ?idx s = (q, s1)" by force
  note one = reads_asD [OF reads_block_ptr s q]
  show ?thesis
  proof (cases q)
    case (Inl e)
    then have "r = Err e" "s' = s1" using run q by auto
    moreover have "e = Io \<or> file_block c (fs_sb s) i ?idx = Err e" using one(4) Inl
      by (auto simp: file_block_def c_def try_bind_def split: sum.splits)
    ultimately show ?thesis using err one unfolding c_def by blast
  next
    case (Inr ptr)
    then have p: "ptr_in c (fs_sb s) i ?idx = Ok ptr" using one(4) by (simp add: c_def)
    show ?thesis
    proof (cases "ptr = 0")
      case True
      have "slice_at ((offset + k) mod BLOCK) m (replicate BLOCK 0) = replicate m 0" by (simp add: slice_at_def m_def)
      then show ?thesis using ok [of "replicate BLOCK 0" s1] p True one run q Inr
        by (simp add: file_block_def c_def)
    next
      case False
      obtain t s2 where t: "read_data_block D ptr s1 = (t, s2)" by force
      note two = reads_asD [OF reads_data_block one(1) t]
      have c2: "content (fs_dev s2) = c" "same_meta s s2" using one two same_meta_trans unfolding c_def by (auto simp: same_meta_def)
      have fb: "file_block c (fs_sb s) i ?idx = data_in c (fs_sb s) ptr" using p False by (simp add: file_block_def)
      have t': "t = Err Io \<or> t = data_in c (fs_sb s) ptr" using two(4) one(2,3) by (simp add: c_def same_meta_def)
      show ?thesis
      proof (cases t)
        case (Inl e)
        then have "r = Err e" "s' = s2" using run q Inr False t by auto
        moreover have "e = Io \<or> file_block c (fs_sb s) i ?idx = Err e" using t' Inl fb by auto
        ultimately show ?thesis using err [of e] c2 two(1) by blast
      next
        case (Inr blk)
        then have "data_in c (fs_sb s) ptr = Ok blk" using t' by auto
        then show ?thesis using ok [of blk s2] c2 two(1) fb run q \<open>q = Inr ptr\<close> False t Inr by simp
      qed
    qed
  qed
qed

lemma read_loop_spec:
  assumes "volume_ok D ready s" "n \<le> length buf" "read_loop D i offset n k buf s = (r, s')"
  shows "volume_ok D ready s' \<and> same_meta s s' \<and> content (fs_dev s') = content (fs_dev s) \<and>
    (case r of
       Inr out \<Rightarrow> length out = length buf \<and>
         (\<forall>j<length buf. if k \<le> j \<and> j < n then file_byte (content (fs_dev s)) (fs_sb s) i (offset + j) = Some (out ! j)
                        else out ! j = buf ! j)
     | Inl e \<Rightarrow> e = Io \<or> (\<exists>idx. file_block (content (fs_dev s)) (fs_sb s) i idx = Err e))"
  using assms
proof (induction "n - k" arbitrary: k buf s rule: less_induct)
  case less
  show ?case
  proof (cases "k < n")
    case False
    then show ?thesis using less.prems by (auto simp: read_loop.simps [of D i offset n k])
  next
    case True
    define m where "m = min (BLOCK - (offset + k) mod BLOCK) (n - k)"
    have m: "0 < m" "k + m \<le> n" "(offset + k) mod BLOCK + m \<le> BLOCK" using True by (auto simp: m_def)
    from less.prems(1) True less.prems(3) show ?thesis
    proof (cases rule: read_loop_turn)
      case (err e)
      then show ?thesis by simp
    next
      case (ok blk s1)
      define buf1 where "buf1 = copy_at k (slice_at ((offset + k) mod BLOCK) m blk) buf"
      have lb: "length blk = BLOCK" using file_block_length [OF less.prems(1) ok(1)] .
      then have ls: "length (slice_at ((offset + k) mod BLOCK) m blk) = m" using m(3) by simp
      have l1: "length buf1 = length buf" unfolding buf1_def using ls m(2) less.prems(2) by (subst length_copy_at) auto
      have b1: "buf1 ! j = (if k \<le> j \<and> j < k + m then blk ! ((offset + k) mod BLOCK + (j - k)) else buf ! j)" if "j < length buf" for j
        using that ls m(2,3) less.prems(2) lb by (auto simp: buf1_def nth_copy_at nth_slice_at)
      have fb: "file_byte (content (fs_dev s)) (fs_sb s) i (offset + j) = Some (buf1 ! j)" if "k \<le> j" "j < k + m" for j
        using file_byte_in_block [OF ok(1), of "j - k"] that m b1 [of j] less.prems(2) by simp
      have run: "read_loop D i offset n (k + m) buf1 s1 = (r, s')" using ok(5) by (simp add: buf1_def m_def)
      have IH: "volume_ok D ready s' \<and> same_meta s1 s' \<and> content (fs_dev s') = content (fs_dev s1) \<and>
        (case r of
           Inr out \<Rightarrow> length out = length buf1 \<and>
             (\<forall>j<length buf1. if k + m \<le> j \<and> j < n then file_byte (content (fs_dev s1)) (fs_sb s1) i (offset + j) = Some (out ! j)
                            else out ! j = buf1 ! j)
         | Inl e \<Rightarrow> e = Io \<or> (\<exists>idx. file_block (content (fs_dev s1)) (fs_sb s1) i idx = Err e))"
        by (rule less.hyps [OF _ ok(2) _ run]) (use m True less.prems(2) l1 in auto)
      have sb: "fs_sb s1 = fs_sb s" using ok(3) by (simp add: same_meta_def)
      show ?thesis
      proof (cases r)
        case (Inl e)
        then show ?thesis using IH ok(3,4) sb same_meta_trans by fastforce
      next
        case (Inr out)
        have "if k \<le> j \<and> j < n then file_byte (content (fs_dev s)) (fs_sb s) i (offset + j) = Some (out ! j) else out ! j = buf ! j"
          if j: "j < length buf" for j
        proof (cases "k \<le> j \<and> j < k + m")
          case True
          then show ?thesis using IH Inr fb [of j] j l1 m(2) by auto
        next
          case False
          then show ?thesis using IH Inr b1 [OF j] j l1 m(2) sb ok(4) by auto
        qed
        then show ?thesis using IH Inr ok(3,4) same_meta_trans l1 by fastforce
      qed
    qed
  qed
qed

lemma fs_read_spec:
  assumes s: "volume_ok D ready s" and run: "fs_read D ino offset buf s = (r, s')"
  shows "volume_ok D ready s' \<and> same_meta s s' \<and> content (fs_dev s') = content (fs_dev s) \<and>
    (\<forall>n out. r = Ok (n, out) \<longrightarrow> (\<exists>i. inode_in (content (fs_dev s)) (fs_sb s) ino = Ok i \<and> i_kind i \<noteq> 0 \<and>
       n = min (length buf) (unat (i_size i) - unat offset) \<and> length out = length buf \<and> drop n out = drop n buf \<and>
       (\<forall>j<n. file_byte (content (fs_dev s)) (fs_sb s) i (unat offset + j) = Some (out ! j))))"
  using run unfolding fs_read_def
proof (cases rule: fs_bind_cases)
  case (err e)
  then show ?thesis using reads_asD [OF reads_inode s err(1)] by auto
next
  case (ok i s1)
  note one = reads_asD [OF reads_inode s ok(1)]
  have i: "inode_in (content (fs_dev s)) (fs_sb s) ino = Ok i" using one(4) by auto
  show ?thesis
  proof (cases "i_kind i = 0 \<or> offset \<ge> i_size i")
    case True
    moreover have "i_size i \<le> offset \<Longrightarrow> unat (i_size i) - unat offset = 0" by (simp add: word_le_nat_alt)
    ultimately show ?thesis using one i ok(2) by (auto split: if_splits)
  next
    case False
    define n where "n = min (length buf) (unat (i_size i - offset))"
    have u: "unat (i_size i - offset) = unat (i_size i) - unat offset" using False by (intro unat_sub_le) auto
    have "fs_bind (read_loop D i (unat offset) n 0 buf) (\<lambda>buf. fs_return (n, buf)) s1 = (r, s')"
      using ok(2) False by (simp add: n_def Let_def)
    then show ?thesis
    proof (cases rule: fs_bind_cases)
      case (err e)
      then show ?thesis using read_loop_spec [OF one(1) _ err(1)] one same_meta_trans by (fastforce simp: n_def)
    next
      case (ok out s2)
      have sp: "volume_ok D ready s2" "same_meta s1 s2" "content (fs_dev s2) = content (fs_dev s1)" "length out = length buf"
        "\<forall>j<length buf. if j < n then file_byte (content (fs_dev s1)) (fs_sb s1) i (unat offset + j) = Some (out ! j) else out ! j = buf ! j"
        using read_loop_spec [OF one(1) _ ok(1)] by (auto simp: n_def)
      have "drop n out = drop n buf" using sp(4,5) by (intro nth_equalityI) auto
      moreover have "fs_sb s1 = fs_sb s" using one(2) by (simp add: same_meta_def)
      moreover have "n \<le> length buf" by (simp add: n_def)
      ultimately show ?thesis using sp one i ok(2) False u same_meta_trans [OF one(2) sp(2)] by (auto simp: n_def split: if_splits)
    qed
  qed
qed

end

end
