(* ===== verification/Nexofs_Write.thy ===== *)
theory Nexofs_Write
  imports Nexofs_Core
begin

text \<open>
  Writing and truncating files (\<^verbatim>\<open>libraries/nexofs/src/lib.rs\<close>, \<^verbatim>\<open>Fs::write\<close> and \<^verbatim>\<open>Fs::truncate\<close>). Data goes to new
  blocks; the inode is then written in one sector, which is the commit; old blocks are freed after it.
\<close>

section \<open>Model\<close>

text \<open>The variables of the loop: \<open>w_old\<close> is the used part of the array of replaced blocks.\<close>

record write_state =
  w_inode :: inode
  w_old :: "u64 list"
  w_done :: nat
  w_ind :: "u8 list"
  w_ind_loaded :: bool
  w_ind_dirty :: bool

definition CHUNK :: nat where [simp]: "CHUNK = 32"

definition fs_modify :: "('d fs \<Rightarrow> 'd fs) \<Rightarrow> ('d, unit) fsm" where
  "fs_modify f s = (Ok (), f s)"

text \<open>The contents of the new block before the data is copied in: the old block up to the size of the file.\<close>

definition write_base :: "'d block_dev \<Rightarrow> inode \<Rightarrow> nat \<Rightarrow> nat \<Rightarrow> u64 \<Rightarrow> ('d, u8 list) fsm" where
  "write_base D i idx m old_ptr =
     (if m < BLOCK \<and> old_ptr \<noteq> 0 then
        fs_bind (read_data_block D old_ptr) (\<lambda>blk.
          let valid = min (unat (i_size i) - idx * BLOCK) BLOCK in fs_return (take valid blk @ replicate (BLOCK - valid) 0))
      else fs_return (replicate BLOCK 0))"

text \<open>The new block is written; if that fails it is given back.\<close>

definition write_new_block :: "'d block_dev \<Rightarrow> u64 \<Rightarrow> u8 list \<Rightarrow> ('d, unit) fsm" where
  "write_new_block D nb blk s =
     (case dev_write D nb blk s of (Inl e, s') \<Rightarrow> (Inl e, free_block nb s') | (Inr u, s') \<Rightarrow> (Inr u, s'))"

definition write_indirect :: "'d block_dev \<Rightarrow> nat \<Rightarrow> u64 \<Rightarrow> write_state \<Rightarrow> ('d, write_state) fsm" where
  "write_indirect D idx nb ws =
     fs_bind
       (if i_indirect (w_inode ws) = 0 then
          fs_bind alloc_block (\<lambda>ib.
          fs_bind (dev_write D ib (replicate BLOCK 0)) (\<lambda>_.
          fs_return (ws\<lparr>w_ind := replicate BLOCK 0, w_inode := (w_inode ws)\<lparr>i_indirect := ib\<rparr>, w_ind_loaded := True\<rparr>)))
        else if \<not> w_ind_loaded ws then
          fs_bind (read_data_block D (i_indirect (w_inode ws))) (\<lambda>ind. fs_return (ws\<lparr>w_ind := ind, w_ind_loaded := True\<rparr>))
        else fs_return ws)
       (\<lambda>ws. fs_return (ws\<lparr>w_ind := put64 (w_ind ws) ((idx - NDIRECT) * 8) nb, w_ind_dirty := True\<rparr>))"

definition write_turn :: "'d block_dev \<Rightarrow> nat \<Rightarrow> u8 list \<Rightarrow> write_state \<Rightarrow> ('d, write_state) fsm" where
  "write_turn D offset data ws =
     (let pos = offset + w_done ws; idx = pos div BLOCK; in_off = pos mod BLOCK;
          m = min (BLOCK - in_off) (length data - w_done ws); i = w_inode ws in
      fs_bind (block_ptr D i idx) (\<lambda>old_ptr.
      fs_bind (write_base D i idx m old_ptr) (\<lambda>blk.
      fs_bind alloc_block (\<lambda>nb.
      fs_bind (write_new_block D nb (copy_at in_off (slice_at (w_done ws) m data) blk)) (\<lambda>_.
      fs_bind (if idx < NDIRECT then fs_return (ws\<lparr>w_inode := i\<lparr>i_direct := (i_direct i)[idx := nb]\<rparr>\<rparr>)
               else write_indirect D idx nb ws) (\<lambda>ws.
      fs_return (ws\<lparr>w_old := (if old_ptr \<noteq> 0 then w_old ws @ [old_ptr] else w_old ws), w_done := w_done ws + m\<rparr>)))))))"

lemma write_turn_progress:
  assumes "write_turn D offset data ws s = (Ok ws', s')" "w_done ws < length data"
  shows "w_done ws < w_done ws'"
proof -
  have step: "w_done ws1 = w_done ws" if "write_indirect D idx nb ws s1 = (Ok ws1, s2)" for idx nb s1 s2 ws1
    using that by (auto simp: write_indirect_def elim!: fs_bind_cases split: if_splits)
  show ?thesis using assms by (auto simp: write_turn_def Let_def elim!: fs_bind_cases split: if_splits dest!: step)
qed

function write_loop :: "'d block_dev \<Rightarrow> nat \<Rightarrow> u8 list \<Rightarrow> write_state \<Rightarrow> ('d, write_state) fsm" where
  "write_loop D offset data ws s =
     (if w_done ws < length data then
        (case write_turn D offset data ws s of
           (Inl e, s') \<Rightarrow> (Inl e, s')
         | (Inr ws', s') \<Rightarrow> if length (w_old ws') = CHUNK then (Ok ws', s') else write_loop D offset data ws' s')
      else (Ok ws, s))"
  by pat_completeness auto
termination
proof (relation "measure (\<lambda>(D, offset, data, ws, s). length data - w_done ws)", goal_cases)
  case (2 D offset data ws s p q ws')
  then have "write_turn D offset data ws s = (Ok ws', q)" by simp
  from write_turn_progress [OF this 2(1)] show ?case using 2(1) by simp
qed simp

declare write_loop.simps [simp del]

text \<open>After the loop: the indirect block, the inode, which is the commit, and then the bitmap without the old blocks.\<close>

definition write_commit :: "'d block_dev \<Rightarrow> u32 \<Rightarrow> u64 \<Rightarrow> write_state \<Rightarrow> ('d, nat) fsm" where
  "write_commit D ino offset ws =
     fs_bind (if w_ind_dirty ws then dev_write D (i_indirect (w_inode ws)) (w_ind ws) else fs_return ()) (\<lambda>_.
     fs_bind (write_inode D ino
                ((w_inode ws)\<lparr>i_size := max (i_size (w_inode ws)) (offset + word_of_nat (w_done ws)),
                              i_generation := i_generation (w_inode ws) + 1\<rparr>)) (\<lambda>_.
     fs_bind (fs_modify (fold free_block (w_old ws))) (\<lambda>_.
     fs_bind (write_bitmap D) (\<lambda>_. fs_return (w_done ws)))))"

definition write_chunk :: "'d block_dev \<Rightarrow> u32 \<Rightarrow> u64 \<Rightarrow> u8 list \<Rightarrow> ('d, nat) fsm" where
  "write_chunk D ino offset data =
     fs_bind (read_inode D ino) (\<lambda>i.
       case inode_kind i of
         Some Dir \<Rightarrow> fs_fail IsDir
       | None \<Rightarrow> fs_fail InvalidArgs
       | Some File \<Rightarrow>
           if data = [] then fs_return 0
           else (case checked_add offset (word_of_nat (length data)) of
                   None \<Rightarrow> fs_fail TooBig
                 | Some stop \<Rightarrow>
                     if unat stop > MAX_FILE then fs_fail TooBig
                     else fs_bind (write_loop D (unat offset) data
                                     \<lparr>w_inode = i, w_old = [], w_done = 0, w_ind = replicate BLOCK 0,
                                      w_ind_loaded = False, w_ind_dirty = False\<rparr>)
                            (write_commit D ino offset)))"

lemma write_loop_progress:
  "write_loop D offset data ws s = (Ok ws', s') \<Longrightarrow> w_done ws \<le> w_done ws' \<and> (w_done ws < length data \<longrightarrow> w_done ws < w_done ws')"
proof (induction D offset data ws s arbitrary: ws' s' rule: write_loop.induct)
  case (1 D offset data ws s)
  show ?case
  proof (cases "w_done ws < length data")
    case True
    then obtain ws1 s1 where t: "write_turn D offset data ws s = (Ok ws1, s1)"
      using "1.prems" by (auto simp: write_loop.simps [of D offset data ws s] split: prod.splits sum.splits)
    have "w_done ws < w_done ws1" using write_turn_progress [OF t True] .
    moreover have "w_done ws1 \<le> w_done ws'"
    proof (cases "length (w_old ws1) = CHUNK")
      case True
      then show ?thesis using "1.prems" t \<open>w_done ws < length data\<close> by (simp add: write_loop.simps [of D offset data ws s])
    next
      case False
      then have "write_loop D offset data ws1 s1 = (Ok ws', s')" using "1.prems" t True by (simp add: write_loop.simps [of D offset data ws s])
      then show ?thesis using "1.IH" [OF True t [symmetric] refl False] by blast
    qed
    ultimately show ?thesis by simp
  next
    case False
    then show ?thesis using "1.prems" by (simp add: write_loop.simps [of D offset data ws s])
  qed
qed

lemma write_chunk_progress: "write_chunk D ino offset data s = (Ok n, s') \<Longrightarrow> n < length data \<Longrightarrow> 0 < n"
  by (auto simp: write_chunk_def write_commit_def elim!: fs_bind_cases split: option.splits kind.splits if_splits dest!: write_loop_progress)

text \<open>The call repeats itself for the rest of the data when a turn filled the array of replaced blocks.\<close>

function fs_write :: "'d block_dev \<Rightarrow> u32 \<Rightarrow> u64 \<Rightarrow> u8 list \<Rightarrow> ('d, nat) fsm" where
  "fs_write D ino offset data s =
     (case write_chunk D ino offset data s of
        (Inl e, s') \<Rightarrow> (Inl e, s')
      | (Inr n, s') \<Rightarrow>
          if n < length data
          then (case fs_write D ino (offset + word_of_nat n) (drop n data) s' of
                  (Inl e, s'') \<Rightarrow> (Inl e, s'')
                | (Inr rest, s'') \<Rightarrow> (Ok (n + rest), s''))
          else (Ok n, s'))"
  by pat_completeness auto
termination
proof (relation "measure (\<lambda>(D, ino, offset, data, s). length data)", goal_cases)
  case (2 D ino offset data s p q n)
  then have "write_chunk D ino offset data s = (Ok n, q)" by simp
  from write_chunk_progress [OF this 2(3)] show ?case using 2(3) by simp
qed simp

declare fs_write.simps [simp del]

definition fs_truncate :: "'d block_dev \<Rightarrow> u32 \<Rightarrow> u64 \<Rightarrow> ('d, unit) fsm" where
  "fs_truncate D ino len =
     fs_bind (read_inode D ino) (\<lambda>old.
       if inode_kind old \<noteq> Some File then fs_fail InvalidArgs
       else if len \<ge> i_size old then fs_return ()
       else
         let keep = div_ceil (unat len) BLOCK;
             i = old\<lparr>i_direct := take keep (i_direct old) @ replicate (NDIRECT - keep) 0\<rparr> in
         fs_bind
           (if i_indirect i \<noteq> 0 then
              if keep \<le> NDIRECT then fs_return (i\<lparr>i_indirect := 0\<rparr>)
              else fs_bind (read_data_block D (i_indirect i)) (\<lambda>ind.
                   fs_bind (dev_write D (i_indirect i)
                              (put64s ind ((keep - NDIRECT) * 8) (replicate (PTRS_PER_BLOCK - (keep - NDIRECT)) 0))) (\<lambda>_.
                   fs_return i))
            else fs_return i) (\<lambda>i.
         fs_bind (write_inode D ino (i\<lparr>i_size := len, i_generation := i_generation i + 1\<rparr>)) (\<lambda>_.
         fs_bind (fs_modify (fold (\<lambda>d. if d \<noteq> 0 then free_block d else id) (drop keep (i_direct old)))) (\<lambda>_.
         fs_bind
           (if i_indirect old \<noteq> 0 then
              fs_bind (read_data_block D (i_indirect old)) (\<lambda>oind.
              fs_bind (fs_modify (fold (\<lambda>k. let p = u64_at oind (k * 8) in if p \<noteq> 0 then free_block p else id)
                                   [keep - NDIRECT..<PTRS_PER_BLOCK])) (\<lambda>_.
              if keep \<le> NDIRECT then fs_modify (free_block (i_indirect old)) else fs_return ()))
            else fs_return ()) (\<lambda>_.
         write_bitmap D)))))"

end
