(* ===== verification/Nexofs_Crash.thy ===== *)
theory Nexofs_Crash
  imports Nexofs_Write
begin

text \<open>
  Writes to the direct blocks of a file (the first \<open>NDIRECT * BLOCK\<close> bytes): whatever access of the device fails and
  however a write is torn, the file on the disk is the old one or the new one, and everything else that is in use is
  as it was.
\<close>

section \<open>Writes to the direct blocks\<close>

text \<open>What the bytes of a file are after a write: in the blocks that the write touches, the data, the old bytes, and zeros
  past the old end; elsewhere what was there.\<close>

definition new_byte :: "(nat \<Rightarrow> u8 option) \<Rightarrow> nat \<Rightarrow> nat \<Rightarrow> u8 list \<Rightarrow> nat \<Rightarrow> u8 option" where
  "new_byte old len off data q =
     (if off \<le> q \<and> q < off + length data then Some (data ! (q - off))
      else if q < len then old q
      else if off div BLOCK \<le> q div BLOCK \<and> q div BLOCK * BLOCK < off + length data then Some 0
      else old q)"

text \<open>The contents of a file as a reader gets them.\<close>

definition contents :: "(u64 \<Rightarrow> u8 list) \<Rightarrow> superblock \<Rightarrow> u32 \<Rightarrow> u8 option list option" where
  "contents c sb ino =
     (case inode_in c sb ino of
        Inr i \<Rightarrow> Some (map (file_byte c sb i) [0..<unat (i_size i)])
      | Inl e \<Rightarrow> None)"

text \<open>All blocks of the file are in the data area and marked as used.\<close>

definition file_marked :: "(u64 \<Rightarrow> u8 list) \<Rightarrow> 'd fs \<Rightarrow> inode \<Rightarrow> bool" where
  "file_marked c s i \<longleftrightarrow>
     (i_indirect i \<noteq> 0 \<longrightarrow> in_data (fs_sb s) (i_indirect i) \<and> fs_bit s (i_indirect i)) \<and>
     (\<forall>idx p. ptr_in c (fs_sb s) i idx = Ok p \<longrightarrow> p \<noteq> 0 \<longrightarrow> in_data (fs_sb s) p \<and> fs_bit s p)"

text \<open>Used blocks and blocks outside the data area hold what they held.\<close>

definition used_kept :: "(u64 \<Rightarrow> u8 list) \<Rightarrow> 'd fs \<Rightarrow> (u64 \<Rightarrow> u8 list) \<Rightarrow> bool" where
  "used_kept c s c' \<longleftrightarrow> (\<forall>b. fs_bit s b \<or> \<not> in_data (fs_sb s) b \<longrightarrow> c' b = c b)"

lemma write_position:
  fixes off k n fin B :: nat
  defines "r \<equiv> (off + k) mod B"
  defines "m \<equiv> min (B - r) (n - k)"
  assumes B: "0 < B" and k: "k = min n (fin * B - off)" "k < n" and fin: "off div B \<le> fin"
  shows "(off + k) div B = fin" "off + k = fin * B + r" "r < B" "0 < m" "r + m \<le> B" "k + m = min n (Suc fin * B - off)"
    "0 < r \<Longrightarrow> off div B = fin \<and> k = 0" "r + m < B \<Longrightarrow> k + m = n" "k + m \<le> n"
proof -
  have "(off + k) div B = fin \<and> (0 < r \<longrightarrow> off div B = fin \<and> k = 0)"
  proof (cases "fin * B \<le> off")
    case True
    then have "fin \<le> off div B" using B by (simp add: less_eq_div_iff_mult_less_eq)
    then show ?thesis using True k fin by simp
  next
    case False
    then have "off + k = fin * B" using k by simp
    then show ?thesis using B by (simp add: r_def)
  qed
  then show d: "(off + k) div B = fin" and "0 < r \<Longrightarrow> off div B = fin \<and> k = 0" by auto
  show e: "off + k = fin * B + r" unfolding r_def d [symmetric] by simp
  show r: "r < B" using B by (simp add: r_def)
  show "0 < m" "r + m \<le> B" "k + m \<le> n" using r k(2) by (auto simp: m_def)
  show "r + m < B \<Longrightarrow> k + m = n" using k(2) by (auto simp: m_def min_def split: if_splits)
  show "k + m = min n (Suc fin * B - off)" using e r k(2) by (auto simp: m_def min_def)
qed

text \<open>The loop invariant, \<open>fin\<close> being the block that comes next.\<close>

definition write_inv :: "('d \<Rightarrow> u64 \<Rightarrow> u8 list) \<Rightarrow> 'd fs \<Rightarrow> inode \<Rightarrow> nat \<Rightarrow> u8 list \<Rightarrow> nat \<Rightarrow> write_state \<Rightarrow> 'd fs \<Rightarrow> bool" where
  [nexo_inv]: "write_inv content s0 i0 off data fin ws s \<longleftrightarrow>
     (let c0 = content (fs_dev s0); sb = fs_sb s0; d = i_direct (w_inode ws) in
      fs_sb s = sb \<and> used_kept c0 s0 (content (fs_dev s)) \<and>
      off div BLOCK \<le> fin \<and> w_done ws = min (length data) (fin * BLOCK - off) \<and>
      w_inode ws = i0\<lparr>i_direct := d\<rparr> \<and> length d = NDIRECT \<and> \<not> w_ind_dirty ws \<and>
      w_old ws = filter (\<lambda>p. p \<noteq> 0) (map (\<lambda>idx. i_direct i0 ! idx) [off div BLOCK..<fin]) \<and>
      distinct (map (\<lambda>idx. d ! idx) [off div BLOCK..<fin]) \<and>
      (\<forall>b. fs_bit s b \<longleftrightarrow> fs_bit s0 b \<or> (\<exists>idx. off div BLOCK \<le> idx \<and> idx < fin \<and> b = d ! idx)) \<and>
      (\<forall>idx<NDIRECT. if off div BLOCK \<le> idx \<and> idx < fin
         then in_data sb (d ! idx) \<and> \<not> fs_bit s0 (d ! idx) \<and> d ! idx \<noteq> 0 \<and>
              (\<forall>j<BLOCK. Some (content (fs_dev s) (d ! idx) ! j) = new_byte (file_byte c0 sb i0) (unat (i_size i0)) off data (idx * BLOCK + j))
         else d ! idx = i_direct i0 ! idx))"

lemma in_data_nonzero: "geometry sb \<Longrightarrow> in_data sb b \<Longrightarrow> b \<noteq> 0"
  using geometry_bounds(3,4) [of sb] by (auto simp: in_data_def)

lemma used_kept_free: "used_kept c s c' \<Longrightarrow> in_data (fs_sb s) b \<Longrightarrow> \<not> fs_bit s b \<Longrightarrow> used_kept c s (c'(b := x))"
  by (auto simp: used_kept_def)

lemma ptr_in_direct: "idx < NDIRECT \<Longrightarrow> ptr_in c sb i idx = Ok (i_direct i ! idx)"
  by (simp add: ptr_in_def)

lemma fs_return_Pair: "fs_return x = Pair (Ok x)"
  by (simp add: fun_eq_iff)

text \<open>The variables after a turn that put block \<open>fin\<close>, formerly at \<open>p\<close>, at \<open>nb\<close>.\<close>

definition turn_ws :: "write_state \<Rightarrow> nat \<Rightarrow> nat \<Rightarrow> u64 \<Rightarrow> u64 \<Rightarrow> write_state" where
  "turn_ws ws fin m p nb = ws\<lparr>w_inode := (w_inode ws)\<lparr>i_direct := (i_direct (w_inode ws))[fin := nb]\<rparr>,
     w_old := w_old ws @ (if p \<noteq> 0 then [p] else []), w_done := w_done ws + m\<rparr>"

lemma write_turn_direct:
  assumes "(off + w_done ws) div BLOCK = fin" "fin < NDIRECT" "min (BLOCK - (off + w_done ws) mod BLOCK) (length data - w_done ws) = m"
    "i_direct (w_inode ws) ! fin = p"
  shows "write_turn D off data ws s =
    fs_bind (write_base D (w_inode ws) fin m p) (\<lambda>blk.
    fs_bind alloc_block (\<lambda>nb.
    fs_bind (write_new_block D nb (copy_at ((off + w_done ws) mod BLOCK) (slice_at (w_done ws) m data) blk)) (\<lambda>_.
    fs_return (turn_ws ws fin m p nb)))) s"
proof -
  have "fs_bind (block_ptr D (w_inode ws) fin) f s = f p s" for f :: "u64 \<Rightarrow> ('a, write_state) fsm"
    using assms(2,4) by (simp add: block_ptr_def fs_bind_def)
  moreover have "fs_bind (fs_return x) f = f x" for x and f :: "write_state \<Rightarrow> ('a, write_state) fsm" by (simp add: fs_bind_def fun_eq_iff)
  ultimately show ?thesis unfolding write_turn_def Let_def assms(1,3)
    by (cases "p = 0") (simp_all add: assms(2) [simplified] fs_return_Pair turn_ws_def)
qed

text \<open>The bytes of the block that a turn writes.\<close>

lemma turn_byte:
  fixes off fin :: nat and data :: "u8 list"
  defines "k \<equiv> min (length data) (fin * BLOCK - off)"
  defines "r \<equiv> (off + k) mod BLOCK"
  defines "m \<equiv> min (BLOCK - r) (length data - k)"
  assumes k: "k < length data" "off div BLOCK \<le> fin" and j: "j < BLOCK" and blk: "length blk = BLOCK"
    "blk ! j = (if m < BLOCK \<and> p \<noteq> 0 \<and> fin * BLOCK + j < len then x else 0)"
    and old: "old (fin * BLOCK + j) = Some (if p = 0 then 0 else x)"
  shows "Some (copy_at r (slice_at k m data) blk ! j) = new_byte old len off data (fin * BLOCK + j)"
proof -
  note P = write_position [of BLOCK k "length data" fin off, folded r_def, folded m_def, OF _ _ k]
  have P: "off + k = fin * BLOCK + r" "r < BLOCK" "0 < m" "r + m \<le> BLOCK" "r + m < BLOCK \<Longrightarrow> k + m = length data" "k + m \<le> length data"
    "0 < r \<Longrightarrow> k = 0" using P by (simp_all add: k_def)
  have slice: "length (slice_at k m data) = m" "\<And>t. t < m \<Longrightarrow> slice_at k m data ! t = data ! (k + t)"
    using P(6) by (simp_all add: nth_slice_at)
  have copy: "copy_at r (slice_at k m data) blk ! j = (if r \<le> j \<and> j < r + m then data ! (k + (j - r)) else blk ! j)"
    using P(4) slice blk(1) j by (auto simp: nth_copy_at)
  show ?thesis
  proof (cases "r \<le> j \<and> j < r + m")
    case True
    then have "off \<le> fin * BLOCK + j" "fin * BLOCK + j < off + length data" "fin * BLOCK + j - off = k + (j - r)"
      using P(1,6) by linarith+
    then show ?thesis using copy True by (simp add: new_byte_def)
  next
    case False
    have "\<not> (off \<le> fin * BLOCK + j \<and> fin * BLOCK + j < off + length data)"
    proof (cases "j < r")
      case True
      then show ?thesis using P(1,7) by linarith
    next
      case False
      then have "r + m \<le> j" using \<open>\<not> (r \<le> j \<and> j < r + m)\<close> by simp
      then show ?thesis using P(1,5) j by linarith
    qed
    moreover have "m < BLOCK" using False P(2,4) j by linarith
    moreover have "off div BLOCK \<le> (fin * BLOCK + j) div BLOCK" "(fin * BLOCK + j) div BLOCK * BLOCK < off + length data"
      using k(2) j P(1,2,6) k(1) by (simp_all add: div_less)
    ultimately show ?thesis using copy False blk(2) old by (auto simp: new_byte_def)
  qed
qed

text \<open>What a turn that writes block \<open>fin\<close> to \<open>nb\<close> does to the invariant.\<close>

lemma write_inv_step:
  assumes inv: "write_inv content s0 i0 off data fin ws s" and fin: "fin < NDIRECT"
    and s': "fs_sb s' = fs_sb s0" "content (fs_dev s') = (content (fs_dev s))(nb := blk)" "\<And>b. fs_bit s' b \<longleftrightarrow> b = nb \<or> fs_bit s b"
    and nb: "in_data (fs_sb s0) nb" "\<not> fs_bit s nb" "nb \<noteq> 0"
    and blk: "\<And>j. j < BLOCK \<Longrightarrow> Some (blk ! j) = new_byte (file_byte (content (fs_dev s0)) (fs_sb s0) i0) (unat (i_size i0)) off data (fin * BLOCK + j)"
    and ws': "w_inode ws' = i0\<lparr>i_direct := (i_direct (w_inode ws))[fin := nb]\<rparr>" "\<not> w_ind_dirty ws'"
      "w_old ws' = w_old ws @ (if i_direct i0 ! fin \<noteq> 0 then [i_direct i0 ! fin] else [])"
      "w_done ws' = min (length data) (Suc fin * BLOCK - off)"
  shows "write_inv content s0 i0 off data (Suc fin) ws' s'"
proof -
  define d where "d = i_direct (w_inode ws)"
  define o0 where "o0 = off div BLOCK"
  note I = inv [unfolded write_inv_def Let_def, folded d_def, folded o0_def]
  have len: "length d = NDIRECT" and o0: "o0 \<le> fin" using I by auto
  have nb0: "\<not> fs_bit s0 nb" using I nb(2) by blast
  have old: "d ! idx \<noteq> nb" if "o0 \<le> idx" "idx < fin" for idx using I that nb(2) by blast
  have d': "d[fin := nb] ! idx = (if idx = fin then nb else d ! idx)" if "idx < NDIRECT" for idx using that len by simp
  have map: "map (\<lambda>idx. d[fin := nb] ! idx) [o0..<Suc fin] = map (\<lambda>idx. d ! idx) [o0..<fin] @ [nb]"
    using o0 len fin by simp
  have "nb \<notin> (\<lambda>idx. d ! idx) ` {o0..<fin}" using old by (metis atLeastLessThan_iff imageE)
  then have "distinct (map (\<lambda>idx. d[fin := nb] ! idx) [o0..<Suc fin])" unfolding map using I by simp
  moreover have "used_kept (content (fs_dev s0)) s0 (content (fs_dev s'))" unfolding s'(2) using I nb(1) nb0 by (intro used_kept_free) auto
  moreover have "fs_bit s' b \<longleftrightarrow> fs_bit s0 b \<or> (\<exists>idx. o0 \<le> idx \<and> idx < Suc fin \<and> b = d[fin := nb] ! idx)" for b
  proof -
    have "(\<exists>idx. o0 \<le> idx \<and> idx < Suc fin \<and> b = d[fin := nb] ! idx) \<longleftrightarrow> b \<in> set (map (\<lambda>idx. d[fin := nb] ! idx) [o0..<Suc fin])"
      by (auto simp del: upt_Suc)
    also have "\<dots> \<longleftrightarrow> b = nb \<or> (\<exists>idx. o0 \<le> idx \<and> idx < fin \<and> b = d ! idx)" unfolding map by auto
    finally have "(\<exists>idx. o0 \<le> idx \<and> idx < Suc fin \<and> b = d[fin := nb] ! idx) \<longleftrightarrow> b = nb \<or> (\<exists>idx. o0 \<le> idx \<and> idx < fin \<and> b = d ! idx)" .
    moreover have "fs_bit s b \<longleftrightarrow> fs_bit s0 b \<or> (\<exists>idx. o0 \<le> idx \<and> idx < fin \<and> b = d ! idx)" using I by blast
    ultimately show ?thesis unfolding s'(3) by blast
  qed
  moreover have "if o0 \<le> idx \<and> idx < Suc fin
      then in_data (fs_sb s0) (d[fin := nb] ! idx) \<and> \<not> fs_bit s0 (d[fin := nb] ! idx) \<and> d[fin := nb] ! idx \<noteq> 0 \<and>
        (\<forall>j<BLOCK. Some (content (fs_dev s') (d[fin := nb] ! idx) ! j) = new_byte (file_byte (content (fs_dev s0)) (fs_sb s0) i0) (unat (i_size i0)) off data (idx * BLOCK + j))
      else d[fin := nb] ! idx = i_direct i0 ! idx" if idx: "idx < NDIRECT" for idx
  proof (cases "idx = fin")
    case True
    then show ?thesis using d' [OF idx] nb nb0 o0 blk by (simp add: s'(2) del: BLOCK_def)
  next
    case False
    then have "idx < Suc fin \<longleftrightarrow> idx < fin" by auto
    then show ?thesis using False I idx d' [OF idx] old by (simp add: s'(2) del: BLOCK_def)
  qed
  ultimately show ?thesis using I s'(1) ws' o0 len
    unfolding write_inv_def Let_def o0_def [symmetric] by (simp add: d_def [symmetric] o0_def [symmetric] del: BLOCK_def)
qed

text \<open>What a turn does under the invariant.\<close>

lemma write_turn_shape:
  fixes off fin :: nat and data :: "u8 list"
  defines "k \<equiv> min (length data) (fin * BLOCK - off)"
  defines "r \<equiv> (off + k) mod BLOCK"
  defines "m \<equiv> min (BLOCK - r) (length data - k)"
  assumes inv: "write_inv content s0 i0 off data fin ws s" and mk: "file_marked (content (fs_dev s0)) s0 i0"
    and more: "w_done ws < length data" and top: "off + length data \<le> NDIRECT * BLOCK"
  defines "p \<equiv> i_direct i0 ! fin"
  shows "fin < NDIRECT" "p \<noteq> 0 \<Longrightarrow> in_data (fs_sb s0) p \<and> fs_bit s0 p" "r + m \<le> BLOCK" "k + m \<le> length data"
    "w_done (turn_ws ws fin m p nb) = min (length data) (Suc fin * BLOCK - off)"
    "write_turn D off data ws s = fs_bind (write_base D (w_inode ws) fin m p) (\<lambda>blk. fs_bind alloc_block (\<lambda>nb.
       fs_bind (write_new_block D nb (copy_at r (slice_at k m data) blk)) (\<lambda>_. fs_return (turn_ws ws fin m p nb)))) s"
proof -
  have I: "off div BLOCK \<le> fin" "w_done ws = k" "\<And>idx. idx < NDIRECT \<Longrightarrow> fin \<le> idx \<Longrightarrow> i_direct (w_inode ws) ! idx = i_direct i0 ! idx"
    using inv by (auto simp: write_inv_def Let_def k_def)
  have k: "k < length data" using more I(2) by simp
  note P = write_position [of BLOCK k "length data" fin off, folded r_def, folded m_def, OF _ meta_eq_to_obj_eq [OF k_def] k I(1)]
  show fin: "fin < NDIRECT" using P(2) k top by simp
  show "p \<noteq> 0 \<Longrightarrow> in_data (fs_sb s0) p \<and> fs_bit s0 p"
    using mk ptr_in_direct [of fin "content (fs_dev s0)" "fs_sb s0" i0] fin unfolding file_marked_def p_def by auto
  show "r + m \<le> BLOCK" "k + m \<le> length data" using P(5,9) k by simp_all
  show "w_done (turn_ws ws fin m p nb) = min (length data) (Suc fin * BLOCK - off)" using P(6) k I(2) by (simp add: turn_ws_def)
  have "(off + w_done ws) div BLOCK = fin" "min (BLOCK - (off + w_done ws) mod BLOCK) (length data - w_done ws) = m" "i_direct (w_inode ws) ! fin = p"
    using P(1) k I fin by (simp_all add: m_def r_def p_def)
  from write_turn_direct [OF this(1) fin this(2,3)]
  show "write_turn D off data ws s = fs_bind (write_base D (w_inode ws) fin m p) (\<lambda>blk. fs_bind alloc_block (\<lambda>nb.
    fs_bind (write_new_block D nb (copy_at r (slice_at k m data) blk)) (\<lambda>_. fs_return (turn_ws ws fin m p nb)))) s"
    by (simp only: I(2) r_def)
qed

lemma turn_block:
  fixes off fin :: nat and data :: "u8 list"
  defines "k \<equiv> min (length data) (fin * BLOCK - off)"
  defines "r \<equiv> (off + k) mod BLOCK"
  defines "m \<equiv> min (BLOCK - r) (length data - k)"
  assumes inv: "write_inv content s0 i0 off data fin ws s" and mk: "file_marked (content (fs_dev s0)) s0 i0"
    and more: "w_done ws < length data" and top: "off + length data \<le> NDIRECT * BLOCK"
  defines "p \<equiv> i_direct i0 ! fin"
  assumes blk: "length blk = BLOCK"
    "\<And>j. j < BLOCK \<Longrightarrow> blk ! j = (if m < BLOCK \<and> p \<noteq> 0 \<and> fin * BLOCK + j < unat (i_size (w_inode ws)) then content (fs_dev s) p ! j else 0)"
  shows "length (copy_at r (slice_at k m data) blk) = BLOCK"
    "j < BLOCK \<Longrightarrow> Some (copy_at r (slice_at k m data) blk ! j) =
       new_byte (file_byte (content (fs_dev s0)) (fs_sb s0) i0) (unat (i_size i0)) off data (fin * BLOCK + j)"
proof -
  define c0 where "c0 = content (fs_dev s0)"
  note S = write_turn_shape [OF inv mk more top, folded k_def, folded r_def, folded m_def, folded p_def]
  show "length (copy_at r (slice_at k m data) blk) = BLOCK" using S(3,4) blk(1) by (subst length_copy_at) auto
  have I: "off div BLOCK \<le> fin" "w_done ws = k" "used_kept c0 s0 (content (fs_dev s))" "i_size (w_inode ws) = i_size i0"
    using inv by (auto simp: write_inv_def Let_def k_def c0_def) (metis inode.select_convs(2) inode.surjective inode.update_convs(3))
  assume j: "j < BLOCK"
  have "file_byte c0 (fs_sb s0) i0 (fin * BLOCK + j) = Some (if p = 0 then 0 else c0 p ! j)"
    using j S(1,2) by (simp add: file_byte_def file_block_def ptr_in_direct data_in_def p_def)
  moreover have "p \<noteq> 0 \<Longrightarrow> content (fs_dev s) p = c0 p" using I(3) S(2) by (simp add: used_kept_def)
  ultimately show "Some (copy_at r (slice_at k m data) blk ! j) = new_byte (file_byte (content (fs_dev s0)) (fs_sb s0) i0) (unat (i_size i0)) off data (fin * BLOCK + j)"
    using turn_byte [of data fin off j blk p "unat (i_size i0)" "c0 p ! j" "file_byte c0 (fs_sb s0) i0", folded k_def, folded r_def, folded m_def]
      more I(1,2,4) j blk by (simp add: c0_def [symmetric] del: BLOCK_def)
qed

context block_device
begin

lemma write_base_cases:
  assumes s: "volume_ok D ready s" and run: "write_base D i idx m p s = (r, s')"
    and p: "p \<noteq> 0 \<Longrightarrow> in_data (fs_sb s) p"
  obtains (err) e where "r = Err e" "same_meta s s'" "content (fs_dev s') = content (fs_dev s)"
  | (ok) blk where "r = Ok blk" "volume_ok D ready s'" "same_meta s s'" "content (fs_dev s') = content (fs_dev s)" "length blk = BLOCK"
      "\<And>j. j < BLOCK \<Longrightarrow> blk ! j = (if m < BLOCK \<and> p \<noteq> 0 \<and> idx * BLOCK + j < unat (i_size i) then content (fs_dev s) p ! j else 0)"
proof (cases "m < BLOCK \<and> p \<noteq> 0")
  case False
  then show ?thesis using ok [of "replicate BLOCK 0"] s run by (auto simp: write_base_def)
next
  case True
  obtain q s1 where q: "read_data_block D p s = (q, s1)" by force
  note one = reads_asD [OF reads_data_block s q]
  show ?thesis
  proof (cases q)
    case (Inl e)
    then show ?thesis using err run True q one(2,3) by (auto simp: write_base_def fs_bind_def Let_def)
  next
    case (Inr blk)
    have blk: "blk = content (fs_dev s) p" "length blk = BLOCK" using one(4) Inr p True s content_length [of "fs_dev s" p]
      by (auto simp: data_in_def volume_ok_def in_data_def)
    show ?thesis
    proof (rule ok)
      show "r = Ok (take (min (unat (i_size i) - idx * BLOCK) BLOCK) blk @ replicate (BLOCK - min (unat (i_size i) - idx * BLOCK) BLOCK) 0)"
        using run True q Inr by (auto simp: write_base_def fs_bind_def Let_def)
      show "volume_ok D ready s'" "same_meta s s'" "content (fs_dev s') = content (fs_dev s)"
        using run True q Inr one(1-3) by (auto simp: write_base_def fs_bind_def Let_def)
    qed (use True blk in \<open>auto simp: nth_append\<close>)
  qed
qed

lemma write_new_block_cases:
  assumes s: "volume_ok D ready s" and nb: "in_data (fs_sb s) nb" and len: "length blk = BLOCK"
    and run: "write_new_block D nb blk s = (r, s')"
  obtains (ok) "r = Ok ()" "volume_ok D ready s'" "same_meta s s'" "content (fs_dev s') = (content (fs_dev s))(nb := blk)"
  | (err) x where "r = Err Io" "fs_sb s' = fs_sb s" "content (fs_dev s') = (content (fs_dev s))(nb := x)" "\<forall>b. b \<noteq> nb \<longrightarrow> fs_bit s' b = fs_bit s b"
proof -
  obtain q s1 where q: "dev_write D nb blk s = (q, s1)" by force
  have lt: "nb < total_blocks (fs_sb s)" using nb by (simp add: in_data_def)
  from s lt len q show ?thesis
  proof (cases rule: dev_write_cases)
    case ok
    then show ?thesis using that(1) run q by (simp add: write_new_block_def)
  next
    case (err k)
    have "fs_bit (free_block nb s1) b = fs_bit s b" if "b \<noteq> nb" for b
    proof -
      have "unat nb div 8 < length (fs_bitmap s1)" using in_data_index [OF s nb] err(2) by (simp add: same_meta_def)
      then have "fs_bit (free_block nb s1) b = fs_bit s1 b" using that by (simp add: free_block_def fs_bit_set)
      then show ?thesis using err(2) by (simp add: fs_bit_def same_meta_def)
    qed
    then show ?thesis using that(2) run q err by (auto simp: write_new_block_def same_meta_def)
  qed
qed

text \<open>One turn either fails, with the used blocks as they were, or moves the invariant on.\<close>

lemma write_turn_cases:
  assumes s0: "volume_ok D ready s0" and s: "volume_ok D ready s" and mk: "file_marked (content (fs_dev s0)) s0 i0"
    and inv: "write_inv content s0 i0 off data fin ws s"
    and more: "w_done ws < length data" and top: "off + length data \<le> NDIRECT * BLOCK"
    and run: "write_turn D off data ws s = (r, s')"
  obtains (err) e where "r = Err e" "fs_sb s' = fs_sb s0" "used_kept (content (fs_dev s0)) s0 (content (fs_dev s'))"
  | (ok) ws' where "r = Ok ws'" "volume_ok D ready s'" "write_inv content s0 i0 off data (Suc fin) ws' s'"
proof -
  define k where "k = min (length data) (fin * BLOCK - off)"
  define o1 where "o1 = (off + k) mod BLOCK"
  define m where "m = min (BLOCK - o1) (length data - k)"
  define p where "p = i_direct i0 ! fin"
  note S = write_turn_shape [OF inv mk more top, folded k_def, folded o1_def, folded m_def, folded p_def]
  note N = turn_block [OF inv mk more top, folded k_def, folded o1_def, folded m_def, folded p_def]
  have I: "fs_sb s = fs_sb s0" "used_kept (content (fs_dev s0)) s0 (content (fs_dev s))" "\<And>b. fs_bit s0 b \<Longrightarrow> fs_bit s b"
    "w_inode ws = i0\<lparr>i_direct := i_direct (w_inode ws)\<rparr>" "\<not> w_ind_dirty ws"
    using inv by (auto simp: write_inv_def Let_def)
  have g: "geometry (fs_sb s0)" using s0 by (simp add: volume_ok_def)
  have pd: "p \<noteq> 0 \<Longrightarrow> in_data (fs_sb s) p" using S(2) I(1) by simp
  from run show ?thesis unfolding S(6)
  proof (cases rule: fs_bind_cases)
    case (err e)
    show ?thesis by (rule write_base_cases [OF s err(1) pd]) (use that(1) [of e] I(1,2) err(2) in \<open>simp_all add: same_meta_def\<close>)
  next
    case base: (ok blk s1)
    obtain s1: "volume_ok D ready s1" "same_meta s s1" "content (fs_dev s1) = content (fs_dev s)" "length blk = BLOCK"
      and bytes: "\<And>j. j < BLOCK \<Longrightarrow> blk ! j = (if m < BLOCK \<and> p \<noteq> 0 \<and> fin * BLOCK + j < unat (i_size (w_inode ws)) then content (fs_dev s) p ! j else 0)"
      by (rule write_base_cases [OF s base(1) pd]) simp_all
    define new where "new = copy_at o1 (slice_at k m data) blk"
    note N = N [OF s1(4) bytes, folded new_def]
    from base(2) show ?thesis
    proof (cases rule: fs_bind_cases)
      case (err e)
      show ?thesis by (rule alloc_block_cases [OF s1(1) err(1)]) (use that(1) [of e] err(2) I(1,2) s1 in \<open>simp_all add: same_meta_def\<close>)
    next
      case al: (ok nb s2)
      obtain nb: "in_data (fs_sb s0) nb" "\<not> fs_bit s nb" "fs_sb s2 = fs_sb s0" "volume_ok D ready s2" "fs_dev s2 = fs_dev s1" "\<And>b. fs_bit s2 b \<longleftrightarrow> b = nb \<or> fs_bit s b"
        by (rule alloc_block_cases [OF s1(1) al(1)]) (use s1(1,2) I(1) in \<open>simp_all add: fs_bit_def same_meta_def\<close>)
      have nb0: "\<not> fs_bit s0 nb" "nb \<noteq> 0" using I(3) nb(1,2) in_data_nonzero [OF g] by auto
      have nd: "in_data (fs_sb s2) nb" using nb(1,3) by simp
      from al(2) show ?thesis unfolding new_def [symmetric]
      proof (cases rule: fs_bind_cases)
        case (err e)
        show ?thesis by (rule write_new_block_cases [OF nb(4) nd N(1) err(1)])
          (use that(1) [of e] err(2) nb s1(3) used_kept_free [OF I(2) nb(1) nb0(1)] in simp_all)
      next
        case wr: (ok u s3)
        obtain s3: "volume_ok D ready s3" "same_meta s2 s3" "content (fs_dev s3) = (content (fs_dev s))(nb := new)"
          by (rule write_new_block_cases [OF nb(4) nd N(1) wr(1)]) (use nb s1 in simp_all)
        have "write_inv content s0 i0 off data (Suc fin) (turn_ws ws fin m p nb) s3"
        proof (rule write_inv_step [OF inv S(1) _ s3(3) _ nb(1,2) nb0(2) N(2) _ _ _ S(5)])
          show "w_inode (turn_ws ws fin m p nb) = i0\<lparr>i_direct := (i_direct (w_inode ws))[fin := nb]\<rparr>" by (simp add: turn_ws_def) (subst I(4), simp)
        qed (use nb(3,6) s3(2) I(5) in \<open>simp_all add: same_meta_def fs_bit_def turn_ws_def p_def\<close>)
        then show ?thesis using that(2) wr(2) s3(1) by auto
      qed
    qed
  qed
qed

lemma write_loop_result:
  assumes s0: "volume_ok D ready s0" and mk: "file_marked (content (fs_dev s0)) s0 i0" and top: "off + length data \<le> NDIRECT * BLOCK"
    and "volume_ok D ready s" "write_inv content s0 i0 off data fin ws s" "write_loop D off data ws s = (r, s')"
  shows "(\<exists>e. r = Err e \<and> fs_sb s' = fs_sb s0 \<and> used_kept (content (fs_dev s0)) s0 (content (fs_dev s'))) \<or>
    (\<exists>ws' fin'. r = Ok ws' \<and> volume_ok D ready s' \<and> write_inv content s0 i0 off data fin' ws' s' \<and> w_done ws' = length data)"
  using assms(4-6)
proof (induction "length data - w_done ws" arbitrary: fin ws s rule: less_induct)
  case less
  note s = less.prems(1) and inv = less.prems(2) and run = less.prems(3)
  show ?case
  proof (cases "w_done ws < length data")
    case False
    moreover have "w_done ws \<le> length data" using inv by (simp add: write_inv_def Let_def)
    ultimately show ?thesis using run s inv by (auto simp: write_loop.simps [of D off data ws s])
  next
    case True
    obtain q s1 where q: "write_turn D off data ws s = (q, s1)" by force
    show ?thesis
    proof (rule write_turn_cases [OF s0 s mk inv True top q])
      fix e assume "q = Err e" "fs_sb s1 = fs_sb s0" "used_kept (content (fs_dev s0)) s0 (content (fs_dev s1))"
      then show ?thesis using run q True by (auto simp: write_loop.simps [of D off data ws s])
    next
      fix ws1 assume ok: "q = Ok ws1" "volume_ok D ready s1" "write_inv content s0 i0 off data (Suc fin) ws1 s1"
      have "fin * BLOCK < off + length data"
        using write_position(2) [of BLOCK "w_done ws" "length data" fin off] inv True by (simp add: write_inv_def Let_def)
      then have "fin < 12" using top by simp
      moreover have "length (w_old ws1) \<le> length [off div BLOCK..<Suc fin]"
        using ok(3) by (simp add: write_inv_def Let_def del: upt_Suc) (metis length_filter_le length_map length_upt)
      ultimately have "length (w_old ws1) \<noteq> CHUNK" unfolding length_upt by simp
      then have "write_loop D off data ws1 s1 = (r, s')" using run q ok(1) True by (simp add: write_loop.simps [of D off data ws s])
      moreover have "w_done ws < w_done ws1" using write_turn_progress q ok(1) True by blast
      ultimately show ?thesis using less.hyps [OF _ ok(2,3)] True by simp
    qed
  qed
qed

end

section \<open>The commit\<close>

text \<open>Only inode \<open>ino\<close> of the table may have changed, and nothing outside the table.\<close>

definition table_kept :: "superblock \<Rightarrow> u32 \<Rightarrow> (u64 \<Rightarrow> u8 list) \<Rightarrow> (u64 \<Rightarrow> u8 list) \<Rightarrow> bool" where
  "table_kept sb ino c c' \<longleftrightarrow>
     (\<forall>b. b < inode_start sb \<or> data_start sb \<le> b \<longrightarrow> c' b = c b) \<and> (\<forall>ino'. ino' \<noteq> ino \<longrightarrow> inode_in c' sb ino' = inode_in c sb ino')"

lemma inode_slots:
  assumes "geometry sb" "inode_pos sb ino = Ok (blk, off)" "inode_pos sb ino' = Ok (blk, off')" "ino' \<noteq> ino"
  shows "off' + 128 \<le> off \<or> off + 128 \<le> off'"
proof -
  note a = inode_pos_bounds(7,8) [OF assms(1,2)] and b = inode_pos_bounds(7,8) [OF assms(1,3)]
  have "unat ino mod 16 \<noteq> unat ino' mod 16" using a(1) b(1) assms(4) by (metis add_left_cancel div_mult_mod_eq word_unat_eq_iff)
  then show ?thesis using a(2) b(2) by (auto simp: neq_iff)
qed

lemma inode_in_sector:
  assumes "geometry sb" "inode_pos sb ino = Ok (blk, off)"
  shows "off + 128 \<le> 512 * Suc (off div 512)"
proof -
  have off: "off = unat ino mod 16 * 128" using inode_pos_bounds(8) [OF assms] .
  define n where "n = unat ino mod 16"
  have "n * 128 div 512 = n div 4" using div_mult_mult1_if [of 128 n 4] by (simp add: mult.commute)
  moreover have "n < 4 * Suc (n div 4)" by simp
  ultimately show ?thesis by (simp add: off n_def [symmetric])
qed

text \<open>An inode written over its slot, possibly torn: it is the new one or the one before, and no other changes.\<close>

lemma table_write:
  fixes k :: nat
  assumes g: "geometry sb" and pos: "inode_pos sb ino = Ok (blk, off)" and len: "length (c blk) = BLOCK" and i: "inode_wf i \<or> i = inode_free"
  defines "new \<equiv> copy_at off (inode_encode i (slice_at off INODE_SIZE (c blk))) (c blk)"
  shows "length new = BLOCK" "table_kept sb ino c (c(blk := torn k new (c blk)))" "inode_in (c(blk := new)) sb ino = Ok i"
    "inode_in (c(blk := torn k new (c blk))) sb ino = Ok i \<or> inode_in (c(blk := torn k new (c blk))) sb ino = inode_in c sb ino"
proof -
  note P = inode_pos_bounds [OF g pos]
  let ?e = "inode_encode i (slice_at off INODE_SIZE (c blk))"
  have di: "length (i_direct i) = NDIRECT" using i by (auto simp: inode_wf_def inode_free_def)
  have le: "length ?e = 128" using di P(3) len by simp
  show ln: "length new = BLOCK" unfolding new_def using le P(3) len by simp
  have same: "slice_at off 128 new = ?e" unfolding new_def using le P(3) len by (intro slice_copy_same) auto
  have dec: "inode_decode ?e = Ok i" using i inode_roundtrip [of "slice_at off INODE_SIZE (c blk)" i] inode_free_roundtrip [of "slice_at off INODE_SIZE (c blk)" i] P(3) len
    by (auto simp: inode_free_def)
  show "inode_in (c(blk := new)) sb ino = Ok i" using pos same dec by (simp add: inode_in_def)
  show "inode_in (c(blk := torn k new (c blk))) sb ino = Ok i \<or> inode_in (c(blk := torn k new (c blk))) sb ino = inode_in c sb ino"
    using slice_torn [OF ln len, of off 128 k] P(3) inode_in_sector [OF g pos] pos same dec by (auto simp: inode_in_def)
  have "inode_in (c(blk := torn k new (c blk))) sb ino' = inode_in c sb ino'" if "ino' \<noteq> ino" for ino'
  proof (cases "inode_pos sb ino'")
    case (Inr q)
    then obtain blk' off' where q: "inode_pos sb ino' = Ok (blk', off')" by (cases q) auto
    show ?thesis
    proof (cases "blk' = blk")
      case True
      note Q = inode_pos_bounds [OF g q]
      have "slice_at off' 128 new = slice_at off' 128 (c blk)" unfolding new_def
        using inode_slots [OF g pos q [unfolded True] that] le P(3) len by (intro slice_copy_other) auto
      then show ?thesis using slice_torn [OF ln len, of off' 128 k] Q(3) inode_in_sector [OF g q] q True by (auto simp: inode_in_def)
    qed (use q in \<open>simp add: inode_in_def\<close>)
  qed (simp add: inode_in_def)
  then show "table_kept sb ino c (c(blk := torn k new (c blk)))" using P(1,2) by (auto simp: table_kept_def)
qed

text \<open>The blocks of the bitmap and what is written to them.\<close>

definition bitmap_pos :: "superblock \<Rightarrow> nat \<Rightarrow> u64" where
  "bitmap_pos sb i = bitmap_start sb + word_of_nat i"

definition bitmap_image :: "u8 list \<Rightarrow> nat \<Rightarrow> u8 list" where
  "bitmap_image bm i = copy_at 0 (slice_at (i * BLOCK) (min (i * BLOCK + BLOCK) (length bm) - i * BLOCK) bm) (replicate BLOCK 0)"

lemma length_bitmap_image [simp]: "length (bitmap_image bm i) = BLOCK"
proof -
  have "length (slice_at (i * BLOCK) (min (i * BLOCK + BLOCK) (length bm) - i * BLOCK) bm) \<le> BLOCK" by (simp add: slice_at_def)
  then show ?thesis by (simp add: bitmap_image_def)
qed

lemma bitmap_pos_bounds:
  assumes g: "geometry sb" and i: "i < unat (bitmap_blocks sb)"
  shows "unat (bitmap_pos sb i) = Suc i" "bitmap_pos sb i < inode_start sb" "bitmap_pos sb i < total_blocks sb"
proof -
  note G = geometry_bounds [OF g]
  have "bitmap_start sb = 1" using g by (simp add: geometry_def)
  moreover have "Suc i < 2 ^ 64" using i G(5) unat_less_64 [of "inode_start sb"] by simp
  ultimately show u: "unat (bitmap_pos sb i) = Suc i" by (simp add: bitmap_pos_def unat_add_no_overflow unat_word_of_nat_64)
  then show "bitmap_pos sb i < inode_start sb" using i G(5) by (simp add: word_less_nat_alt)
  then show "bitmap_pos sb i < total_blocks sb" using G(1,3) by simp
qed

lemma write_bitmap_shape:
  assumes "volume_ok D ready s"
  shows "write_bitmap D s = fs_for [0..<unat (bitmap_blocks (fs_sb s))] (\<lambda>i. dev_write D (bitmap_pos (fs_sb s) i) (bitmap_image (fs_bitmap s) i)) s"
    "i < unat (bitmap_blocks (fs_sb s)) \<Longrightarrow> bitmap_pos (fs_sb s) i < total_blocks (fs_sb s)"
    "i < unat (bitmap_blocks (fs_sb s)) \<Longrightarrow> bitmap_pos (fs_sb s) i < inode_start (fs_sb s)"
    "length (bitmap_image (fs_bitmap s) i) = BLOCK"
proof -
  show "write_bitmap D s = fs_for [0..<unat (bitmap_blocks (fs_sb s))] (\<lambda>i. dev_write D (bitmap_pos (fs_sb s) i) (bitmap_image (fs_bitmap s) i)) s"
    by (simp add: write_bitmap_def bitmap_pos_def bitmap_image_def Let_def)
qed (use assms bitmap_pos_bounds [of "fs_sb s" i] in \<open>simp_all add: volume_ok_def\<close>)

context block_device
begin

lemma write_inode_cases:
  assumes s: "volume_ok D ready s" and i: "inode_wf i \<or> i = inode_free" and run: "write_inode D ino i s = (r, s')"
  defines "c \<equiv> content (fs_dev s)" and "c' \<equiv> content (fs_dev s')" and "sb \<equiv> fs_sb s"
  shows "same_meta s s' \<and> table_kept sb ino c c' \<and> (inode_in c' sb ino = Ok i \<or> inode_in c' sb ino = inode_in c sb ino) \<and>
    (r = Ok () \<longrightarrow> volume_ok D ready s' \<and> inode_in c' sb ino = Ok i)"
proof (cases "inode_pos sb ino")
  case (Inl e)
  then show ?thesis using run by (auto simp: write_inode_def fs_bind_def c_def c'_def sb_def table_kept_def)
next
  case (Inr p)
  then obtain blk off where p: "inode_pos sb ino = Ok (blk, off)" by (cases p) auto
  have g: "geometry sb" using s by (simp add: volume_ok_def sb_def)
  have lt: "blk < total_blocks (fs_sb s)" using inode_pos_bounds(2) [OF g p] geometry_bounds(1) [OF g] by (simp add: sb_def)
  have run1: "fs_bind (dev_read D blk) (\<lambda>buf. dev_write D blk (copy_at off (inode_encode i (slice_at off INODE_SIZE buf)) buf)) s = (r, s')"
    using run p by (simp add: write_inode_def fs_bind_def sb_def)
  from run1 show ?thesis
  proof (cases rule: fs_bind_cases)
    case (err e)
    then show ?thesis using dev_read_spec [OF s lt err(1)] by (auto simp: c_def c'_def table_kept_def)
  next
    case (ok buf s1)
    note rd = dev_read_spec [OF s lt ok(1)]
    have buf: "buf = c blk" "volume_ok D ready s1" "same_meta s s1" "content (fs_dev s1) = c" using rd by (auto simp: c_def)
    have len: "length (c blk) = BLOCK" using content_length [of "fs_dev s" blk] s lt by (auto simp: volume_ok_def c_def)
    define new where "new = copy_at off (inode_encode i (slice_at off INODE_SIZE (c blk))) (c blk)"
    note T = table_write [where c = c, OF g p len i, folded new_def]
    have lt1: "blk < total_blocks (fs_sb s1)" using lt buf(3) by (simp add: same_meta_def)
    show ?thesis
    proof (rule dev_write_cases [OF buf(2) lt1 T(1) ok(2) [unfolded buf(1), folded new_def]])
      assume "r = Ok ()" "volume_ok D ready s'" "same_meta s1 s'" "content (fs_dev s') = (content (fs_dev s1))(blk := new)"
      moreover have "torn 4 new (c blk) = new" using T(1) len by simp
      ultimately show ?thesis using T(2) [of 4] T(3) buf same_meta_trans by (auto simp: c'_def)
    next
      fix k assume "r = Err Io" "same_meta s1 s'" "content (fs_dev s') = (content (fs_dev s1))(blk := torn k new (content (fs_dev s1) blk))"
      then show ?thesis using T(2,4) [of k] buf same_meta_trans by (auto simp: c'_def)
    qed
  qed
qed

lemma fs_for_writes:
  assumes "volume_ok D ready s" "\<And>i. i \<in> set is \<Longrightarrow> f i = dev_write D (g i) (h i) \<and> g i < total_blocks (fs_sb s) \<and> length (h i) = BLOCK"
    and "fs_for is f s = (r, s')"
  shows "same_meta s s' \<and> (\<forall>b. b \<notin> g ` set is \<longrightarrow> content (fs_dev s') b = content (fs_dev s) b) \<and> (r = Ok () \<longrightarrow> volume_ok D ready s')"
  using assms
proof (induction "is" arbitrary: s)
  case (Cons i "is")
  have w: "f i = dev_write D (g i) (h i)" "g i < total_blocks (fs_sb s)" "length (h i) = BLOCK" using Cons.prems(2) [of i] by auto
  from Cons.prems(3) have "fs_bind (f i) (\<lambda>_. fs_for is f) s = (r, s')" by simp
  then show ?case
  proof (cases rule: fs_bind_cases)
    case (err e)
    show ?thesis by (rule dev_write_cases [OF Cons.prems(1) w(2,3) err(1) [unfolded w(1)]]) (use err in auto)
  next
    case (ok a s1)
    obtain s1: "volume_ok D ready s1" "same_meta s s1" "content (fs_dev s1) = (content (fs_dev s))(g i := h i)"
      by (rule dev_write_cases [OF Cons.prems(1) w(2,3) ok(1) [unfolded w(1)]]) auto
    have "f j = dev_write D (g j) (h j) \<and> g j < total_blocks (fs_sb s1) \<and> length (h j) = BLOCK" if "j \<in> set is" for j
      using Cons.prems(2) [of j] that s1(2) by (simp add: same_meta_def)
    from Cons.IH [OF s1(1) this ok(2)] show ?thesis using s1 same_meta_trans by auto
  qed
qed (simp add: fs_simps)

lemma write_bitmap_result:
  assumes s: "volume_ok D ready s" and run: "write_bitmap D s = (r, s')"
  shows "same_meta s s' \<and> (\<forall>b. inode_start (fs_sb s) \<le> b \<longrightarrow> content (fs_dev s') b = content (fs_dev s) b) \<and> (r = Ok () \<longrightarrow> volume_ok D ready s')"
proof -
  note B = write_bitmap_shape [OF s]
  have "same_meta s s' \<and> (\<forall>b. b \<notin> bitmap_pos (fs_sb s) ` set [0..<unat (bitmap_blocks (fs_sb s))] \<longrightarrow> content (fs_dev s') b = content (fs_dev s) b)
      \<and> (r = Ok () \<longrightarrow> volume_ok D ready s')"
    by (rule fs_for_writes [OF s _ run [unfolded B(1)]]) (use B(2,4) in auto)
  moreover have "b \<notin> bitmap_pos (fs_sb s) ` set [0..<unat (bitmap_blocks (fs_sb s))]" if "inode_start (fs_sb s) \<le> b" for b
    using B(3) that by (auto simp: not_less [symmetric])
  ultimately show ?thesis by blast
qed

end

text \<open>A file whose blocks hold what they held reads as before.\<close>

lemma file_byte_kept:
  assumes "file_marked c s i" "\<And>b. in_data (fs_sb s) b \<Longrightarrow> fs_bit s b \<Longrightarrow> c' b = c b"
  shows "file_byte c' (fs_sb s) i = file_byte c (fs_sb s) i"
proof
  fix q
  have "ptr_in c' (fs_sb s) i idx = ptr_in c (fs_sb s) i idx" for idx
    using assms by (auto simp: file_marked_def ptr_in_def data_in_def)
  moreover have "data_in c' (fs_sb s) p = data_in c (fs_sb s) p" if "ptr_in c (fs_sb s) i idx = Ok p" "p \<noteq> 0" for idx p
    using assms that by (auto simp: file_marked_def data_in_def)
  ultimately have "file_block c' (fs_sb s) i (q div BLOCK) = file_block c (fs_sb s) i (q div BLOCK)"
    by (auto simp: file_block_def try_bind_def split: sum.splits)
  then show "file_byte c' (fs_sb s) i q = file_byte c (fs_sb s) i q" by (simp add: file_byte_def)
qed

text \<open>The file described by the inode that the loop has built.\<close>

lemma written_file:
  assumes inv: "write_inv content s0 i0 off data fin ws s" and "w_done ws = length data" "data \<noteq> []" and top: "off + length data \<le> NDIRECT * BLOCK"
    and mk: "file_marked (content (fs_dev s0)) s0 i0" and kept: "\<And>b. in_data (fs_sb s0) b \<Longrightarrow> c' b = content (fs_dev s) b"
  shows "file_byte c' (fs_sb s0) (w_inode ws) q = new_byte (file_byte (content (fs_dev s0)) (fs_sb s0) i0) (unat (i_size i0)) off data q"
proof -
  define c0 where "c0 = content (fs_dev s0)"
  define sb where "sb = fs_sb s0"
  define d where "d = i_direct (w_inode ws)"
  define idx where "idx = q div BLOCK"
  note I = inv [unfolded write_inv_def Let_def, folded c0_def sb_def d_def]
  have iw: "w_inode ws = i0\<lparr>i_direct := d\<rparr>" and uk: "used_kept c0 s0 (content (fs_dev s))" using I by auto
  have "w_done ws = min (length data) (fin * BLOCK - off)" using I by blast
  then have "length data \<le> fin * BLOCK - off" "0 < length data" using assms(2,3) by simp_all
  then have stop: "off + length data \<le> fin * BLOCK" by linarith
  have q: "q = idx * BLOCK + q mod BLOCK" "q mod BLOCK < BLOCK" by (simp_all add: idx_def)
  show ?thesis
  proof (cases "off div BLOCK \<le> idx \<and> idx < fin \<and> idx < NDIRECT")
    case True
    then have p: "in_data sb (d ! idx)" "d ! idx \<noteq> 0"
      "Some (content (fs_dev s) (d ! idx) ! (q mod BLOCK)) = new_byte (file_byte c0 sb i0) (unat (i_size i0)) off data (idx * BLOCK + q mod BLOCK)"
      using I q(2) by auto
    have "file_byte c' sb (w_inode ws) q = Some (c' (d ! idx) ! (q mod BLOCK))"
      using True p(1,2) iw by (simp add: file_byte_def file_block_def ptr_in_direct data_in_def idx_def)
    then show ?thesis using p kept [of "d ! idx"] q(1) by (simp add: c0_def sb_def)
  next
    case False
    then have out: "\<not> (off div BLOCK \<le> idx \<and> idx * BLOCK < off + length data)" using stop top mult_le_mono1 [of fin idx BLOCK] by auto
    moreover have "\<not> (off \<le> q \<and> q < off + length data)" using out div_le_mono [of off q BLOCK] q by (auto simp: idx_def)
    ultimately have "new_byte old len off data q = old q" for old len by (auto simp: new_byte_def idx_def)
    moreover have "ptr_in c' sb (w_inode ws) idx = ptr_in c' sb i0 idx" using False I iw by (auto simp: ptr_in_def)
    then have "file_byte c' sb (w_inode ws) q = file_byte c' sb i0 q" by (simp add: file_byte_def file_block_def idx_def)
    moreover have "file_byte c' sb i0 q = file_byte c0 sb i0 q"
      using file_byte_kept [OF mk, of c'] uk kept by (simp add: c0_def sb_def used_kept_def)
    ultimately show ?thesis by (simp add: c0_def sb_def)
  qed
qed

section \<open>The outcome of a write\<close>

definition written :: "(u64 \<Rightarrow> u8 list) \<Rightarrow> superblock \<Rightarrow> inode \<Rightarrow> nat \<Rightarrow> u8 list \<Rightarrow> u8 option list" where
  "written c sb i off data =
     map (new_byte (file_byte c sb i) (unat (i_size i)) off data) [0..<max (unat (i_size i)) (off + length data)]"

text \<open>Every block of the data area that is in use and every inode but \<open>ino\<close> are as before.\<close>

definition others_kept :: "(u64 \<Rightarrow> u8 list) \<Rightarrow> 'd fs \<Rightarrow> u32 \<Rightarrow> (u64 \<Rightarrow> u8 list) \<Rightarrow> bool" where
  "others_kept c s ino c' \<longleftrightarrow> (\<forall>b. in_data (fs_sb s) b \<longrightarrow> fs_bit s b \<longrightarrow> c' b = c b) \<and>
     (\<forall>ino'. ino' \<noteq> ino \<longrightarrow> inode_in c' (fs_sb s) ino' = inode_in c (fs_sb s) ino')"

definition write_result :: "'d block_dev \<Rightarrow> ('d \<Rightarrow> bool) \<Rightarrow> ('d \<Rightarrow> u64 \<Rightarrow> u8 list) \<Rightarrow> 'd fs \<Rightarrow> u32 \<Rightarrow> inode \<Rightarrow> nat \<Rightarrow> u8 list \<Rightarrow>
    (fs_error, nat) result \<Rightarrow> 'd fs \<Rightarrow> bool" where
  "write_result D ready content s ino i off data r s' \<longleftrightarrow>
     (let c = content (fs_dev s); c' = content (fs_dev s'); sb = fs_sb s in
      fs_sb s' = sb \<and> others_kept c s ino c' \<and>
      (contents c' sb ino = contents c sb ino \<or> contents c' sb ino = Some (written c sb i off data)) \<and>
      (\<forall>n. r = Ok n \<longrightarrow> n = length data \<and> contents c' sb ino = Some (written c sb i off data) \<and> volume_ok D ready s'))"

lemma write_result_same:
  assumes "same_meta s s1" "content (fs_dev s1) = content (fs_dev s)" "write_result D ready content s1 ino i off data r s'"
  shows "write_result D ready content s ino i off data r s'"
  using assms by (auto simp: write_result_def Let_def same_meta_def others_kept_def fs_bit_def)

lemma inode_in_kept:
  assumes "geometry sb" "\<And>b. inode_start sb \<le> b \<Longrightarrow> b < data_start sb \<Longrightarrow> c' b = c b"
  shows "inode_in c' sb ino = inode_in c sb ino"
proof (cases "inode_pos sb ino")
  case (Inr p)
  then show ?thesis using inode_pos_bounds(1,2) [OF assms(1)] assms(2) by (cases p) (auto simp: inode_in_def)
qed (simp add: inode_in_def)

lemma file_byte_meta [simp]: "file_byte c sb (i\<lparr>i_size := n, i_generation := g\<rparr>) = file_byte c sb i"
  by (simp add: file_byte_def file_block_def ptr_in_def fun_eq_iff)

lemma contents_kept:
  assumes "inode_in c' (fs_sb s) ino = Ok i" "inode_in c (fs_sb s) ino = Ok i" "file_marked c s i"
    "\<And>b. in_data (fs_sb s) b \<Longrightarrow> fs_bit s b \<Longrightarrow> c' b = c b"
  shows "contents c' (fs_sb s) ino = contents c (fs_sb s) ino"
  using assms(1,2) file_byte_kept [OF assms(3,4)] by (simp add: contents_def)

lemma used_kept_others:
  assumes "used_kept c s c'" "geometry (fs_sb s)"
  shows "inode_in c' (fs_sb s) ino' = inode_in c (fs_sb s) ino'" "others_kept c s ino c'"
proof -
  show "inode_in c' (fs_sb s) ino' = inode_in c (fs_sb s) ino'" for ino'
    using assms by (intro inode_in_kept) (auto simp: used_kept_def in_data_def not_le)
  then show "others_kept c s ino c'" using assms(1) by (simp add: others_kept_def used_kept_def)
qed

lemma write_inv_start:
  assumes "inode_wf i"
  shows "write_inv content s i off data (off div BLOCK)
    \<lparr>w_inode = i, w_old = [], w_done = 0, w_ind = ind, w_ind_loaded = b, w_ind_dirty = False\<rparr> s"
  using assms div_times_less_eq_dividend [of off BLOCK] by (auto simp: write_inv_def Let_def used_kept_def inode_wf_def)

lemma file_byte_data:
  assumes "\<And>b. in_data sb b \<Longrightarrow> c' b = c b"
  shows "file_byte c' sb i = file_byte c sb i"
proof -
  have d: "data_in c' sb b = data_in c sb b" for b using assms by (simp add: data_in_def)
  then have "ptr_in c' sb i idx = ptr_in c sb i idx" for idx by (simp add: ptr_in_def)
  then show ?thesis using d by (simp add: file_byte_def file_block_def fun_eq_iff cong: if_cong)
qed

text \<open>The bitmap blocks come before the inode table: what is written there changes no file.\<close>

lemma tail_kept:
  assumes "geometry sb" "\<And>b. inode_start sb \<le> b \<Longrightarrow> c' b = c b"
  shows "contents c' sb ino = contents c sb ino" "inode_in c' sb ino = inode_in c sb ino" "in_data sb b \<Longrightarrow> c' b = c b"
proof -
  show i: "inode_in c' sb ino = inode_in c sb ino" using assms by (intro inode_in_kept)
  show d: "c' b = c b" if "in_data sb b" for b using that geometry_bounds(3) [OF assms(1)] by (intro assms(2)) (auto simp: in_data_def)
  show "contents c' sb ino = contents c sb ino" using i file_byte_data [of sb c' c, OF d] by (simp add: contents_def cong: sum.case_cong)
qed

lemma commit_outcome:
  assumes g: "geometry (fs_sb s0)" and ino: "inode_in (content (fs_dev s0)) (fs_sb s0) ino = Ok i" and mk: "file_marked (content (fs_dev s0)) s0 i"
    and inv: "write_inv content s0 i off data fin ws s" and all: "w_done ws = length data" "data \<noteq> []" and top: "off + length data \<le> NDIRECT * BLOCK"
    and i2: "i2 = (w_inode ws)\<lparr>i_size := n, i_generation := gen\<rparr>" "unat n = max (unat (i_size i)) (off + length data)"
  defines "c \<equiv> content (fs_dev s0)" and "sb \<equiv> fs_sb s0"
  assumes c3: "table_kept sb ino (content (fs_dev s)) c3" "inode_in c3 sb ino = Ok i2 \<or> inode_in c3 sb ino = inode_in (content (fs_dev s)) sb ino"
  shows "others_kept c s0 ino c3" "contents c3 sb ino = contents c sb ino \<or> contents c3 sb ino = Some (written c sb i off data)"
    "inode_in c3 sb ino = Ok i2 \<Longrightarrow> contents c3 sb ino = Some (written c sb i off data)"
proof -
  have uk: "used_kept c s0 (content (fs_dev s))" using inv by (simp add: write_inv_def Let_def c_def)
  note U = used_kept_others [OF uk g]
  have data: "c3 b = content (fs_dev s) b" if "in_data sb b" for b using c3(1) that by (simp add: table_kept_def in_data_def)
  have kept: "c3 b = c b" if "in_data sb b" "fs_bit s0 b" for b using data that uk by (simp add: used_kept_def)
  show "others_kept c s0 ino c3" unfolding others_kept_def using kept c3(1) U(1) by (simp add: table_kept_def sb_def)
  show new: "contents c3 sb ino = Some (written c sb i off data)" if "inode_in c3 sb ino = Ok i2"
    using that written_file [OF inv all top mk, of c3] data i2
    by (simp add: contents_def written_def c_def sb_def fun_eq_iff)
  show "contents c3 sb ino = contents c sb ino \<or> contents c3 sb ino = Some (written c sb i off data)"
    using c3(2) new contents_kept [of c3 s0 ino i c] kept mk ino U(1) by (auto simp: c_def sb_def)
qed

lemma fold_free_fields:
  "fs_dev (fold free_block bs s) = fs_dev s \<and> fs_sb (fold free_block bs s) = fs_sb s \<and> volume_ok D ready (fold free_block bs s) = volume_ok D ready s"
  by (induction bs arbitrary: s) simp_all

lemma write_inv_wf: "write_inv content s0 i off data fin ws s \<Longrightarrow> inode_wf i \<Longrightarrow> inode_wf ((w_inode ws)\<lparr>i_size := n, i_generation := g\<rparr>)"
  by (simp add: write_inv_def Let_def inode_wf_def) (metis inode.select_convs(1) inode.surjective inode.update_convs(3))

lemma write_chunk_shape:
  assumes "read_inode D ino s = (Ok i, s1)" "inode_kind i = Some File" "data \<noteq> []" "unat offset + length data \<le> NDIRECT * BLOCK"
  shows "write_chunk D ino offset data s =
    fs_bind (write_loop D (unat offset) data
      \<lparr>w_inode = i, w_old = [], w_done = 0, w_ind = replicate BLOCK 0, w_ind_loaded = False, w_ind_dirty = False\<rparr>) (write_commit D ino offset) s1"
proof -
  have "checked_add offset (word_of_nat (length data)) = Some (offset + word_of_nat (length data))"
    "\<not> unat (offset + word_of_nat (length data)) > MAX_FILE"
    using assms(4) by (simp_all add: checked_add_def unat_word_of_nat_64 unat_add_no_overflow)
  then show ?thesis using assms(1-3) unfolding write_chunk_def fs_bind_def [of "read_inode D ino"] by (simp del: MAX_FILE_def BLOCK_def)
qed

context block_device
begin

lemma write_commit_result:
  assumes s0: "volume_ok D ready s0" and ino: "inode_in (content (fs_dev s0)) (fs_sb s0) ino = Ok i" and mk: "file_marked (content (fs_dev s0)) s0 i"
    and s: "volume_ok D ready s" and inv: "write_inv content s0 i off data fin ws s" and all: "w_done ws = length data" "data \<noteq> []"
    and top: "off + length data \<le> NDIRECT * BLOCK" and off: "off = unat offset" and wf: "inode_wf i"
    and run: "write_commit D ino offset ws s = (r, s')"
  shows "write_result D ready content s0 ino i off data r s'"
proof -
  define c where "c = content (fs_dev s0)"
  define c' where "c' = content (fs_dev s')"
  define sb where "sb = fs_sb s0"
  define n where "n = max (i_size (w_inode ws)) (offset + word_of_nat (w_done ws))"
  define i2 where "i2 = (w_inode ws)\<lparr>i_size := n, i_generation := i_generation (w_inode ws) + 1\<rparr>"
  have g: "geometry (fs_sb s0)" using s0 by (simp add: volume_ok_def)
  have I: "fs_sb s = sb" "w_inode ws = i\<lparr>i_direct := i_direct (w_inode ws)\<rparr>" "length (i_direct (w_inode ws)) = NDIRECT"
    using inv by (auto simp: write_inv_def Let_def sb_def)
  have wf2: "inode_wf i2 \<or> i2 = inode_free" using write_inv_wf [OF inv wf] by (simp add: i2_def)
  have sz: "i_size (w_inode ws) = i_size i" by (subst I(2)) simp
  have "unat (offset + word_of_nat (length data)) = off + length data" using top off by (simp add: unat_add_no_overflow unat_word_of_nat_64)
  then have n: "unat n = max (unat (i_size i)) (off + length data)" using all(1) sz by (simp add: n_def max_def word_le_nat_alt)
  have "\<not> w_ind_dirty ws" using inv by (simp add: write_inv_def Let_def)
  then have run: "fs_bind (write_inode D ino i2) (\<lambda>_. fs_bind (fs_modify (fold free_block (w_old ws))) (\<lambda>_.
      fs_bind (write_bitmap D) (\<lambda>_. fs_return (w_done ws)))) s = (r, s')"
    using run by (simp add: write_commit_def n_def i2_def fs_bind_def [of "fs_return ()"])
  note C = commit_outcome [OF g ino mk inv all top i2_def n, folded c_def sb_def]
  from run show ?thesis
  proof (cases rule: fs_bind_cases)
    case (err e)
    note W = write_inode_cases [OF s wf2 err(1)]
    then show ?thesis using C(1,2) [of "content (fs_dev s')"] err(2) I(1) by (simp add: write_result_def Let_def same_meta_def c'_def c_def sb_def)
  next
    case (ok u s3)
    note W = write_inode_cases [OF s wf2 ok(1)]
    have s3: "volume_ok D ready s3" "fs_sb s3 = sb" using W I(1) by (auto simp: same_meta_def)
    note C3 = C [of "content (fs_dev s3)"]
    define s4 where "s4 = fold free_block (w_old ws) s3"
    have s4: "fs_dev s4 = fs_dev s3" "fs_sb s4 = sb" "volume_ok D ready s4" using fold_free_fields [of "w_old ws" s3 D ready] s3 by (simp_all add: s4_def)
    obtain q where q: "write_bitmap D s4 = (q, s')" "\<forall>m. r = Ok m \<longrightarrow> q = Ok () \<and> m = w_done ws"
      using ok(2) by (auto simp: fs_modify_def fs_bind_def s4_def [symmetric] split: prod.splits sum.splits)
    note B = write_bitmap_result [OF s4(3) q(1)]
    have "c' b = content (fs_dev s3) b" if "inode_start sb \<le> b" for b using B s4 that by (simp add: c'_def)
    note T = tail_kept [of sb c' "content (fs_dev s3)", OF g [folded sb_def] this]
    have "others_kept c s0 ino c'" using C3(1) W T(2,3) I(1) by (auto simp: others_kept_def sb_def)
    then show ?thesis using C3(2,3) W T(1) I(1) B q(2) s4 all(1)
      by (auto simp: write_result_def Let_def same_meta_def c'_def [symmetric] c_def [symmetric] sb_def [symmetric])
  qed
qed

lemma write_chunk_result:
  assumes s: "volume_ok D ready s" and ino: "inode_in (content (fs_dev s)) (fs_sb s) ino = Ok i" and kind: "inode_kind i = Some File"
    and mk: "file_marked (content (fs_dev s)) s i" and top: "unat offset + length data \<le> NDIRECT * BLOCK" and data: "data \<noteq> []"
    and run: "write_chunk D ino offset data s = (r, s')"
  shows "write_result D ready content s ino i (unat offset) data r s'"
proof -
  have g: "geometry (fs_sb s)" using s by (simp add: volume_ok_def)
  have wf: "inode_wf i" using inode_decode_wf [of _ i] ino kind
    by (fastforce simp: inode_in_def try_bind_Ok_iff inode_kind_def inode_free_def)
  from run [unfolded write_chunk_def] show ?thesis
  proof (cases rule: fs_bind_cases)
    case (err e)
    then show ?thesis using reads_asD [OF reads_inode s err(1)] by (simp add: write_result_def Let_def same_meta_def others_kept_def)
  next
    case (ok j s1)
    note R = reads_asD [OF reads_inode s ok(1)]
    have j: "j = i" using R(4) ino by auto
    define ws0 where "ws0 = \<lparr>w_inode = i, w_old = [], w_done = 0, w_ind = replicate BLOCK 0, w_ind_loaded = False, w_ind_dirty = False\<rparr>"
    have s1: "inode_in (content (fs_dev s1)) (fs_sb s1) ino = Ok i" "file_marked (content (fs_dev s1)) s1 i"
      using R ino mk by (simp_all add: same_meta_def file_marked_def fs_bit_def)
    note inv0 = write_inv_start [OF wf, of content s1 "unat offset" data "replicate BLOCK 0" False, folded ws0_def]
    have "fs_bind (write_loop D (unat offset) data ws0) (write_commit D ino offset) s1 = (r, s')"
      using run write_chunk_shape [OF ok(1) [unfolded j] kind data top, folded ws0_def] by simp
    then have "write_result D ready content s1 ino i (unat offset) data r s'"
    proof (cases rule: fs_bind_cases)
      case (err e)
      then have "fs_sb s' = fs_sb s1" "used_kept (content (fs_dev s1)) s1 (content (fs_dev s'))"
        using write_loop_result [OF R(1) s1(2) top R(1) inv0 err(1)] by auto
      moreover note used_kept_others [OF this(2)]
      ultimately show ?thesis using err(2) g R(2) contents_kept [OF _ s1, of "content (fs_dev s')"] s1(1)
        by (simp add: write_result_def Let_def same_meta_def others_kept_def)
    next
      case (ok ws s2)
      then obtain fin where L: "volume_ok D ready s2" "write_inv content s1 i (unat offset) data fin ws s2" "w_done ws = length data"
        using write_loop_result [OF R(1) s1(2) top R(1) inv0 ok(1)] by auto
      then show ?thesis using write_commit_result [OF R(1) s1 L data top refl wf ok(2)] by simp
    qed
    then show ?thesis using write_result_same R(2,3) by blast
  qed
qed

lemma write_outcome:
  assumes "volume_ok D ready s" "inode_in (content (fs_dev s)) (fs_sb s) ino = Ok i" "inode_kind i = Some File"
    "file_marked (content (fs_dev s)) s i" "unat offset + length data \<le> NDIRECT * BLOCK" "data \<noteq> []"
    "fs_write D ino offset data s = (r, s')"
  shows "write_result D ready content s ino i (unat offset) data r s'"
proof -
  obtain q t where q: "write_chunk D ino offset data s = (q, t)" by force
  note C = write_chunk_result [OF assms(1-6) q]
  show ?thesis
  proof (cases q)
    case (Inl e)
    then show ?thesis using C q assms(7) by (simp add: fs_write.simps [of D ino offset data s])
  next
    case (Inr n)
    then have "n = length data" using C by (simp add: write_result_def Let_def)
    then show ?thesis using C q Inr assms(7) by (simp add: fs_write.simps [of D ino offset data s])
  qed
qed

end

section \<open>Properties\<close>

text \<open>
  C3. A write to the first \<open>NDIRECT\<close> blocks of a file is atomic: on any device that keeps the contract, whichever of
  its reads and writes fails and however the failing write is torn, the contents of the file on the disk are then the
  old ones or all of the new ones. When the call succeeds it reports all bytes and the contents are the new ones.
\<close>

theorem write_atomic:
  assumes "block_device D ready content" "volume_ok D ready s" "inode_in (content (fs_dev s)) (fs_sb s) ino = Ok i"
    "inode_kind i = Some File" "file_marked (content (fs_dev s)) s i" "unat offset + length data \<le> NDIRECT * BLOCK" "data \<noteq> []"
    "fs_write D ino offset data s = (r, s')"
  shows "case r of
      Inr n \<Rightarrow> n = length data \<and>
        contents (content (fs_dev s')) (fs_sb s) ino = Some (written (content (fs_dev s)) (fs_sb s) i (unat offset) data)
    | Inl e \<Rightarrow> contents (content (fs_dev s')) (fs_sb s) ino
        \<in> {contents (content (fs_dev s)) (fs_sb s) ino, Some (written (content (fs_dev s)) (fs_sb s) i (unat offset) data)}"
  using block_device.write_outcome [OF assms] by (auto simp: write_result_def Let_def split: sum.splits)


text \<open>A volume of eight blocks with two empty files, on a disk that fails at its second write after two sectors.\<close>

definition demo_sb :: superblock where
  "demo_sb = \<lparr>total_blocks = 8, bitmap_start = 1, bitmap_blocks = 1, inode_start = 2, inode_blocks = 1, data_start = 3,
     inode_count = 4, sb_generation = 1\<rparr>"

definition demo_inode :: inode where
  "demo_inode = \<lparr>i_kind = 1, i_size = 0, i_direct = replicate 12 0, i_indirect = 0, i_generation = 1\<rparr>"

definition demo_table :: "u8 list" where
  "demo_table = copy_at 384 (inode_encode demo_inode (replicate 128 0)) (copy_at 256 (inode_encode demo_inode (replicate 128 0)) (replicate 2048 0))"

definition demo_fs :: "(nat \<times> nat) option \<Rightarrow> mem_disk fs" where
  "demo_fs failure = \<lparr>fs_dev = \<lparr>disk_data = replicate 4096 0 @ demo_table @ replicate 10240 0, disk_writes = 0, disk_cut = failure\<rparr>,
     fs_sb = demo_sb, fs_bitmap = replicate 8192 0, fs_repairs = 0\<rparr>"

lemma demo_geometry: "geometry demo_sb"
  by (simp add: geometry_def demo_sb_def div_ceil_def)

lemma length_demo_table: "length demo_table = 2048"
  by (simp add: demo_table_def demo_inode_def)

lemma demo_volume: "volume_ok mem_dev mem_ready (demo_fs failure)"
  using demo_geometry by (simp add: volume_ok_def demo_fs_def mem_dev_def mem_ready_def mem_block_count_def length_demo_table demo_sb_def)

lemma demo_inodes: "ino \<in> {2, 3} \<Longrightarrow> inode_in (mem_content (fs_dev (demo_fs failure))) (fs_sb (demo_fs failure)) ino = Ok demo_inode"
proof -
  assume ino: "ino \<in> {2, 3}"
  have enc: "length (inode_encode demo_inode (replicate 128 0)) = 128" by (simp add: demo_inode_def)
  have dec: "inode_decode (inode_encode demo_inode (replicate 128 0)) = Ok demo_inode"
    by (rule inode_roundtrip) (simp_all add: inode_wf_def demo_inode_def)
  have "slice_at 256 128 demo_table = inode_encode demo_inode (replicate 128 0)" "slice_at 384 128 demo_table = inode_encode demo_inode (replicate 128 0)"
    by (simp_all add: demo_table_def enc slice_copy_same slice_copy_other)
  moreover have "mem_content (fs_dev (demo_fs failure)) 2 = demo_table"
    by (simp add: mem_content_def demo_fs_def slice_at_def length_demo_table)
  ultimately show ?thesis using ino dec by (auto simp: inode_in_def inode_pos_def demo_fs_def demo_sb_def)
qed

lemma demo_marked: "file_marked c (demo_fs failure) demo_inode"
  by (auto simp: file_marked_def ptr_in_def demo_inode_def nth_replicate split: if_splits)

lemma demo_kind: "inode_kind demo_inode = Some File"
  by (simp add: inode_kind_def demo_inode_def)

definition demo_crash :: "mem_disk fs" where
  "demo_crash = demo_fs (Some (1, 2))"

lemma demo_crash_facts: "fs_sb demo_crash = demo_sb" "volume_ok mem_dev mem_ready demo_crash" "file_marked c demo_crash demo_inode"
  "inode_in (mem_content (fs_dev demo_crash)) demo_sb 2 = Ok demo_inode" "inode_in (mem_content (fs_dev demo_crash)) demo_sb 3 = Ok demo_inode"
proof -
  show sb: "fs_sb demo_crash = demo_sb" by (simp add: demo_crash_def demo_fs_def)
  show "volume_ok mem_dev mem_ready demo_crash" "file_marked c demo_crash demo_inode"
    by (simp_all only: demo_crash_def demo_volume demo_marked)
  show "inode_in (mem_content (fs_dev demo_crash)) demo_sb 2 = Ok demo_inode" "inode_in (mem_content (fs_dev demo_crash)) demo_sb 3 = Ok demo_inode"
    using demo_inodes [of 2 "Some (1, 2)", folded demo_crash_def] demo_inodes [of 3 "Some (1, 2)", folded demo_crash_def] sb by simp_all
qed

lemma write_atomic_witness:
  "case fs_write mem_dev 2 0 [1, 2, 3] demo_crash of
     (Inr n, s') \<Rightarrow> n = 3 \<and>
       contents (mem_content (fs_dev s')) demo_sb 2 = Some (written (mem_content (fs_dev demo_crash)) demo_sb demo_inode 0 [1, 2, 3])
   | (Inl e, s') \<Rightarrow> contents (mem_content (fs_dev s')) demo_sb 2
       \<in> {contents (mem_content (fs_dev demo_crash)) demo_sb 2, Some (written (mem_content (fs_dev demo_crash)) demo_sb demo_inode 0 [1, 2, 3])}"
proof -
  obtain r s' where run: "fs_write mem_dev 2 0 [1, 2, 3] demo_crash = (r, s')" by force
  show ?thesis
    using write_atomic [OF mem.block_device_axioms demo_crash_facts(2) _ demo_kind demo_crash_facts(3) _ _ run] demo_crash_facts(1,4)
    by (simp add: run split: sum.splits)
qed


end
