(* ===== verification/Nexofs_Total.thy ===== *)
theory Nexofs_Total
  imports Nexofs_Crash
begin

text \<open>
  Reading and writing on a device that does not fail: the operations then succeed whenever the disk is well formed and
  has room, and what was written is read back.
\<close>

section \<open>Devices that answer\<close>

locale reliable_device = block_device D ready content
  for D :: "'d block_dev" and ready :: "'d \<Rightarrow> bool" and content :: "'d \<Rightarrow> u64 \<Rightarrow> u8 list" +
  assumes read_total: "ready d \<Longrightarrow> b < block_count D d \<Longrightarrow> \<exists>buf d'. read_block D d b = (Ok buf, d')"
    and write_total: "ready d \<Longrightarrow> b < block_count D d \<Longrightarrow> length buf = BLOCK \<Longrightarrow> \<exists>d'. write_block D d b buf = (Ok (), d')"
begin

lemma dev_read_ok:
  assumes "volume_ok D ready s" "b < total_blocks (fs_sb s)"
  shows "\<exists>s'. dev_read D b s = (Ok (content (fs_dev s) b), s')"
proof -
  have "ready (fs_dev s)" "b < block_count D (fs_dev s)" using assms by (auto simp: volume_ok_def intro: less_le_trans)
  then obtain buf d where r: "read_block D (fs_dev s) b = (Ok buf, d)" using read_total by blast
  then have "dev_read D b s = (Ok buf, s\<lparr>fs_dev := d\<rparr>)" by (simp add: dev_read_def)
  moreover from dev_read_spec [OF assms this] have "buf = content (fs_dev s) b" by simp
  ultimately show ?thesis by blast
qed

lemma dev_write_ok:
  assumes "volume_ok D ready s" "b < total_blocks (fs_sb s)" "length buf = BLOCK"
  shows "\<exists>s'. dev_write D b buf s = (Ok (), s')"
proof -
  have "ready (fs_dev s)" "b < block_count D (fs_dev s)" using assms by (auto simp: volume_ok_def intro: less_le_trans)
  then obtain d where "write_block D (fs_dev s) b buf = (Ok (), d)" using write_total assms(3) by blast
  then show ?thesis by (simp add: dev_write_def)
qed

lemma read_data_block_ok:
  assumes "volume_ok D ready s" "in_data (fs_sb s) b"
  shows "\<exists>s'. read_data_block D b s = (Ok (content (fs_dev s) b), s')"
  using assms dev_read_ok [of s b] by (auto simp: read_data_block_def in_data_def not_le not_less)

lemma read_inode_ok:
  assumes s: "volume_ok D ready s"
  shows "\<exists>s'. read_inode D ino s = (inode_in (content (fs_dev s)) (fs_sb s) ino, s')"
proof (cases "inode_pos (fs_sb s) ino")
  case (Inr p)
  then obtain blk off where p: "inode_pos (fs_sb s) ino = Ok (blk, off)" by (cases p) auto
  have "blk < total_blocks (fs_sb s)" using inode_pos_bounds(2) [OF _ p] geometry_bounds(1) [of "fs_sb s"] s by (auto simp: volume_ok_def)
  from dev_read_ok [OF s this] show ?thesis using p by (auto simp: read_inode_def fs_bind_def inode_in_def)
qed (simp add: read_inode_def fs_bind_def inode_in_def)

lemma block_ptr_ok:
  assumes s: "volume_ok D ready s"
  shows "\<exists>s'. block_ptr D i idx s = (ptr_in (content (fs_dev s)) (fs_sb s) i idx, s')"
proof (cases "idx < NDIRECT \<or> idx - NDIRECT \<ge> PTRS_PER_BLOCK \<or> i_indirect i = 0")
  case True
  then show ?thesis by (auto simp: block_ptr_def ptr_in_def Let_def)
next
  case False
  show ?thesis
  proof (cases "in_data (fs_sb s) (i_indirect i)")
    case True
    from read_data_block_ok [OF s this] False show ?thesis using True by (auto simp: block_ptr_def ptr_in_def fs_bind_def data_in_def Let_def)
  next
    case out: False
    then have "read_data_block D (i_indirect i) s = (Err (Corrupted ''ponteiro de bloco fora da area de dados''), s)"
      by (auto simp: read_data_block_def in_data_def not_le not_less)
    then show ?thesis using False out by (auto simp: block_ptr_def ptr_in_def fs_bind_def data_in_def Let_def)
  qed
qed

section \<open>Reading\<close>

lemma read_loop_ok:
  assumes "volume_ok D ready s" "\<And>j. k \<le> j \<Longrightarrow> j < n \<Longrightarrow> file_byte (content (fs_dev s)) (fs_sb s) i (offset + j) \<noteq> None"
  shows "\<exists>out s'. read_loop D i offset n k buf s = (Ok out, s')"
  using assms
proof (induction "n - k" arbitrary: k buf s rule: less_induct)
  case less
  show ?case
  proof (cases "k < n")
    case False
    then show ?thesis by (simp add: read_loop.simps [of D i offset n k])
  next
    case True
    let ?c = "content (fs_dev s)" and ?idx = "(offset + k) div BLOCK"
    define m where "m = min (BLOCK - (offset + k) mod BLOCK) (n - k)"
    have m: "0 < m" using True by (simp add: m_def)
    have "file_byte ?c (fs_sb s) i (offset + k) \<noteq> None" using less.prems(2) [of k] True by simp
    then obtain blk where blk: "file_block ?c (fs_sb s) i ?idx = Ok blk" by (auto simp: file_byte_def split: sum.splits)
    then obtain p where p: "ptr_in ?c (fs_sb s) i ?idx = Ok p" "p = 0 \<or> in_data (fs_sb s) p"
      by (auto simp: file_block_def try_bind_Ok_iff data_in_def split: if_splits)
    obtain s1 where s1: "block_ptr D i ?idx s = (Ok p, s1)" using block_ptr_ok [OF less.prems(1), of i ?idx] p(1) by auto
    note R = reads_asD [OF reads_block_ptr less.prems(1) s1]
    have again: "\<exists>out s'. read_loop D i offset n (k + m) buf' t = (Ok out, s')" if "volume_ok D ready t" "same_meta s t" "content (fs_dev t) = ?c" for buf' t
      using that less.prems(2) m True by (intro less.hyps) (auto simp: same_meta_def)
    show ?thesis
    proof (cases "p = 0")
      case True
      then show ?thesis using again [OF R(1-3)] s1 \<open>k < n\<close> by (simp add: read_loop.simps [of D i offset n k] Let_def m_def)
    next
      case False
      then have "in_data (fs_sb s1) p" using p(2) R(2) by (simp add: same_meta_def)
      from read_data_block_ok [OF R(1) this] obtain s2 where s2: "read_data_block D p s1 = (Ok (content (fs_dev s1) p), s2)" by blast
      note R2 = reads_asD [OF reads_data_block R(1) s2]
      have "same_meta s s2" "content (fs_dev s2) = ?c" using R R2 same_meta_trans by auto
      from again [OF R2(1) this] show ?thesis using s1 s2 False \<open>k < n\<close> by (simp add: read_loop.simps [of D i offset n k] Let_def m_def)
    qed
  qed
qed

end

section \<open>Writing\<close>

definition free_blocks :: "'d fs \<Rightarrow> u64 set" where
  "free_blocks s = {b. in_data (fs_sb s) b \<and> \<not> fs_bit s b}"

text \<open>The number of blocks that a write of \<open>n\<close> bytes at \<open>off\<close> touches.\<close>

definition touched :: "nat \<Rightarrow> nat \<Rightarrow> nat" where
  "touched off n = div_ceil (off + n) BLOCK - off div BLOCK"

lemma free_blocks_inv:
  assumes inv: "write_inv content s0 i0 off data fin ws s"
  shows "card (free_blocks s0) \<le> card (free_blocks s) + (fin - off div BLOCK)"
proof -
  define d where "d = i_direct (w_inode ws)"
  let ?new = "(\<lambda>idx. d ! idx) ` {off div BLOCK..<fin}"
  have I: "fs_sb s = fs_sb s0" "\<And>b. fs_bit s b \<longleftrightarrow> fs_bit s0 b \<or> (\<exists>idx. off div BLOCK \<le> idx \<and> idx < fin \<and> b = d ! idx)"
    using inv unfolding write_inv_def Let_def d_def by blast+
  have "free_blocks s0 \<subseteq> free_blocks s \<union> ?new" using I by (auto simp: free_blocks_def)
  then have "card (free_blocks s0) \<le> card (free_blocks s \<union> ?new)" by (intro card_mono) auto
  also have "\<dots> \<le> card (free_blocks s) + card ?new" by (rule card_Un_le)
  also have "card ?new \<le> fin - off div BLOCK" using card_image_le [of "{off div BLOCK..<fin}" "\<lambda>idx. d ! idx"] by simp
  finally show ?thesis by simp
qed

context reliable_device
begin

lemma alloc_block_ok:
  assumes "volume_ok D ready s" "free_blocks s \<noteq> {}"
  shows "\<exists>b s'. alloc_block s = (Ok b, s')"
proof -
  obtain r s' where r: "alloc_block s = (r, s')" by force
  show ?thesis by (rule alloc_block_cases [OF assms(1) r]) (use assms(2) r in \<open>auto simp: free_blocks_def\<close>)
qed

lemma write_base_ok:
  assumes "volume_ok D ready s" "p \<noteq> 0 \<Longrightarrow> in_data (fs_sb s) p"
  shows "\<exists>blk s'. write_base D i idx m p s = (Ok blk, s')"
  using read_data_block_ok [OF assms(1), of p] assms(2) by (auto simp: write_base_def fs_bind_def Let_def)

lemma write_turn_ok:
  assumes s0: "volume_ok D ready s0" and s: "volume_ok D ready s" and mk: "file_marked (content (fs_dev s0)) s0 i0"
    and inv: "write_inv content s0 i0 off data fin ws s"
    and more: "w_done ws < length data" and top: "off + length data \<le> NDIRECT * BLOCK" and free: "free_blocks s \<noteq> {}"
  shows "\<exists>ws' s'. write_turn D off data ws s = (Ok ws', s')"
proof -
  define k where "k = min (length data) (fin * BLOCK - off)"
  define o1 where "o1 = (off + k) mod BLOCK"
  define m where "m = min (BLOCK - o1) (length data - k)"
  define p where "p = i_direct i0 ! fin"
  note S = write_turn_shape [OF inv mk more top, folded k_def, folded o1_def, folded m_def, folded p_def]
  note N = turn_block [OF inv mk more top, folded k_def, folded o1_def, folded m_def, folded p_def]
  have sb: "fs_sb s = fs_sb s0" using inv by (simp add: write_inv_def Let_def)
  have pd: "p \<noteq> 0 \<Longrightarrow> in_data (fs_sb s) p" using S(2) sb by simp
  obtain blk s1 where base: "write_base D (w_inode ws) fin m p s = (Ok blk, s1)" using write_base_ok [OF s pd] by blast
  obtain s1: "volume_ok D ready s1" "same_meta s s1" "length blk = BLOCK"
    and bytes: "\<And>j. j < BLOCK \<Longrightarrow> blk ! j = (if m < BLOCK \<and> p \<noteq> 0 \<and> fin * BLOCK + j < unat (i_size (w_inode ws)) then content (fs_dev s) p ! j else 0)"
    by (rule write_base_cases [OF s base pd]) simp_all
  have "free_blocks s1 \<noteq> {}" using free s1(2) by (simp add: free_blocks_def same_meta_def fs_bit_def)
  then obtain nb s2 where al: "alloc_block s1 = (Ok nb, s2)" using alloc_block_ok [OF s1(1)] by blast
  obtain nb: "in_data (fs_sb s2) nb" "volume_ok D ready s2" by (rule alloc_block_cases [OF s1(1) al]) (use s1 in simp_all)
  have "nb < total_blocks (fs_sb s2)" using nb(1) by (simp add: in_data_def)
  from dev_write_ok [OF nb(2) this N(1) [OF s1(3) bytes]] show ?thesis
    unfolding S(6) using base al by (auto simp: fs_bind_def write_new_block_def)
qed

lemma write_loop_ok:
  assumes s0: "volume_ok D ready s0" and mk: "file_marked (content (fs_dev s0)) s0 i0" and top: "off + length data \<le> NDIRECT * BLOCK"
    and room: "touched off (length data) \<le> card (free_blocks s0)"
    and "volume_ok D ready s" "write_inv content s0 i0 off data fin ws s"
  shows "\<exists>ws' s'. write_loop D off data ws s = (Ok ws', s')"
  using assms(5-6)
proof (induction "length data - w_done ws" arbitrary: fin ws s rule: less_induct)
  case less
  note s = less.prems(1) and inv = less.prems(2)
  show ?case
  proof (cases "w_done ws < length data")
    case True
    have "fin * BLOCK < off + length data" "off div BLOCK \<le> fin"
      using write_position(2) [of BLOCK "w_done ws" "length data" fin off] inv True by (simp_all add: write_inv_def Let_def)
    then have "fin - off div BLOCK < touched off (length data)" by (simp add: touched_def less_div_ceil_iff diff_less_mono)
    then have "card (free_blocks s) \<noteq> 0" using free_blocks_inv [OF inv] room by linarith
    then have "free_blocks s \<noteq> {}" by auto
    from write_turn_ok [OF s0 s mk inv True top this] obtain ws1 s1 where t: "write_turn D off data ws s = (Ok ws1, s1)" by blast
    obtain s1: "volume_ok D ready s1" "write_inv content s0 i0 off data (Suc fin) ws1 s1"
      by (rule write_turn_cases [OF s0 s mk inv True top t]) simp_all
    have "length data - w_done ws1 < length data - w_done ws" using write_turn_progress [OF t True] True by simp
    from less.hyps [OF this s1] show ?thesis using t True by (auto simp: write_loop.simps [of D off data ws s])
  qed (simp add: write_loop.simps [of D off data ws s])
qed

lemma write_inode_ok:
  assumes s: "volume_ok D ready s" and i: "inode_wf i \<or> i = inode_free" and ino: "ino \<noteq> 0" "ino < inode_count (fs_sb s)"
  shows "\<exists>s'. write_inode D ino i s = (Ok (), s')"
proof -
  obtain blk off where p: "inode_pos (fs_sb s) ino = Ok (blk, off)" using ino by (auto simp: inode_pos_def Let_def not_le [symmetric])
  have g: "geometry (fs_sb s)" using s by (simp add: volume_ok_def)
  have lt: "blk < total_blocks (fs_sb s)" using inode_pos_bounds(2) [OF g p] geometry_bounds(1) [OF g] by simp
  obtain s1 where s1: "dev_read D blk s = (Ok (content (fs_dev s) blk), s1)" using dev_read_ok [OF s lt] by blast
  note R = dev_read_spec [OF s lt s1]
  have len: "length (content (fs_dev s) blk) = BLOCK" using content_length [of "fs_dev s" blk] s lt by (auto simp: volume_ok_def)
  have "\<exists>s'. dev_write D blk (copy_at off (inode_encode i (slice_at off INODE_SIZE (content (fs_dev s) blk))) (content (fs_dev s) blk)) s1 = (Ok (), s')"
    using R lt table_write(1) [of "fs_sb s" ino blk off "content (fs_dev s)" i, OF g p len i] by (intro dev_write_ok) (simp_all add: same_meta_def)
  then show ?thesis using p s1 by (auto simp: write_inode_def fs_bind_def)
qed

lemma fs_for_ok:
  assumes "volume_ok D ready s" "\<And>i. i \<in> set is \<Longrightarrow> f i = dev_write D (g i) (h i) \<and> g i < total_blocks (fs_sb s) \<and> length (h i) = BLOCK"
  shows "\<exists>s'. fs_for is f s = (Ok (), s')"
  using assms
proof (induction "is" arbitrary: s)
  case (Cons i "is")
  have w: "f i = dev_write D (g i) (h i)" "g i < total_blocks (fs_sb s)" "length (h i) = BLOCK" using Cons.prems(2) [of i] by auto
  obtain s1 where s1: "dev_write D (g i) (h i) s = (Ok (), s1)" using dev_write_ok [OF Cons.prems(1) w(2,3)] by blast
  obtain "volume_ok D ready s1" "same_meta s s1" by (rule dev_write_cases [OF Cons.prems(1) w(2,3) s1]) auto
  then have "\<exists>s'. fs_for is f s1 = (Ok (), s')" using Cons.prems(2) by (intro Cons.IH) (auto simp: same_meta_def)
  then show ?case using s1 w(1) by (auto simp: fs_bind_def)
qed simp

lemma write_bitmap_ok: "volume_ok D ready s \<Longrightarrow> \<exists>s'. write_bitmap D s = (Ok (), s')"
  unfolding write_bitmap_shape(1) by (rule fs_for_ok) (use write_bitmap_shape in auto)

lemma write_commit_ok:
  assumes s: "volume_ok D ready s" and ino: "ino \<noteq> 0" "ino < inode_count (fs_sb s)"
    and inv: "write_inv content s0 i off data fin ws s" and wf: "inode_wf i"
  shows "\<exists>n s'. write_commit D ino offset ws s = (Ok n, s')"
proof -
  define i2 where "i2 = (w_inode ws)\<lparr>i_size := max (i_size (w_inode ws)) (offset + word_of_nat (w_done ws)), i_generation := i_generation (w_inode ws) + 1\<rparr>"
  have wf2: "inode_wf i2 \<or> i2 = inode_free" using write_inv_wf [OF inv wf] by (simp add: i2_def)
  obtain s1 where s1: "write_inode D ino i2 s = (Ok (), s1)" using write_inode_ok [OF s wf2 ino] by blast
  then have "volume_ok D ready (fold free_block (w_old ws) s1)" using write_inode_cases [OF s wf2 s1] fold_free_fields by blast
  then obtain s2 where "write_bitmap D (fold free_block (w_old ws) s1) = (Ok (), s2)" using write_bitmap_ok by blast
  moreover have "\<not> w_ind_dirty ws" using inv by (simp add: write_inv_def Let_def)
  ultimately show ?thesis using s1 by (simp add: write_commit_def i2_def [symmetric] fs_bind_def fs_modify_def)
qed

lemma fs_write_ok:
  assumes s: "volume_ok D ready s" and ino: "inode_in (content (fs_dev s)) (fs_sb s) ino = Ok i" and kind: "inode_kind i = Some File"
    and mk: "file_marked (content (fs_dev s)) s i" and top: "unat offset + length data \<le> NDIRECT * BLOCK" and data: "data \<noteq> []"
    and room: "touched (unat offset) (length data) \<le> card (free_blocks s)"
  shows "\<exists>s'. fs_write D ino offset data s = (Ok (length data), s')"
proof -
  obtain s1 where s1: "read_inode D ino s = (Ok i, s1)" using read_inode_ok [OF s, of ino] ino by auto
  note R = reads_asD [OF reads_inode s s1]
  define ws0 where "ws0 = \<lparr>w_inode = i, w_old = [], w_done = 0, w_ind = replicate BLOCK 0, w_ind_loaded = False, w_ind_dirty = False\<rparr>"
  have wf: "inode_wf i" using inode_decode_wf [of _ i] ino kind
    by (fastforce simp: inode_in_def try_bind_Ok_iff inode_kind_def inode_free_def)
  have mk1: "file_marked (content (fs_dev s1)) s1 i" "free_blocks s1 = free_blocks s" "fs_sb s1 = fs_sb s"
    using R(2,3) mk by (simp_all add: file_marked_def free_blocks_def same_meta_def fs_bit_def)
  note inv0 = write_inv_start [OF wf, of content s1 "unat offset" data "replicate BLOCK 0" False, folded ws0_def]
  obtain ws s2 where ws: "write_loop D (unat offset) data ws0 s1 = (Ok ws, s2)"
    using write_loop_ok [OF R(1) mk1(1) top _ R(1) inv0] room mk1(2) by auto
  from write_loop_result [OF R(1) mk1(1) top R(1) inv0 ws]
  obtain fin where inv: "volume_ok D ready s2" "write_inv content s1 i (unat offset) data fin ws s2" by auto
  have "fs_sb s2 = fs_sb s" using inv(2) mk1(3) by (simp add: write_inv_def Let_def)
  moreover have "ino \<noteq> 0" "ino < inode_count (fs_sb s)" using ino by (auto simp: inode_in_def inode_pos_def try_bind_Ok_iff split: if_splits)
  ultimately obtain n s' where c: "write_commit D ino offset ws s2 = (Ok n, s')" using write_commit_ok [OF inv(1) _ _ inv(2) wf, of ino offset] by auto
  have chunk: "write_chunk D ino offset data s = (Ok n, s')"
    using write_chunk_shape [OF s1 kind data top, folded ws0_def] ws c by (simp add: fs_bind_def)
  then have "n = length data" using write_chunk_result [OF s ino kind mk top data chunk] by (simp add: write_result_def Let_def)
  then show ?thesis using chunk by (simp add: fs_write.simps [of D ino offset data s])
qed

text \<open>Reading the bytes that have just been written.\<close>

lemma read_back:
  assumes s: "volume_ok D ready s" and c: "contents (content (fs_dev s)) (fs_sb s) ino = Some (written c0 sb0 i0 (unat offset) data)"
    and buf: "length buf = length data" "data \<noteq> []"
  shows "\<exists>s'. fs_read D ino offset buf s = (Ok (length data, data), s')"
proof -
  obtain i where i: "inode_in (content (fs_dev s)) (fs_sb s) ino = Ok i" "map (file_byte (content (fs_dev s)) (fs_sb s) i) [0..<unat (i_size i)] = written c0 sb0 i0 (unat offset) data"
    using c by (auto simp: contents_def split: sum.splits)
  have size: "unat (i_size i) = max (unat (i_size i0)) (unat offset + length data)" using arg_cong [OF i(2), of length] by (simp add: written_def)
  have byte: "file_byte (content (fs_dev s)) (fs_sb s) i (unat offset + j) = Some (data ! j)" if "j < length data" for j
    using arg_cong [OF i(2), of "\<lambda>xs. xs ! (unat offset + j)"] that size by (simp add: written_def new_byte_def)
  have "i \<noteq> inode_free" using size buf(2) by (auto simp: inode_free_def)
  then have kind: "i_kind i \<noteq> 0" using inode_decode_wf [of _ i] i(1) by (auto simp: inode_in_def try_bind_Ok_iff inode_wf_def)
  have lt: "\<not> offset \<ge> i_size i" using size buf(2) by (simp add: word_le_nat_alt)
  obtain s1 where s1: "read_inode D ino s = (Ok i, s1)" using read_inode_ok [OF s, of ino] i(1) by auto
  note R = reads_asD [OF reads_inode s s1]
  have n: "min (length buf) (unat (i_size i - offset)) = length data" using lt size buf(1) by (simp add: unat_sub_le)
  obtain out s2 where out: "read_loop D i (unat offset) (length data) 0 buf s1 = (Ok out, s2)"
    using read_loop_ok [OF R(1), of 0 "length data" i "unat offset" buf] byte R(2,3) by (auto simp: same_meta_def)
  have "out = data" using read_loop_spec [OF R(1) _ out] buf(1) byte R(2,3) by (intro nth_equalityI) (auto simp: same_meta_def)
  moreover have "fs_read D ino offset buf s = (Ok (length data, out), s2)"
    using s1 kind lt n out unfolding fs_read_def fs_bind_def by (simp add: Let_def)
  ultimately show ?thesis by blast
qed

end

section \<open>The in-memory device is reliable while no failure is planned\<close>

definition mem_whole :: "mem_disk \<Rightarrow> bool" where
  "mem_whole d \<longleftrightarrow> mem_ready d \<and> disk_cut d = None"

lemma mem_no_cut: "read_block mem_dev d b = (r, d') \<Longrightarrow> disk_cut d' = disk_cut d" "write_block mem_dev d b buf = (q, d') \<Longrightarrow> disk_cut d' = disk_cut d"
  by (auto simp: mem_dev_def mem_read_block_def mem_write_block_def Let_def split: if_splits option.splits)

interpretation whole: reliable_device mem_dev mem_whole mem_content
proof (unfold_locales, goal_cases)
  case (1 d b)
  then show ?case using mem.content_length by (simp add: mem_whole_def)
next
  case (2 d b r d')
  then show ?case using mem.read_law [OF _ 2(2,3)] mem_no_cut(1) [OF 2(3)] by (simp add: mem_whole_def)
next
  case (3 d b buf u d')
  then show ?case using mem.write_ok_law [OF _ 3(2-4)] mem_no_cut(2) [OF 3(4)] by (simp add: mem_whole_def)
next
  case (4 d b buf e d')
  then show ?case using mem.write_err_law [OF _ 4(2-4)] by (simp add: mem_whole_def)
next
  case (5 d b)
  then show ?case using mem_in_range [of d b] by (simp add: mem_whole_def mem_dev_def mem_read_block_def Let_def)
next
  case (6 d b buf)
  then show ?case using mem_in_range [of d b] by (simp add: mem_whole_def mem_dev_def mem_write_block_def Let_def)
qed

section \<open>Property\<close>

text \<open>
  C15. Writing works: on a device that does not fail, with as many free blocks as the range touches, a write to a regular
  file within the direct blocks reports every byte as written, and a read at the same offset into a buffer of the same
  length then succeeds and returns exactly those bytes.
\<close>

theorem write_then_read:
  assumes "reliable_device D ready content" "volume_ok D ready s" "inode_in (content (fs_dev s)) (fs_sb s) ino = Ok i"
    "inode_kind i = Some File" "file_marked (content (fs_dev s)) s i" "unat offset + length data \<le> NDIRECT * BLOCK" "data \<noteq> []"
    "touched (unat offset) (length data) \<le> card (free_blocks s)" "length buf = length data"
  shows "\<exists>s' s''. fs_write D ino offset data s = (Ok (length data), s') \<and> fs_read D ino offset buf s' = (Ok (length data, data), s'')"
proof -
  obtain s' where run: "fs_write D ino offset data s = (Ok (length data), s')" using reliable_device.fs_write_ok [OF assms(1-8)] by blast
  note W = block_device.write_outcome [OF reliable_device.axioms(1) [OF assms(1)] assms(2-7) run]
  have "\<exists>s''. fs_read D ino offset buf s' = (Ok (length data, data), s'')"
    by (rule reliable_device.read_back [OF assms(1) _ _ assms(9,7)]) (use W in \<open>auto simp: write_result_def Let_def\<close>)
  with run show ?thesis by blast
qed

lemma demo_free: "1 \<le> card (free_blocks (demo_fs None))"
proof -
  have "3 \<in> free_blocks (demo_fs None)" by (simp add: free_blocks_def demo_fs_def fs_bit_def demo_sb_def in_data_def)
  then show ?thesis using card_gt_0_iff [of "free_blocks (demo_fs None)"] by auto
qed

lemma write_then_read_witness:
  "\<exists>s' s''. fs_write mem_dev 2 0 [1, 2, 3] (demo_fs None) = (Ok 3, s') \<and> fs_read mem_dev 2 0 [0, 0, 0] s' = (Ok (3, [1, 2, 3]), s'')"
proof -
  have "volume_ok mem_dev mem_whole (demo_fs None)" using demo_volume [of None] by (simp add: volume_ok_def mem_whole_def demo_fs_def)
  then show ?thesis
    using write_then_read [OF whole.reliable_device_axioms _ demo_inodes demo_kind demo_marked, of None 2 0 "[1, 2, 3]" "[0, 0, 0]"]
      demo_free by (simp add: touched_def div_ceil_def numeral_3_eq_3)
qed

end
