(* ===== verification/Nexofs_Dir.thy ===== *)
theory Nexofs_Dir
  imports Nexofs_Total
begin

text \<open>
  Directories and paths (\<^verbatim>\<open>libraries/nexofs/src/lib.rs\<close>, from \<^verbatim>\<open>for_each_entry\<close> to \<^verbatim>\<open>sync\<close>): a directory is a file of
  64-byte entries, 32 to a block. A closure that the source passes to \<^verbatim>\<open>for_each_entry\<close> is a function on the variables it
  captures, which also says whether to go on. What \<^verbatim>\<open>list\<close> hands to its callback is returned as a list.
\<close>

section \<open>Model\<close>

definition per_block :: nat where [simp]: "per_block = BLOCK div DIRENT_SIZE"

definition dir_entries :: "inode \<Rightarrow> nat" where
  "dir_entries dir = unat (i_size dir div word_of_nat DIRENT_SIZE)"

text \<open>The entries of one block; the flag tells whether the scan goes on.\<close>

fun scan_block :: "nat \<Rightarrow> nat \<Rightarrow> u8 list \<Rightarrow> (nat \<Rightarrow> dirent \<Rightarrow> 'a \<Rightarrow> 'a \<times> bool) \<Rightarrow> nat list \<Rightarrow> 'a \<Rightarrow> (fs_error, 'a \<times> bool) result" where
  "scan_block entries idx blk f [] a = Ok (a, True)"
| "scan_block entries idx blk f (i # is) a =
     (if idx + i \<ge> entries then Ok (a, True)
      else try_bind (dirent_decode (slice_at (i * DIRENT_SIZE) DIRENT_SIZE blk)) (\<lambda>e.
        case e of
          None \<Rightarrow> scan_block entries idx blk f is a
        | Some e \<Rightarrow> (case f (idx + i) e a of (a, go) \<Rightarrow> if go then scan_block entries idx blk f is a else Ok (a, False))))"

function for_each_loop :: "'d block_dev \<Rightarrow> inode \<Rightarrow> (nat \<Rightarrow> dirent \<Rightarrow> 'a \<Rightarrow> 'a \<times> bool) \<Rightarrow> nat \<Rightarrow> 'a \<Rightarrow> ('d, 'a) fsm" where
  "for_each_loop D dir f idx a =
     (if idx < dir_entries dir then
        fs_bind (block_ptr D dir (idx div per_block)) (\<lambda>ptr.
          if ptr = 0 then for_each_loop D dir f (idx + per_block) a
          else fs_bind (read_data_block D ptr) (\<lambda>blk.
               fs_bind (fs_lift (\<lambda>_. scan_block (dir_entries dir) idx blk f [0..<per_block] a)) (\<lambda>(a, go).
               if go then for_each_loop D dir f (idx + per_block) a else fs_return a)))
      else fs_return a)"
  by pat_completeness auto
termination
  by (relation "measure (\<lambda>(D, dir, f, idx, a). dir_entries dir - idx)") auto

declare for_each_loop.simps [simp del]

definition for_each_entry :: "'d block_dev \<Rightarrow> inode \<Rightarrow> (nat \<Rightarrow> dirent \<Rightarrow> 'a \<Rightarrow> 'a \<times> bool) \<Rightarrow> 'a \<Rightarrow> ('d, 'a) fsm" where
  "for_each_entry D dir f a = for_each_loop D dir f 0 a"

definition find_visit :: "u8 list \<Rightarrow> nat \<Rightarrow> dirent \<Rightarrow> (nat \<times> u32) option \<Rightarrow> (nat \<times> u32) option \<times> bool" where
  "find_visit name i e found = (if dirent_name e = name then (Some (i, d_ino e), False) else (found, True))"

definition find_in_dir :: "'d block_dev \<Rightarrow> inode \<Rightarrow> u8 list \<Rightarrow> ('d, (nat \<times> u32) option) fsm" where
  "find_in_dir D dir name = for_each_entry D dir (find_visit name) None"

definition entry_image :: "nat \<Rightarrow> u32 \<Rightarrow> u8 list \<Rightarrow> u8 list \<Rightarrow> u8 list" where
  "entry_image index ino name blk =
     (let off = index mod per_block * DIRENT_SIZE in
      copy_at off (if ino = 0 then replicate DIRENT_SIZE 0 else dirent_encode ino name (slice_at off DIRENT_SIZE blk)) blk)"

definition write_entry :: "'d block_dev \<Rightarrow> inode \<Rightarrow> nat \<Rightarrow> u32 \<Rightarrow> u8 list \<Rightarrow> ('d, unit) fsm" where
  "write_entry D dir index ino name =
     fs_bind (block_ptr D dir (index div per_block)) (\<lambda>ptr.
       if ptr = 0 then fs_fail (Corrupted ''bloco de diretorio ausente'')
       else fs_bind (read_data_block D ptr) (\<lambda>blk. dev_write D ptr (entry_image index ino name blk)))"

subsection \<open>Paths\<close>

fun split_path :: "u8 list \<Rightarrow> u8 list list" where
  "split_path [] = [[]]"
| "split_path (c # cs) =
     (if c = 0x2f then [] # split_path cs
      else case split_path cs of [] \<Rightarrow> [[c]] | part # parts \<Rightarrow> (c # part) # parts)"

fun resolve_loop :: "'d block_dev \<Rightarrow> u8 list list \<Rightarrow> u32 \<Rightarrow> inode \<Rightarrow> ('d, u32 \<times> inode) fsm" where
  "resolve_loop D [] ino i = fs_return (ino, i)"
| "resolve_loop D (part # parts) ino i =
     (if part = [] \<or> part = [0x2e] then resolve_loop D parts ino i
      else if inode_kind i \<noteq> Some Dir then fs_fail NotDir
      else fs_bind (find_in_dir D i part) (\<lambda>found.
        case found of
          None \<Rightarrow> fs_fail NotFound
        | Some (slot, nxt) \<Rightarrow>
            fs_bind (read_inode D nxt) (\<lambda>i.
              if i_kind i = 0 then fs_fail (Corrupted ''entrada aponta para inode livre'')
              else resolve_loop D parts nxt i)))"

definition resolve :: "'d block_dev \<Rightarrow> u8 list \<Rightarrow> ('d, u32 \<times> inode) fsm" where
  "resolve D path =
     fs_bind (read_inode D ROOT_INO) (\<lambda>i.
       if inode_kind i \<noteq> Some Dir then fs_fail (Corrupted ''raiz nao e diretorio'')
       else resolve_loop D (split_path path) ROOT_INO i)"

definition trim_end :: "u8 list \<Rightarrow> u8 list" where
  "trim_end path = rev (dropWhile (\<lambda>c. c = 0x2f) (rev path))"

definition rposition :: "('a \<Rightarrow> bool) \<Rightarrow> 'a list \<Rightarrow> nat option" where
  "rposition P xs = find (\<lambda>i. P (xs ! i)) (rev [0..<length xs])"

definition split_parent :: "u8 list \<Rightarrow> (fs_error, u8 list \<times> u8 list) result" where
  "split_parent path =
     (let trimmed = trim_end path;
          (parent, name) = (case rposition (\<lambda>c. c = 0x2f) trimmed of
                              Some i \<Rightarrow> (take i trimmed, drop (i + 1) trimmed)
                            | None \<Rightarrow> ([], trimmed))
      in try_bind (valid_name name) (\<lambda>_. Ok (parent, name)))"

record stat =
  st_ino :: u32
  st_kind :: kind
  st_size :: u64

definition fs_stat :: "'d block_dev \<Rightarrow> u8 list \<Rightarrow> ('d, stat) fsm" where
  "fs_stat D path =
     fs_bind (resolve D path) (\<lambda>(ino, i).
       case inode_kind i of
         None \<Rightarrow> fs_fail (Corrupted ''tipo'')
       | Some k \<Rightarrow> fs_return \<lparr>st_ino = ino, st_kind = k, st_size = i_size i\<rparr>)"

subsection \<open>Creating and renaming\<close>

definition used_visit :: "nat \<Rightarrow> dirent \<Rightarrow> u8 list \<Rightarrow> u8 list \<times> bool" where
  "used_visit i e used = (used[i div 8 := used ! (i div 8) OR push_bit (i mod 8) 1], True)"

fun find_slot :: "'d block_dev \<Rightarrow> inode \<Rightarrow> u8 list \<Rightarrow> nat list \<Rightarrow> ('d, nat option) fsm" where
  "find_slot D parent used [] = fs_return None"
| "find_slot D parent used (i # is) =
     (if used ! (i div 8) AND push_bit (i mod 8) 1 = 0 then
        fs_bind (block_ptr D parent (i div per_block)) (\<lambda>ptr.
          if ptr \<noteq> 0 then fs_return (Some i) else find_slot D parent used is)
      else find_slot D parent used is)"

text \<open>A directory with no free slot grows by a block of empty entries; the new inode is the commit.\<close>

definition dir_extend :: "'d block_dev \<Rightarrow> u32 \<Rightarrow> inode \<Rightarrow> ('d, nat \<times> inode) fsm" where
  "dir_extend D pino parent =
     (let idx = dir_entries parent div per_block in
      if idx \<ge> NDIRECT then fs_fail NoSpace
      else fs_bind alloc_block (\<lambda>nb.
           fs_bind (dev_write D nb (replicate BLOCK 0)) (\<lambda>_.
           let parent = parent\<lparr>i_direct := (i_direct parent)[idx := nb],
                               i_size := word_of_nat ((idx + 1) * per_block * DIRENT_SIZE),
                               i_generation := i_generation parent + 1\<rparr> in
           fs_bind (write_inode D pino parent) (\<lambda>_.
           fs_bind (write_bitmap D) (\<lambda>_. fs_return (idx * per_block, parent))))))"

definition dir_alloc_slot :: "'d block_dev \<Rightarrow> u32 \<Rightarrow> inode \<Rightarrow> ('d, nat \<times> inode) fsm" where
  "dir_alloc_slot D pino parent =
     fs_bind (for_each_entry D parent used_visit (replicate ((NDIRECT + PTRS_PER_BLOCK) * (BLOCK div DIRENT_SIZE) div 8) 0)) (\<lambda>used.
     fs_bind (find_slot D parent used [0..<dir_entries parent]) (\<lambda>slot.
       case slot of Some i \<Rightarrow> fs_return (i, parent) | None \<Rightarrow> dir_extend D pino parent))"

definition new_inode :: "kind \<Rightarrow> inode" where
  "new_inode k = \<lparr>i_kind = (case k of File \<Rightarrow> 1 | Dir \<Rightarrow> 2), i_size = 0, i_direct = replicate NDIRECT 0, i_indirect = 0, i_generation = 1\<rparr>"

definition fs_create :: "'d block_dev \<Rightarrow> u8 list \<Rightarrow> kind \<Rightarrow> ('d, u32) fsm" where
  "fs_create D path k =
     fs_bind (fs_lift (\<lambda>_. split_parent path)) (\<lambda>(parent_path, name).
     fs_bind (resolve D parent_path) (\<lambda>(pino, parent).
       if inode_kind parent \<noteq> Some Dir then fs_fail NotDir
       else fs_bind (find_in_dir D parent name) (\<lambda>found.
         if found \<noteq> None then fs_fail Exists
         else fs_bind (dir_alloc_slot D pino parent) (\<lambda>(slot, parent).
              fs_bind (alloc_inode D) (\<lambda>ino.
              fs_bind (write_inode D ino (new_inode k)) (\<lambda>_.
              fs_bind (write_entry D parent slot ino name) (\<lambda>_. fs_return ino)))))))"

text \<open>A directory is not moved below itself.\<close>

fun rename_guard :: "'d block_dev \<Rightarrow> u32 \<Rightarrow> u8 list list \<Rightarrow> inode \<Rightarrow> ('d, unit) fsm" where
  "rename_guard D ino [] cur = fs_return ()"
| "rename_guard D ino (part # parts) cur =
     (if part = [] \<or> part = [0x2e] then rename_guard D ino parts cur
      else fs_bind (find_in_dir D cur part) (\<lambda>found.
        case found of
          None \<Rightarrow> fs_fail NotFound
        | Some (slot, nxt) \<Rightarrow>
            if nxt = ino then fs_fail InvalidArgs
            else fs_bind (read_inode D nxt) (rename_guard D ino parts)))"

definition rename_erase :: "'d block_dev \<Rightarrow> u8 list \<Rightarrow> u8 list \<Rightarrow> ('d, unit) fsm" where
  "rename_erase D sparent_path sname =
     fs_bind (resolve D sparent_path) (\<lambda>(_, sparent).
     fs_bind (find_in_dir D sparent sname) (\<lambda>found.
       case found of None \<Rightarrow> fs_fail NotFound | Some (sslot, _) \<Rightarrow> write_entry D sparent sslot 0 []))"

definition rename_move :: "'d block_dev \<Rightarrow> u32 \<Rightarrow> u8 list \<Rightarrow> u8 list \<Rightarrow> u8 list \<Rightarrow> u8 list \<Rightarrow> ('d, unit) fsm" where
  "rename_move D ino sparent_path sname dparent_path dname =
     fs_bind (resolve D dparent_path) (\<lambda>(dpino, dparent).
       if inode_kind dparent \<noteq> Some Dir then fs_fail NotDir
       else fs_bind (find_in_dir D dparent dname) (\<lambda>found.
         if found \<noteq> None then fs_fail Exists
         else fs_bind (dir_alloc_slot D dpino dparent) (\<lambda>(slot, dparent).
              fs_bind (write_entry D dparent slot ino dname) (\<lambda>_.
              rename_erase D sparent_path sname))))"

definition fs_rename :: "'d block_dev \<Rightarrow> u8 list \<Rightarrow> u8 list \<Rightarrow> ('d, unit) fsm" where
  "fs_rename D src dst =
     fs_bind (fs_lift (\<lambda>_. split_parent src)) (\<lambda>(sparent_path, sname).
     fs_bind (fs_lift (\<lambda>_. split_parent dst)) (\<lambda>(dparent_path, dname).
     fs_bind (resolve D sparent_path) (\<lambda>(_, sparent).
       if inode_kind sparent \<noteq> Some Dir then fs_fail NotDir
       else fs_bind (find_in_dir D sparent sname) (\<lambda>found.
         case found of
           None \<Rightarrow> fs_fail NotFound
         | Some (_, ino) \<Rightarrow>
             fs_bind (read_inode D ino) (\<lambda>i.
             fs_bind (if inode_kind i = Some Dir
                      then fs_bind (read_inode D ROOT_INO) (rename_guard D ino (split_path dparent_path))
                      else fs_return ()) (\<lambda>_.
             rename_move D ino sparent_path sname dparent_path dname))))))"

subsection \<open>Removing\<close>

definition indirect_ptrs :: "u8 list \<Rightarrow> u64 list" where
  "indirect_ptrs ind = filter (\<lambda>p. p \<noteq> 0) (map (\<lambda>i. u64_at ind (i * 8)) [0..<PTRS_PER_BLOCK])"

definition release_inode :: "'d block_dev \<Rightarrow> u32 \<Rightarrow> inode \<Rightarrow> ('d, unit) fsm" where
  "release_inode D ino i =
     fs_bind (fs_modify (fold free_block (filter (\<lambda>d. d \<noteq> 0) (i_direct i)))) (\<lambda>_.
     fs_bind (if i_indirect i \<noteq> 0
              then (\<lambda>s. case read_data_block D (i_indirect i) s of
                          (Inl e, s) \<Rightarrow> (Ok (), free_block (i_indirect i) s)
                        | (Inr ind, s) \<Rightarrow> (Ok (), free_block (i_indirect i) (fold free_block (indirect_ptrs ind) s)))
              else fs_return ()) (\<lambda>_.
     write_inode D ino inode_free))"

definition fs_unlink :: "'d block_dev \<Rightarrow> u8 list \<Rightarrow> ('d, unit) fsm" where
  "fs_unlink D path =
     fs_bind (fs_lift (\<lambda>_. split_parent path)) (\<lambda>(parent_path, name).
     fs_bind (resolve D parent_path) (\<lambda>(_, parent).
       if inode_kind parent \<noteq> Some Dir then fs_fail NotDir
       else fs_bind (find_in_dir D parent name) (\<lambda>found.
         case found of
           None \<Rightarrow> fs_fail NotFound
         | Some (slot, ino) \<Rightarrow>
             fs_bind (read_inode D ino) (\<lambda>i.
             fs_bind (if inode_kind i = Some Dir then for_each_entry D i (\<lambda>_ _ _. (False, False)) True else fs_return True) (\<lambda>empty.
             if \<not> empty then fs_fail NotEmpty
             else fs_bind (write_entry D parent slot 0 []) (\<lambda>_.
                  fs_bind (release_inode D ino i) (\<lambda>_. write_bitmap D)))))))"

definition fs_sync :: "'d block_dev \<Rightarrow> ('d, unit) fsm" where
  "fs_sync D =
     fs_bind (write_bitmap D) (\<lambda>_ s.
       case flush D (fs_dev s) of
         (Inl IoError, d) \<Rightarrow> (Err Io, s\<lparr>fs_dev := d\<rparr>)
       | (Inr _, d) \<Rightarrow> (Ok (), s\<lparr>fs_dev := d\<rparr>))"

subsection \<open>Listing\<close>

text \<open>
  A listing fills an array of 64 items, looks their inodes up and starts again after the last of them. The captured
  variables are the position to start from and the part of the array in use.
\<close>

definition list_visit :: "nat \<Rightarrow> dirent \<Rightarrow> nat \<times> (u32 \<times> u8 list) list \<Rightarrow> (nat \<times> (u32 \<times> u8 list) list) \<times> bool" where
  "list_visit i e = (\<lambda>(start, items).
     let (start, items) = (if i \<ge> start \<and> length items < 64 then (i + 1, items @ [(d_ino e, dirent_name e)]) else (start, items))
     in ((start, items), length items < 64))"

fun list_stats :: "'d block_dev \<Rightarrow> (u32 \<times> u8 list) list \<Rightarrow> ('d, (u8 list \<times> stat) list) fsm" where
  "list_stats D [] = fs_return []"
| "list_stats D ((ino, name) # items) =
     fs_bind (read_inode D ino) (\<lambda>i.
       case inode_kind i of
         None \<Rightarrow> fs_fail (Corrupted ''entrada para inode livre'')
       | Some k \<Rightarrow> fs_bind (list_stats D items) (\<lambda>out. fs_return ((name, \<lparr>st_ino = ino, st_kind = k, st_size = i_size i\<rparr>) # out)))"

lemma scan_block_inv:
  assumes step: "\<And>i e a. idx + i < entries \<Longrightarrow> P a \<Longrightarrow> P (fst (f (idx + i) e a))"
  shows "scan_block entries idx blk f is a = Ok (a', go) \<Longrightarrow> P a \<Longrightarrow> P a'"
proof (induction "is" arbitrary: a)
  case (Cons i "is")
  show ?case
  proof (cases "idx + i < entries")
    case True
    then obtain e where e: "dirent_decode (slice_at (i * DIRENT_SIZE) DIRENT_SIZE blk) = Ok e" using Cons.prems(1) by (auto simp: try_bind_Ok_iff)
    show ?thesis
    proof (cases e)
      case None
      then show ?thesis using Cons True e by simp
    next
      case (Some x)
      obtain a1 go1 where f: "f (idx + i) x a = (a1, go1)" by force
      then have "P a1" using step [OF True Cons.prems(2), of x] by simp
      then show ?thesis using Cons.prems(1) Cons.IH [of a1] True e Some f by (cases go1) auto
    qed
  next
    case False
    then show ?thesis using Cons.prems by simp
  qed
qed simp

lemma for_each_inv:
  "for_each_loop D dir f idx a s = (Ok a', s') \<Longrightarrow> P a \<Longrightarrow> (\<And>i e a. i < dir_entries dir \<Longrightarrow> P a \<Longrightarrow> P (fst (f i e a))) \<Longrightarrow> P a'"
proof (induction D dir f idx a arbitrary: s rule: for_each_loop.induct)
  case (1 D dir f idx a)
  show ?case
  proof (cases "idx < dir_entries dir")
    case True
    have step: "P a1" if "scan_block (dir_entries dir) idx blk f [0..<per_block] a = Ok (a1, go)" for blk a1 go
      by (rule scan_block_inv [where P = P, OF _ that "1.prems"(2)]) (use "1.prems"(3) in auto)
    note run = "1.prems"(1) [unfolded for_each_loop.simps [of D dir f idx a] if_P [OF True]]
    from run show ?thesis
    proof (cases rule: fs_bind_cases)
      case (ok p s1)
      show ?thesis
      proof (cases "p = 0")
        case True
        with ok(2) show ?thesis using "1.IH"(1) [OF \<open>idx < dir_entries dir\<close> True _ "1.prems"(2,3)] by simp
      next
        case False
        obtain blk s2 where b: "fs_bind (fs_lift (\<lambda>_. scan_block (dir_entries dir) idx blk f [0..<per_block] a))
            (\<lambda>(a, go). if go then for_each_loop D dir f (idx + per_block) a else fs_return a) s2 = (Ok a', s')"
          using ok(2) [unfolded if_not_P [OF False]] by (rule fs_bind_cases) auto
        then obtain a1 go where sc: "scan_block (dir_entries dir) idx blk f [0..<per_block] a = Ok (a1, go)"
          by (auto simp: fs_bind_def split: sum.splits)
        show ?thesis
        proof (cases go)
          case True
          then show ?thesis using b sc "1.IH"(2) [OF \<open>idx < dir_entries dir\<close> False True _ step [OF sc] "1.prems"(3)] by (simp add: fs_bind_def)
        qed (use b sc step [OF sc] in \<open>simp add: fs_bind_def\<close>)
      qed
    qed simp
  next
    case False
    then show ?thesis using "1.prems" by (simp add: for_each_loop.simps [of D dir f idx a])
  qed
qed

lemma list_progress:
  assumes "for_each_entry D dir list_visit (start, []) s = (Ok (start', items), s')" "items \<noteq> []"
  shows "start < start' \<and> start' \<le> dir_entries dir"
proof -
  define P where "P = (\<lambda>(q, items :: (u32 \<times> u8 list) list). start \<le> q \<and> (items \<noteq> [] \<longrightarrow> start < q \<and> q \<le> dir_entries dir))"
  have "P (start', items)"
    by (rule for_each_inv [where P = P, OF assms(1) [unfolded for_each_entry_def]]) (auto simp: P_def list_visit_def Let_def split: if_splits)
  then show ?thesis using assms(2) by (simp add: P_def)
qed

function list_loop :: "'d block_dev \<Rightarrow> inode \<Rightarrow> nat \<Rightarrow> ('d, (u8 list \<times> stat) list) fsm" where
  "list_loop D dir start s =
     (case for_each_entry D dir list_visit (start, []) s of
        (Inl e, s1) \<Rightarrow> (Inl e, s1)
      | (Inr (start', items), s1) \<Rightarrow>
          (case list_stats D items s1 of
             (Inl e, s2) \<Rightarrow> (Inl e, s2)
           | (Inr out, s2) \<Rightarrow>
               if length items < 64 then (Ok out, s2)
               else (case list_loop D dir start' s2 of (Inl e, s3) \<Rightarrow> (Inl e, s3) | (Inr rest, s3) \<Rightarrow> (Ok (out @ rest), s3))))"
  by pat_completeness auto
termination
proof (relation "measure (\<lambda>(D, dir, start, s). dir_entries dir - start)", goal_cases)
  case (2 D dir start s p s1 q start' items t s2 out)
  then have "for_each_entry D dir list_visit (start, []) s = (Ok (start', items), s1)" "items \<noteq> []" by auto
  from list_progress [OF this] show ?case by auto
qed simp

declare list_loop.simps [simp del]

definition fs_list :: "'d block_dev \<Rightarrow> u8 list \<Rightarrow> ('d, nat \<times> (u8 list \<times> stat) list) fsm" where
  "fs_list D path =
     fs_bind (resolve D path) (\<lambda>(_, dir).
       if inode_kind dir \<noteq> Some Dir then fs_fail NotDir
       else fs_bind (list_loop D dir 0) (\<lambda>out. fs_return (length out, out)))"

end
