(* ===== verification/Nexofs_Names.thy ===== *)
theory Nexofs_Names
  imports Nexofs_Dir
begin

text \<open>
  What the names on the disk mean, and that directory operations keep them: the entries of a directory as a function of
  what the blocks hold, lookup, resolution of paths, and the effect on both of growing a directory and of writing one entry,
  whether or not the device fails.
\<close>

section \<open>Scanning a directory\<close>

function scan_dir :: "(u64 \<Rightarrow> u8 list) \<Rightarrow> superblock \<Rightarrow> inode \<Rightarrow> (nat \<Rightarrow> dirent \<Rightarrow> 'a \<Rightarrow> 'a \<times> bool) \<Rightarrow> nat \<Rightarrow> 'a \<Rightarrow> (fs_error, 'a) result" where
  "scan_dir c sb dir f idx a =
     (if idx < dir_entries dir then
        try_bind (ptr_in c sb dir (idx div per_block)) (\<lambda>ptr.
          if ptr = 0 then scan_dir c sb dir f (idx + per_block) a
          else try_bind (data_in c sb ptr) (\<lambda>blk.
               try_bind (scan_block (dir_entries dir) idx blk f [0..<per_block] a) (\<lambda>(a, go).
               if go then scan_dir c sb dir f (idx + per_block) a else Ok a)))
      else Ok a)"
  by pat_completeness auto
termination
  by (relation "measure (\<lambda>(c, sb, dir, f, idx, a). dir_entries dir - idx)") auto

declare scan_dir.simps [simp del]

lemma reads_as_if:
  "(P \<Longrightarrow> reads_as D ready content m v) \<Longrightarrow> (\<not> P \<Longrightarrow> reads_as D ready content n w) \<Longrightarrow>
   reads_as D ready content (if P then m else n) (\<lambda>c sb. if P then v c sb else w c sb)"
  by simp

lemma reads_as_result: "reads_as D ready content (fs_lift (\<lambda>_. r)) (\<lambda>c sb. r)"
  by (simp add: reads_as_def)

context block_device
begin

lemma reads_for_each: "reads_as D ready content (for_each_loop D dir f idx a) (\<lambda>c sb. scan_dir c sb dir f idx a)"
proof (induction "dir_entries dir - idx" arbitrary: idx a rule: less_induct)
  case less
  have IH: "reads_as D ready content (for_each_loop D dir f (idx + per_block) a) (\<lambda>c sb. scan_dir c sb dir f (idx + per_block) a)"
    if "idx < dir_entries dir" for a using less that by simp
  show ?case
    unfolding for_each_loop.simps [of D dir f idx a] scan_dir.simps [of _ _ dir f idx a] split_beta
    by (intro reads_as_if reads_as_bind reads_as_return reads_as_result reads_block_ptr reads_data_block IH)
qed

end

section \<open>Entries\<close>

text \<open>Slot \<open>k\<close> of a directory of direct blocks.\<close>

definition slot_at :: "(u64 \<Rightarrow> u8 list) \<Rightarrow> inode \<Rightarrow> nat \<Rightarrow> (fs_error, dirent option) result" where
  "slot_at c i k =
     (let p = i_direct i ! (k div per_block) in
      if p = 0 then Ok None else dirent_decode (slice_at (k mod per_block * DIRENT_SIZE) DIRENT_SIZE (c p)))"

definition slot_entry :: "(u64 \<Rightarrow> u8 list) \<Rightarrow> inode \<Rightarrow> nat \<Rightarrow> dirent option" where
  "slot_entry c i k = (case slot_at c i k of Inr e \<Rightarrow> e | Inl _ \<Rightarrow> None)"

definition dir_blocks :: "inode \<Rightarrow> nat" where
  "dir_blocks i = unat (i_size i) div BLOCK"

text \<open>A sound directory: whole direct blocks, in the data area and marked, with entries that decode.\<close>

definition dir_ok :: "(u64 \<Rightarrow> u8 list) \<Rightarrow> 'd fs \<Rightarrow> inode \<Rightarrow> bool" where
  [nexo_inv]: "dir_ok c s i \<longleftrightarrow>
     unat (i_size i) mod BLOCK = 0 \<and> dir_blocks i \<le> NDIRECT \<and>
     (\<forall>j<dir_blocks i. i_direct i ! j \<noteq> 0 \<longrightarrow> in_data (fs_sb s) (i_direct i ! j) \<and> fs_bit s (i_direct i ! j)) \<and>
     (\<forall>k<dir_entries i. slot_at c i k = Ok (slot_entry c i k))"

lemma dir_entries_blocks: "dir_ok c s i \<Longrightarrow> dir_entries i = dir_blocks i * per_block"
proof -
  assume "dir_ok c s i"
  then have "unat (i_size i) = dir_blocks i * 2048" using div_mult_mod_eq [of "unat (i_size i)" BLOCK] by (simp add: dir_ok_def dir_blocks_def)
  then show ?thesis by (simp add: dir_entries_def unat_div)
qed

text \<open>The used slots among some, in order, and a visit to them.\<close>

definition used_slots :: "(u64 \<Rightarrow> u8 list) \<Rightarrow> inode \<Rightarrow> nat list \<Rightarrow> (nat \<times> dirent) list" where
  "used_slots c i ks = List.map_filter (\<lambda>k. map_option (Pair k) (slot_entry c i k)) ks"

fun visit :: "(nat \<Rightarrow> dirent \<Rightarrow> 'a \<Rightarrow> 'a \<times> bool) \<Rightarrow> (nat \<times> dirent) list \<Rightarrow> 'a \<Rightarrow> 'a \<times> bool" where
  "visit f [] a = (a, True)"
| "visit f ((k, e) # xs) a = (case f k e a of (a, go) \<Rightarrow> if go then visit f xs a else (a, False))"

lemma visit_append: "visit f (xs @ ys) a = (case visit f xs a of (a, go) \<Rightarrow> if go then visit f ys a else (a, False))"
  by (induction f xs a rule: visit.induct) (auto split: prod.splits)

lemma used_slots_simps [simp]:
  "used_slots c i [] = []"
  "used_slots c i (k # ks) = (case slot_entry c i k of None \<Rightarrow> used_slots c i ks | Some e \<Rightarrow> (k, e) # used_slots c i ks)"
  "used_slots c i (ks @ ls) = used_slots c i ks @ used_slots c i ls"
  by (auto simp: used_slots_def List.map_filter_def split: option.splits)

lemma scan_block_visit:
  assumes "dir_ok c s i" "idx = j * per_block" "idx < dir_entries i" "i_direct i ! j \<noteq> 0" "set is \<subseteq> {..<per_block}"
  shows "scan_block (dir_entries i) idx (c (i_direct i ! j)) f is a = Ok (visit f (used_slots c i (map ((+) idx) is)) a)"
  using assms(5)
proof (induction "is" arbitrary: a)
  case (Cons k "is")
  have n: "dir_entries i = dir_blocks i * 32" using dir_entries_blocks [OF assms(1)] by simp
  then have lt: "idx + k < dir_entries i" using assms(2,3) Cons.prems by auto
  have jk: "(idx + k) div 32 = j" "(idx + k) mod 32 = k" using assms(2) Cons.prems by auto
  have "slot_at c i (idx + k) = Ok (slot_entry c i (idx + k))" using assms(1) lt by (simp add: dir_ok_def)
  then have "dirent_decode (slice_at (k * 64) 64 (c (i_direct i ! j))) = Ok (slot_entry c i (idx + k))" using jk assms(4) by (simp add: slot_at_def)
  then show ?case using Cons lt by (auto split: option.splits prod.splits)
qed simp

lemma map_plus_upt: "map ((+) k) [0..<m] = [k..<m + k]"
  by (rule nth_equalityI) simp_all

lemma hole_slots:
  assumes "i_direct i ! j = 0"
  shows "used_slots c i (map ((+) (j * per_block)) [0..<per_block]) = []"
proof -
  have "slot_entry c i k = None" if "k \<in> set (map ((+) (j * per_block)) [0..<per_block])" for k
  proof -
    have "j * 32 \<le> k" "k < 32 + j * 32" using that by auto
    then have "k div 32 = j" by (intro div_nat_eqI) simp_all
    then show ?thesis using assms by (simp add: slot_entry_def slot_at_def)
  qed
  then show ?thesis by (simp add: used_slots_def map_filter_def filter_empty_conv)
qed

lemma scan_dir_visit:
  assumes "dir_ok c s i"
  shows "scan_dir c (fs_sb s) i f (j * per_block) a = Ok (fst (visit f (used_slots c i [j * per_block..<dir_entries i]) a))"
proof (induction "dir_entries i - j * per_block" arbitrary: j a rule: less_induct)
  case less
  let ?k = "j * per_block"
  show ?case
  proof (cases "?k < dir_entries i")
    case True
    have n: "dir_entries i = dir_blocks i * 32" using dir_entries_blocks [OF assms] by simp
    then have j: "j < dir_blocks i" "j < NDIRECT" using True assms by (auto simp: dir_ok_def)
    have split: "[?k..<dir_entries i] = map ((+) ?k) [0..<per_block] @ [(j + 1) * per_block..<dir_entries i]"
    proof -
      have "?k + per_block \<le> dir_entries i" using j(1) n by simp
      then show ?thesis using upt_add_eq_append [of ?k "?k + per_block" "dir_entries i - (?k + per_block)"]
        by (simp add: map_plus_upt add.commute)
    qed
    have IH: "scan_dir c (fs_sb s) i f (?k + per_block) a = Ok (fst (visit f (used_slots c i [(j + 1) * per_block..<dir_entries i]) a))" for a
      using less [of "j + 1" a] True by (simp add: add.commute)
    have p: "ptr_in c (fs_sb s) i (?k div per_block) = Ok (i_direct i ! j)" using j(2) by (simp add: ptr_in_def)
    show ?thesis
    proof (cases "i_direct i ! j = 0")
      case True
      note hole_slots [OF True]
      then show ?thesis using True \<open>?k < dir_entries i\<close> p IH unfolding scan_dir.simps [of c "fs_sb s" i f ?k a] split by simp
    next
      case False
      have "data_in c (fs_sb s) (i_direct i ! j) = Ok (c (i_direct i ! j))" using assms j(1) False by (simp add: dir_ok_def data_in_def)
      moreover note scan_block_visit [OF assms refl True False, of "[0..<per_block]" f a]
      ultimately show ?thesis using False True p IH unfolding scan_dir.simps [of c "fs_sb s" i f ?k a] split
        by (auto simp: visit_append atLeast0LessThan simp del: per_block_def split: prod.splits)
    qed
  next
    case False
    then show ?thesis by (simp add: scan_dir.simps)
  qed
qed

section \<open>Lookup\<close>

definition has_name :: "(u64 \<Rightarrow> u8 list) \<Rightarrow> inode \<Rightarrow> u8 list \<Rightarrow> nat \<Rightarrow> bool" where
  "has_name c i name k \<longleftrightarrow> (case slot_entry c i k of Some e \<Rightarrow> dirent_name e = name | None \<Rightarrow> False)"

definition lookup :: "(u64 \<Rightarrow> u8 list) \<Rightarrow> inode \<Rightarrow> u8 list \<Rightarrow> (nat \<times> u32) option" where
  "lookup c i name = map_option (\<lambda>k. (k, d_ino (the (slot_entry c i k)))) (find (has_name c i name) [0..<dir_entries i])"

lemma visit_find: "fst (visit (find_visit name) (used_slots c i ks) None) = map_option (\<lambda>k. (k, d_ino (the (slot_entry c i k)))) (find (has_name c i name) ks)"
  by (induction ks) (auto simp: has_name_def find_visit_def split: option.splits)

lemma find_cong_upt: "(\<And>k. k < n \<Longrightarrow> P k = Q k) \<Longrightarrow> find P [0..<n] = find Q [0..<n]"
  by (rule find_cong) auto

lemma lookup_Some_iff:
  "lookup c i name = Some (k, x) \<longleftrightarrow> k < dir_entries i \<and> (\<exists>e. slot_entry c i k = Some e \<and> dirent_name e = name \<and> d_ino e = x) \<and>
     (\<forall>j<k. \<not> has_name c i name j)"
proof -
  have "find (has_name c i name) [0..<dir_entries i] = Some k \<longleftrightarrow> k < dir_entries i \<and> has_name c i name k \<and> (\<forall>j<k. \<not> has_name c i name j)"
    by (auto simp: find_Some_iff)
  then show ?thesis by (auto simp: lookup_def has_name_def split: option.splits)
qed

lemma lookup_None_iff: "lookup c i name = None \<longleftrightarrow> (\<forall>k<dir_entries i. \<not> has_name c i name k)"
  by (auto simp: lookup_def find_None_iff)

context block_device
begin

lemma for_each_spec:
  assumes s: "volume_ok D ready s" and i: "dir_ok (content (fs_dev s)) s i" and run: "for_each_entry D i f a s = (r, s')"
  shows "volume_ok D ready s'" "same_meta s s'" "content (fs_dev s') = content (fs_dev s)"
    "r = Err Io \<or> r = Ok (fst (visit f (used_slots (content (fs_dev s)) i [0..<dir_entries i]) a))"
  using reads_asD [OF reads_for_each s run [unfolded for_each_entry_def]] scan_dir_visit [OF i, of f 0 a] by simp_all

lemma find_in_dir_spec:
  assumes s: "volume_ok D ready s" and i: "dir_ok (content (fs_dev s)) s i" and run: "find_in_dir D i name s = (r, s')"
  shows "volume_ok D ready s'" "same_meta s s'" "content (fs_dev s') = content (fs_dev s)"
    "r = Err Io \<or> r = Ok (lookup (content (fs_dev s)) i name)"
  using for_each_spec [OF s i run [unfolded find_in_dir_def]] by (simp_all add: visit_find lookup_def)

end

section \<open>Resolution of paths\<close>

definition is_dir :: "(u64 \<Rightarrow> u8 list) \<Rightarrow> superblock \<Rightarrow> u32 \<Rightarrow> inode \<Rightarrow> bool" where
  "is_dir c sb d i \<longleftrightarrow> inode_in c sb d = Ok i \<and> inode_kind i = Some Dir"

text \<open>The directories of a disk: all are sound, and no block belongs to two of them or twice to one.\<close>

definition dirs_ok :: "(u64 \<Rightarrow> u8 list) \<Rightarrow> 'd fs \<Rightarrow> bool" where
  [nexo_inv]: "dirs_ok c s \<longleftrightarrow>
     (\<forall>d i. is_dir c (fs_sb s) d i \<longrightarrow> dir_ok c s i) \<and>
     (\<forall>d i d' i' j j'. is_dir c (fs_sb s) d i \<longrightarrow> is_dir c (fs_sb s) d' i' \<longrightarrow> j < dir_blocks i \<longrightarrow> j' < dir_blocks i' \<longrightarrow>
        i_direct i ! j = i_direct i' ! j' \<longrightarrow> i_direct i ! j \<noteq> 0 \<longrightarrow> d = d' \<and> j = j')"

fun walk :: "(u64 \<Rightarrow> u8 list) \<Rightarrow> superblock \<Rightarrow> u32 \<Rightarrow> inode \<Rightarrow> u8 list list \<Rightarrow> (fs_error, u32 \<times> inode) result" where
  "walk c sb d i [] = Ok (d, i)"
| "walk c sb d i (part # parts) =
     (if inode_kind i \<noteq> Some Dir then Err NotDir
      else case lookup c i part of
             None \<Rightarrow> Err NotFound
           | Some (k, nxt) \<Rightarrow>
               try_bind (inode_in c sb nxt) (\<lambda>i. if i_kind i = 0 then Err (Corrupted ''entrada aponta para inode livre'') else walk c sb nxt i parts))"

definition components :: "u8 list \<Rightarrow> u8 list list" where
  "components path = filter (\<lambda>part. \<not> (part = [] \<or> part = [0x2e])) (split_path path)"

definition resolve_in :: "(u64 \<Rightarrow> u8 list) \<Rightarrow> superblock \<Rightarrow> u8 list \<Rightarrow> (fs_error, u32 \<times> inode) result" where
  "resolve_in c sb path =
     try_bind (inode_in c sb ROOT_INO) (\<lambda>i.
       if inode_kind i \<noteq> Some Dir then Err (Corrupted ''raiz nao e diretorio'') else walk c sb ROOT_INO i (components path))"

lemma dir_ok_meta: "same_meta s s' \<Longrightarrow> dir_ok c s' i = dir_ok c s i"
  by (simp add: dir_ok_def same_meta_def fs_bit_def)

lemma dirs_ok_meta: "same_meta s s' \<Longrightarrow> dirs_ok c s' = dirs_ok c s"
  using dir_ok_meta [of s s' c] by (simp add: dirs_ok_def same_meta_def)

lemma dirs_okD: "dirs_ok c s \<Longrightarrow> inode_in c (fs_sb s) d = Ok i \<Longrightarrow> inode_kind i = Some Dir \<Longrightarrow> dir_ok c s i"
  by (auto simp: dirs_ok_def is_dir_def)

lemma dirs_ok_blocks:
  "dirs_ok c s \<Longrightarrow> is_dir c (fs_sb s) d i \<Longrightarrow> is_dir c (fs_sb s) d' i' \<Longrightarrow> j < dir_blocks i \<Longrightarrow> j' < dir_blocks i' \<Longrightarrow>
   i_direct i ! j = i_direct i' ! j' \<Longrightarrow> i_direct i ! j \<noteq> 0 \<Longrightarrow> d = d' \<and> j = j'"
  unfolding dirs_ok_def by blast

text \<open>An operation that, started on a volume like \<open>s0\<close> with contents \<open>c\<close>, changes neither and has the value \<open>v\<close>, if it gets all it reads.\<close>

definition finds :: "'d block_dev \<Rightarrow> ('d \<Rightarrow> bool) \<Rightarrow> ('d \<Rightarrow> u64 \<Rightarrow> u8 list) \<Rightarrow> 'd fs \<Rightarrow> (u64 \<Rightarrow> u8 list) \<Rightarrow> ('d, 'a) fsm \<Rightarrow> (fs_error, 'a) result \<Rightarrow> bool" where
  "finds D ready content s0 c m v \<longleftrightarrow>
     (\<forall>s r s'. volume_ok D ready s \<longrightarrow> same_meta s0 s \<longrightarrow> content (fs_dev s) = c \<longrightarrow> m s = (r, s') \<longrightarrow>
        volume_ok D ready s' \<and> same_meta s0 s' \<and> content (fs_dev s') = c \<and> (r = Err Io \<or> r = v))"

lemma finds_run:
  assumes "finds D ready content s0 c m v" "volume_ok D ready s" "same_meta s0 s" "content (fs_dev s) = c" "m s = (r, s')"
  shows "volume_ok D ready s'" "same_meta s0 s'" "content (fs_dev s') = c" "r = Err Io \<or> r = v"
  using assms unfolding finds_def by blast+

lemma finds_step:
  assumes "finds D ready content s0 c m v" "volume_ok D ready s" "same_meta s0 s" "content (fs_dev s) = c" "fs_bind m f s = (r, s')"
  obtains (stop) e where "r = Err e" "same_meta s0 s'" "content (fs_dev s') = c"
  | (go) a s1 where "v = Ok a" "volume_ok D ready s1" "same_meta s0 s1" "content (fs_dev s1) = c" "f a s1 = (r, s')"
  using assms(5)
proof (cases rule: fs_bind_cases)
  case (err e)
  then show ?thesis using stop finds_run [OF assms(1-4) err(1)] by blast
next
  case (ok a s1)
  then show ?thesis using go finds_run [OF assms(1-4) ok(1)] by blast
qed

lemmas findsD = finds_run [OF _ _ same_meta_refl refl]

lemma finds_bind:
  assumes m: "finds D ready content s0 c m v" and f: "\<And>a. v = Ok a \<Longrightarrow> finds D ready content s0 c (f a) (w a)"
  shows "finds D ready content s0 c (fs_bind m f) (try_bind v w)"
  unfolding finds_def
proof (intro allI impI)
  fix s r s' assume s: "volume_ok D ready s" "same_meta s0 s" "content (fs_dev s) = c" and run: "fs_bind m f s = (r, s')"
  from run show "volume_ok D ready s' \<and> same_meta s0 s' \<and> content (fs_dev s') = c \<and> (r = Err Io \<or> r = try_bind v w)"
  proof (cases rule: fs_bind_cases)
    case (err e)
    then show ?thesis using finds_run [OF m s err(1)] by (auto simp: try_bind_def)
  next
    case (ok a s1)
    note one = finds_run [OF m s ok(1)]
    then have "v = Ok a" by simp
    from finds_run [OF f [OF this] one(1-3) ok(2)] this show ?thesis by simp
  qed
qed

lemma finds_return: "finds D ready content s0 c (fs_return a) (Ok a)"
  and finds_fail: "finds D ready content s0 c (fs_fail e) (Err e)"
  and finds_result: "finds D ready content s0 c (fs_lift (\<lambda>_. r)) r"
  by (simp_all add: finds_def)

lemma finds_if: "(P \<Longrightarrow> finds D ready content s0 c m v) \<Longrightarrow> (\<not> P \<Longrightarrow> finds D ready content s0 c n w) \<Longrightarrow>
   finds D ready content s0 c (if P then m else n) (if P then v else w)"
  by simp

lemma finds_intro:
  assumes "\<And>s r s'. volume_ok D ready s \<Longrightarrow> same_meta s0 s \<Longrightarrow> content (fs_dev s) = c \<Longrightarrow> m s = (r, s') \<Longrightarrow>
    volume_ok D ready s' \<and> same_meta s s' \<and> content (fs_dev s') = content (fs_dev s) \<and> (r = Err Io \<or> r = v)"
  shows "finds D ready content s0 c m v"
  unfolding finds_def
proof (intro allI impI)
  fix s r s' assume s: "volume_ok D ready s" "same_meta s0 s" "content (fs_dev s) = c" "m s = (r, s')"
  then show "volume_ok D ready s' \<and> same_meta s0 s' \<and> content (fs_dev s') = c \<and> (r = Err Io \<or> r = v)"
    using assms [OF s] same_meta_trans [OF s(2), of s'] by simp
qed

lemma reads_as_finds:
  assumes "reads_as D ready content m v"
  shows "finds D ready content s0 c m (v c (fs_sb s0))"
proof (rule finds_intro)
  fix s r s' assume s: "volume_ok D ready s" "same_meta s0 s" "content (fs_dev s) = c" "m s = (r, s')"
  then show "volume_ok D ready s' \<and> same_meta s s' \<and> content (fs_dev s') = content (fs_dev s) \<and> (r = Err Io \<or> r = v c (fs_sb s0))"
    using reads_asD [OF assms s(1,4)] by (simp add: same_meta_def)
qed

lemma resolve_loop_parts: "resolve_loop D (filter (\<lambda>part. \<not> (part = [] \<or> part = [0x2e])) parts) d i = resolve_loop D parts d i"
proof (induction parts arbitrary: d i)
  case (Cons part parts)
  then show ?case by (cases "part = [] \<or> part = [0x2e]") (auto cong: if_cong option.case_cong)
qed simp

context block_device
begin

lemma finds_lookup:
  assumes "dir_ok c s0 i"
  shows "finds D ready content s0 c (find_in_dir D i name) (Ok (lookup c i name))"
proof (rule finds_intro)
  fix s r s' assume s: "volume_ok D ready s" "same_meta s0 s" "content (fs_dev s) = c" "find_in_dir D i name s = (r, s')"
  then show "volume_ok D ready s' \<and> same_meta s s' \<and> content (fs_dev s') = content (fs_dev s) \<and> (r = Err Io \<or> r = Ok (lookup c i name))"
    using find_in_dir_spec [OF s(1) _ s(4)] assms dir_ok_meta [OF s(2)] by simp
qed

lemma finds_walk:
  assumes "dirs_ok c s0" "inode_in c (fs_sb s0) d = Ok i" "[] \<notin> set parts" "[0x2e] \<notin> set parts"
  shows "finds D ready content s0 c (resolve_loop D parts d i) (walk c (fs_sb s0) d i parts)"
  using assms(2-)
proof (induction parts arbitrary: d i)
  case (Cons part parts)
  have step: "finds D ready content s0 c (case found of None \<Rightarrow> fs_fail NotFound | Some (slot, nxt) \<Rightarrow>
       fs_bind (read_inode D nxt) (\<lambda>i. if i_kind i = 0 then fs_fail (Corrupted ''entrada aponta para inode livre'') else resolve_loop D parts nxt i))
     (case found of None \<Rightarrow> Err NotFound | Some (k, nxt) \<Rightarrow>
       try_bind (inode_in c (fs_sb s0) nxt) (\<lambda>i. if i_kind i = 0 then Err (Corrupted ''entrada aponta para inode livre'') else walk c (fs_sb s0) nxt i parts))"
    for found
    by (auto split: option.splits intro!: finds_fail finds_bind finds_if reads_as_finds [OF reads_inode] Cons.IH) (use Cons.prems in auto)
  have "part \<noteq> [] \<and> part \<noteq> [0x2e]" using Cons.prems by auto
  moreover have "dir_ok c s0 i" if "inode_kind i = Some Dir" using dirs_okD [OF assms(1) Cons.prems(1) that] .
  ultimately show ?case using finds_bind [OF finds_lookup [of c s0 i part] step] by (auto simp: finds_def [of D ready content s0 c "Pair r" for r])
qed (simp add: finds_return)

lemma finds_resolve:
  assumes "dirs_ok c s0"
  shows "finds D ready content s0 c (resolve D path) (resolve_in c (fs_sb s0) path)"
proof -
  have "finds D ready content s0 c (resolve_loop D (split_path path) ROOT_INO i) (walk c (fs_sb s0) ROOT_INO i (components path))"
    if "inode_in c (fs_sb s0) ROOT_INO = Ok i" for i
    using finds_walk [OF assms that, of "components path"] resolve_loop_parts [of D "split_path path"] by (auto simp: components_def)
  then show ?thesis unfolding resolve_def resolve_in_def
    by (intro finds_bind finds_if finds_fail reads_as_finds [OF reads_inode]) auto
qed

end

section \<open>Keeping names\<close>

text \<open>
  Every object stays what it is, and every name that does not stand for an object of \<open>T\<close> still stands for the same one.
\<close>

definition keeps :: "u32 set \<Rightarrow> superblock \<Rightarrow> (u64 \<Rightarrow> u8 list) \<Rightarrow> (u64 \<Rightarrow> u8 list) \<Rightarrow> bool" where
  "keeps T sb c c' \<longleftrightarrow>
     (\<forall>d i. inode_in c sb d = Ok i \<longrightarrow> i_kind i \<noteq> 0 \<longrightarrow>
        (\<exists>i'. inode_in c' sb d = Ok i' \<and> i_kind i' = i_kind i \<and>
           (\<forall>name k x. inode_kind i = Some Dir \<longrightarrow> lookup c i name = Some (k, x) \<longrightarrow> x \<notin> T \<longrightarrow> lookup c' i' name = Some (k, x))))"

lemma inode_kind_cong: "i_kind i' = i_kind i \<Longrightarrow> inode_kind i' = inode_kind i"
  by (simp add: inode_kind_def)

lemma keepsD:
  assumes "keeps T sb c c'" "inode_in c sb d = Ok i" "i_kind i \<noteq> 0"
  obtains i' where "inode_in c' sb d = Ok i'" "i_kind i' = i_kind i" "inode_kind i' = inode_kind i"
    "\<And>name k x. inode_kind i = Some Dir \<Longrightarrow> lookup c i name = Some (k, x) \<Longrightarrow> x \<notin> T \<Longrightarrow> lookup c' i' name = Some (k, x)"
  using assms inode_kind_cong unfolding keeps_def by metis

lemma keeps_trans:
  assumes "keeps T sb c c1" "keeps T sb c1 c2"
  shows "keeps T sb c c2"
  unfolding keeps_def
proof (intro allI impI)
  fix d i assume i: "inode_in c sb d = Ok i" "i_kind i \<noteq> 0"
  show "\<exists>i'. inode_in c2 sb d = Ok i' \<and> i_kind i' = i_kind i \<and>
    (\<forall>name k x. inode_kind i = Some Dir \<longrightarrow> lookup c i name = Some (k, x) \<longrightarrow> x \<notin> T \<longrightarrow> lookup c2 i' name = Some (k, x))"
  proof (rule keepsD [OF assms(1) i])
    fix i1 assume 1: "inode_in c1 sb d = Ok i1" "i_kind i1 = i_kind i" "inode_kind i1 = inode_kind i"
      "\<And>name k x. inode_kind i = Some Dir \<Longrightarrow> lookup c i name = Some (k, x) \<Longrightarrow> x \<notin> T \<Longrightarrow> lookup c1 i1 name = Some (k, x)"
    show ?thesis
    proof (rule keepsD [OF assms(2) 1(1)])
      fix i2 assume 2: "inode_in c2 sb d = Ok i2" "i_kind i2 = i_kind i1" "inode_kind i2 = inode_kind i1"
        "\<And>name k x. inode_kind i1 = Some Dir \<Longrightarrow> lookup c1 i1 name = Some (k, x) \<Longrightarrow> x \<notin> T \<Longrightarrow> lookup c2 i2 name = Some (k, x)"
      have "lookup c2 i2 name = Some (k, x)" if "inode_kind i = Some Dir" "lookup c i name = Some (k, x)" "x \<notin> T" for name k x
        by (rule 2(4) [OF _ 1(4) [OF that] that(3)]) (simp add: 1(3) that(1))
      with 1(2) 2(1,2) show ?thesis by auto
    qed (use 1(2) i(2) in simp)
  qed
qed

lemma keeps_refl [simp]: "keeps T sb c c"
  by (simp add: keeps_def)

lemma lookup_cong: "(\<And>k. k < dir_entries i \<Longrightarrow> slot_at c' i k = slot_at c i k) \<Longrightarrow> lookup c' i name = lookup c i name"
proof -
  assume same: "\<And>k. k < dir_entries i \<Longrightarrow> slot_at c' i k = slot_at c i k"
  then have "find (has_name c' i name) [0..<dir_entries i] = find (has_name c i name) [0..<dir_entries i]"
    by (intro find_cong_upt) (simp add: has_name_def slot_entry_def)
  then show ?thesis using same by (auto simp: lookup_def slot_entry_def find_Some_iff intro!: option.map_cong)
qed

text \<open>A change outside the directories and the inode table.\<close>

lemma keeps_same:
  assumes "\<And>d. inode_in c' sb d = inode_in c sb d" "\<And>d i k. is_dir c sb d i \<Longrightarrow> k < dir_entries i \<Longrightarrow> slot_at c' i k = slot_at c i k"
  shows "keeps T sb c c'"
  unfolding keeps_def using assms lookup_cong [of _ c' c] by (auto simp: is_dir_def)

text \<open>
  The converse as well: apart from the entries \<open>N\<close> and the inodes \<open>F\<close>, the inodes of files are what they were, and directories
  have the same names for the same objects, no more and no less.
\<close>

definition alters :: "(u32 \<times> u8 list) set \<Rightarrow> u32 set \<Rightarrow> superblock \<Rightarrow> (u64 \<Rightarrow> u8 list) \<Rightarrow> (u64 \<Rightarrow> u8 list) \<Rightarrow> bool" where
  "alters N F sb c c' \<longleftrightarrow>
     (\<forall>x. x \<notin> F \<longrightarrow>
        (case inode_in c sb x of
           Inl e \<Rightarrow> inode_in c' sb x = Err e
         | Inr i \<Rightarrow> (\<exists>i'. inode_in c' sb x = Ok i' \<and> i_kind i' = i_kind i \<and>
              (if inode_kind i = Some Dir then \<forall>name. (x, name) \<notin> N \<longrightarrow> lookup c' i' name = lookup c i name else i' = i))))"

lemma altersI:
  assumes "\<And>x e. x \<notin> F \<Longrightarrow> inode_in c sb x = Err e \<Longrightarrow> inode_in c' sb x = Err e"
    "\<And>x i. x \<notin> F \<Longrightarrow> inode_in c sb x = Ok i \<Longrightarrow> \<exists>i'. inode_in c' sb x = Ok i' \<and> i_kind i' = i_kind i \<and>
       (if inode_kind i = Some Dir then \<forall>name. (x, name) \<notin> N \<longrightarrow> lookup c' i' name = lookup c i name else i' = i)"
  shows "alters N F sb c c'"
  unfolding alters_def
proof (intro allI impI)
  fix x assume x: "x \<notin> F"
  show "case inode_in c sb x of Inl e \<Rightarrow> inode_in c' sb x = Err e | Inr i \<Rightarrow> (\<exists>i'. inode_in c' sb x = Ok i' \<and> i_kind i' = i_kind i \<and>
      (if inode_kind i = Some Dir then \<forall>name. (x, name) \<notin> N \<longrightarrow> lookup c' i' name = lookup c i name else i' = i))"
  proof (cases "inode_in c sb x")
    case (Inr i)
    show ?thesis unfolding Inr sum.case by (rule assms(2) [OF x Inr])
  qed (use assms(1) [OF x] in simp)
qed

lemma altersD:
  assumes "alters N F sb c c'" "x \<notin> F"
  shows "inode_in c sb x = Err e \<Longrightarrow> inode_in c' sb x = Err e"
    "inode_in c sb x = Ok i \<Longrightarrow> \<exists>i'. inode_in c' sb x = Ok i' \<and> i_kind i' = i_kind i \<and>
       (if inode_kind i = Some Dir then \<forall>name. (x, name) \<notin> N \<longrightarrow> lookup c' i' name = lookup c i name else i' = i)"
proof -
  have "case inode_in c sb x of Inl e \<Rightarrow> inode_in c' sb x = Err e | Inr i \<Rightarrow> (\<exists>i'. inode_in c' sb x = Ok i' \<and> i_kind i' = i_kind i \<and>
      (if inode_kind i = Some Dir then \<forall>name. (x, name) \<notin> N \<longrightarrow> lookup c' i' name = lookup c i name else i' = i))"
    using assms unfolding alters_def by blast
  then show "inode_in c sb x = Err e \<Longrightarrow> inode_in c' sb x = Err e"
    "inode_in c sb x = Ok i \<Longrightarrow> \<exists>i'. inode_in c' sb x = Ok i' \<and> i_kind i' = i_kind i \<and>
       (if inode_kind i = Some Dir then \<forall>name. (x, name) \<notin> N \<longrightarrow> lookup c' i' name = lookup c i name else i' = i)" by simp_all
qed

lemma alters_refl [simp]: "alters N F sb c c"
  by (rule altersI) simp_all

lemma alters_trans:
  assumes 1: "alters N F sb c c1" and 2: "alters M G sb c1 c2"
  shows "alters (N \<union> M) (F \<union> G) sb c c2"
proof (rule altersI)
  fix x e assume x: "x \<notin> F \<union> G" "inode_in c sb x = Err e"
  then show "inode_in c2 sb x = Err e" using altersD(1) [OF 1, of x e] altersD(1) [OF 2, of x e] by simp
next
  fix x i assume x: "x \<notin> F \<union> G" "inode_in c sb x = Ok i"
  then obtain i1 where i1: "inode_in c1 sb x = Ok i1" "i_kind i1 = i_kind i"
    "if inode_kind i = Some Dir then \<forall>name. (x, name) \<notin> N \<longrightarrow> lookup c1 i1 name = lookup c i name else i1 = i"
    using altersD(2) [OF 1, of x i] by auto
  then obtain i2 where i2: "inode_in c2 sb x = Ok i2" "i_kind i2 = i_kind i1"
    "if inode_kind i1 = Some Dir then \<forall>name. (x, name) \<notin> M \<longrightarrow> lookup c2 i2 name = lookup c1 i1 name else i2 = i1"
    using altersD(2) [OF 2, of x i1] x(1) by auto
  have "if inode_kind i = Some Dir then \<forall>name. (x, name) \<notin> N \<union> M \<longrightarrow> lookup c2 i2 name = lookup c i name else i2 = i"
    using i1(3) i2(3) inode_kind_cong [OF i1(2)] by (auto split: if_splits)
  with i1(2) i2(1,2) show "\<exists>i'. inode_in c2 sb x = Ok i' \<and> i_kind i' = i_kind i \<and>
       (if inode_kind i = Some Dir then \<forall>name. (x, name) \<notin> N \<union> M \<longrightarrow> lookup c2 i' name = lookup c i name else i' = i)"
    by (intro exI [of _ i2]) simp
qed

lemma alters_keeps:
  assumes A: "alters N F sb c c'" and F: "\<forall>x\<in>F. inode_in c sb x = Ok inode_free" and N: "\<forall>(d, n)\<in>N. \<forall>i. inode_in c sb d = Ok i \<longrightarrow> lookup c i n = None"
  shows "keeps T sb c c'"
  unfolding keeps_def
proof (intro allI impI)
  fix d i assume i: "inode_in c sb d = Ok i" "i_kind i \<noteq> 0"
  then have "d \<notin> F" using F by (auto simp: inode_free_def)
  then obtain i' where i': "inode_in c' sb d = Ok i'" "i_kind i' = i_kind i"
    "if inode_kind i = Some Dir then \<forall>name. (d, name) \<notin> N \<longrightarrow> lookup c' i' name = lookup c i name else i' = i"
    using altersD(2) [OF A _ i(1)] by auto
  have "lookup c' i' name = Some (k, x)" if "inode_kind i = Some Dir" "lookup c i name = Some (k, x)" for name k x
  proof -
    have "(d, name) \<notin> N" using N i(1) that(2) by fastforce
    then show ?thesis using i'(3) that by simp
  qed
  with i' show "\<exists>i'. inode_in c' sb d = Ok i' \<and> i_kind i' = i_kind i \<and>
      (\<forall>name k x. inode_kind i = Some Dir \<longrightarrow> lookup c i name = Some (k, x) \<longrightarrow> x \<notin> T \<longrightarrow> lookup c' i' name = Some (k, x))" by blast
qed

lemmas alters_none_keeps = alters_keeps [of "{}" "{}", simplified]

lemma alters_none_trans: "alters {} {} sb c c1 \<Longrightarrow> alters {} {} sb c1 c2 \<Longrightarrow> alters {} {} sb c c2"
  using alters_trans [of "{}" "{}" sb c c1 "{}" "{}" c2] by simp

lemma alters_same:
  assumes "\<And>d. inode_in c' sb d = inode_in c sb d" "\<And>d i k. is_dir c sb d i \<Longrightarrow> k < dir_entries i \<Longrightarrow> slot_at c' i k = slot_at c i k"
  shows "alters N F sb c c'"
  by (rule altersI) (use assms lookup_cong [of _ c' c] in \<open>auto simp: is_dir_def\<close>)

lemma dir_block_marked:
  assumes "dirs_ok c s" "is_dir c (fs_sb s) d i" "k < dir_entries i"
  shows "k div per_block < dir_blocks i"
    "i_direct i ! (k div per_block) \<noteq> 0 \<Longrightarrow> in_data (fs_sb s) (i_direct i ! (k div per_block)) \<and> fs_bit s (i_direct i ! (k div per_block))"
    "k div per_block < NDIRECT"
proof -
  have ok: "dir_ok c s i" using assms(1,2) by (auto simp: dirs_ok_def)
  show "k div per_block < dir_blocks i" using assms(3) dir_entries_blocks [OF ok] by (simp add: less_mult_imp_div_less)
  then show "i_direct i ! (k div per_block) \<noteq> 0 \<Longrightarrow> in_data (fs_sb s) (i_direct i ! (k div per_block)) \<and> fs_bit s (i_direct i ! (k div per_block))"
    using ok by (simp add: dir_ok_def)
  show "k div per_block < NDIRECT" using \<open>k div per_block < dir_blocks i\<close> ok by (simp add: dir_ok_def)
qed

text \<open>The directories depend only on their blocks and on the inode table.\<close>

lemma dirs_ok_cong:
  assumes d: "dirs_ok c s" and t: "\<And>d. inode_in c' (fs_sb s) d = inode_in c (fs_sb s) d" and sb: "fs_sb s' = fs_sb s"
    and bit: "\<And>b. fs_bit s b \<Longrightarrow> fs_bit s' b"
    and slots: "\<And>d i k. is_dir c (fs_sb s) d i \<Longrightarrow> k < dir_entries i \<Longrightarrow> \<exists>e. slot_at c' i k = Ok e"
  shows "dirs_ok c' s'"
proof -
  have is_dir: "is_dir c' (fs_sb s) = is_dir c (fs_sb s)" using t by (simp add: is_dir_def fun_eq_iff)
  have "dir_ok c' s' i" if "is_dir c (fs_sb s) d i" for d i
  proof -
    have "dir_ok c s i" using d that by (auto simp: dirs_ok_def)
    moreover have "slot_at c' i k = Ok (slot_entry c' i k)" if "k < dir_entries i" for k
      using slots [OF \<open>is_dir c (fs_sb s) d i\<close> that] by (auto simp: slot_entry_def)
    ultimately show ?thesis using bit sb by (simp add: dir_ok_def)
  qed
  then show ?thesis using d unfolding dirs_ok_def sb is_dir by blast
qed

end
