(* ===== verification/Nexofs_Slots.thy ===== *)
theory Nexofs_Slots
  imports Nexofs_Names
begin

text \<open>
  Changing one directory when the device may fail at any write: an entry lies within one sector, so it is written or it is
  not; a directory grows by a block of empty entries, which keeps every name.
\<close>

section \<open>Writing one entry\<close>

definition entry_bytes :: "u32 \<Rightarrow> u8 list \<Rightarrow> u8 list \<Rightarrow> u8 list" where
  "entry_bytes ino name b = (if ino = 0 then replicate DIRENT_SIZE 0 else dirent_encode ino name b)"

lemma dirent_decode_zero: "dirent_decode (replicate 64 0) = Ok None"
  by (simp add: dirent_decode_def u32_at_def slice_at_def numeral_eq_Suc)

lemma length_dirent_encode: "length b = 64 \<Longrightarrow> length name \<le> NAME_MAX \<Longrightarrow> length (dirent_encode ino name b) = 64"
  by (simp add: dirent_encode_def Let_def)

lemma entry_decodes:
  assumes "length b = DIRENT_SIZE" "length name \<le> NAME_MAX" "ino = 0 \<or> name \<noteq> []"
  shows "\<exists>v. dirent_decode (entry_bytes ino name b) = Ok v \<and> (if ino = 0 then v = None else \<exists>e. v = Some e \<and> d_ino e = ino \<and> dirent_name e = name)"
proof (cases "ino = 0")
  case False
  with dirent_roundtrip [OF assms(1) False _ assms(2)] assms(3)
  obtain e where "dirent_decode (dirent_encode ino name b) = Ok (Some e)" "d_ino e = ino" "dirent_name e = name" by blast
  then show ?thesis using False by (intro exI [of _ "Some e"]) (simp add: entry_bytes_def)
qed (simp add: entry_bytes_def dirent_decode_zero)

lemma entry_in_sector: "q * 64 + 64 \<le> 512 * Suc (q * 64 div 512)" for q :: nat
proof -
  obtain a where a: "a = q div 8" by simp
  then have "q < 8 + 8 * a" using dividend_less_times_div [of 8 q] by simp
  moreover have "q * 64 div 512 = a" using div_mult_mult1_if [of 64 q 8] a by (simp add: mult.commute)
  ultimately show ?thesis by simp
qed

lemma entry_slot_bound: "p mod 32 * 64 + 64 \<le> 2048" for p :: nat
proof -
  have "p mod 32 < 32" by simp
  then show ?thesis by linarith
qed

lemma entry_slot:
  fixes t k k' :: nat and ino :: u32
  assumes len: "length old = BLOCK" and name: "length name \<le> NAME_MAX"
  defines "new \<equiv> entry_image k ino name old" and "off \<equiv> k mod per_block * DIRENT_SIZE"
  shows "length new = BLOCK" "slice_at off DIRENT_SIZE new = entry_bytes ino name (slice_at off DIRENT_SIZE old)"
    "slice_at off DIRENT_SIZE (torn t new old) = slice_at off DIRENT_SIZE new \<or> slice_at off DIRENT_SIZE (torn t new old) = slice_at off DIRENT_SIZE old"
    "k' mod per_block \<noteq> k mod per_block \<Longrightarrow>
       slice_at (k' mod per_block * DIRENT_SIZE) DIRENT_SIZE (torn t new old) = slice_at (k' mod per_block * DIRENT_SIZE) DIRENT_SIZE old"
proof -
  note at = entry_slot_bound entry_in_sector [of "p mod 32" for p]
  have ob: "off + 64 \<le> 2048" using at(1) [of k] by (simp add: off_def)
  define e where "e = entry_bytes ino name (slice_at off DIRENT_SIZE old)"
  have le: "length e = 64" using ob len name by (simp add: e_def entry_bytes_def length_dirent_encode)
  have new: "new = copy_at off e old" by (simp add: new_def entry_image_def Let_def off_def e_def entry_bytes_def)
  show ln: "length new = BLOCK" using new ob le len by simp
  show "slice_at off DIRENT_SIZE new = entry_bytes ino name (slice_at off DIRENT_SIZE old)"
    unfolding new e_def [symmetric] using ob le len by (intro slice_copy_same) auto
  show "slice_at off DIRENT_SIZE (torn t new old) = slice_at off DIRENT_SIZE new \<or> slice_at off DIRENT_SIZE (torn t new old) = slice_at off DIRENT_SIZE old"
    using at [of k] by (intro slice_torn [OF ln len]) (simp_all add: off_def)
  assume ne: "k' mod per_block \<noteq> k mod per_block"
  let ?o = "k' mod per_block * DIRENT_SIZE"
  have "?o + 64 \<le> off \<or> off + 64 \<le> ?o" using ne by (auto simp: off_def neq_iff)
  then have "slice_at ?o DIRENT_SIZE new = slice_at ?o DIRENT_SIZE old"
    unfolding new using ob le len by (intro slice_copy_other) auto
  then show "slice_at ?o DIRENT_SIZE (torn t new old) = slice_at ?o DIRENT_SIZE old"
    using slice_torn [OF ln len, of ?o DIRENT_SIZE t] at [of k'] by simp
qed

text \<open>\<open>c'\<close> differs from \<open>c\<close> in slot \<open>k\<close> of the directory \<open>d\<close> at most, which holds \<open>v\<close> there.\<close>

definition slot_set :: "superblock \<Rightarrow> u32 \<Rightarrow> nat \<Rightarrow> dirent option \<Rightarrow> (u64 \<Rightarrow> u8 list) \<Rightarrow> (u64 \<Rightarrow> u8 list) \<Rightarrow> bool" where
  "slot_set sb d k v c c' \<longleftrightarrow>
     (\<forall>d'. inode_in c' sb d' = inode_in c sb d') \<and>
     (\<forall>d' i k'. is_dir c sb d' i \<longrightarrow> k' < dir_entries i \<longrightarrow> slot_at c' i k' = (if d' = d \<and> k' = k then Ok v else slot_at c i k'))"

lemma slot_write:
  fixes t :: nat
  assumes g: "geometry (fs_sb s)" and dirs: "dirs_ok c s" and p: "is_dir c (fs_sb s) d p" and k: "k < dir_entries p"
    and b: "i_direct p ! (k div per_block) = b" "b \<noteq> 0" and len: "length (c b) = BLOCK" and name: "length name \<le> NAME_MAX"
    and v: "dirent_decode (entry_bytes ino name (slice_at (k mod per_block * DIRENT_SIZE) DIRENT_SIZE (c b))) = Ok v"
  defines "new \<equiv> entry_image k ino name (c b)"
  shows "slot_set (fs_sb s) d k v c (c(b := new))"
    "slot_set (fs_sb s) d k v c (c(b := torn t new (c b))) \<or> slot_set (fs_sb s) d k (slot_entry c p k) c (c(b := torn t new (c b)))"
proof -
  note E = entry_slot [OF len name, where k = k and ino = ino, folded new_def]
  define x where "x t = c(b := torn t new (c b))" for t
  have data: "in_data (fs_sb s) b" using dir_block_marked(2) [OF dirs p k] b by simp
  have tab: "inode_in (x t) (fs_sb s) d' = inode_in c (fs_sb s) d'" for t d'
    using data by (intro inode_in_kept [OF g]) (auto simp: x_def in_data_def)
  have slot: "slot_at (x t) i k' = (if d' = d \<and> k' = k then slot_at (x t) p k else slot_at c i k')" if i: "is_dir c (fs_sb s) d' i" "k' < dir_entries i" for t d' i k'
  proof (cases "i_direct i ! (k' div per_block) = b")
    case True
    have "d' = d \<and> k' div per_block = k div per_block"
      by (rule dirs_ok_blocks [OF dirs i(1) p]) (use dir_block_marked(1) [OF dirs i] dir_block_marked(1) [OF dirs p k] True b in auto)
    then have d: "d' = d" "i = p" "k' div per_block = k div per_block" using i(1) p by (auto simp: is_dir_def)
    show ?thesis
    proof (cases "k' = k")
      case False
      then have "k' mod per_block \<noteq> k mod per_block" using d(3) by (metis div_mult_mod_eq)
      then show ?thesis using E(4) [where k' = k' and t = t] d False True b(2) by (simp add: slot_at_def x_def)
    qed (use d in simp)
  next
    case False
    then have "\<not> (d' = d \<and> k' = k)" using i(1) p b(1) by (auto simp: is_dir_def)
    then show ?thesis using False by (auto simp: slot_at_def x_def Let_def)
  qed
  have ok: "slot_at c p k = Ok (slot_entry c p k)" using dirs p k by (auto simp: dirs_ok_def dir_ok_def)
  have set: "slot_set (fs_sb s) d k w c (x t)" if "slot_at (x t) p k = Ok w" for t w
    using tab slot that by (simp add: slot_set_def)
  have "slot_at (x t) p k = Ok v \<or> slot_at (x t) p k = Ok (slot_entry c p k)" for t
    using E(2) E(3) [of t] b v ok by (auto simp: slot_at_def x_def)
  then show "slot_set (fs_sb s) d k v c (c(b := torn t new (c b))) \<or> slot_set (fs_sb s) d k (slot_entry c p k) c (c(b := torn t new (c b)))"
    using set [of t] by (auto simp: x_def)
  have "x 4 = c(b := new)" using E(1) len by (simp add: x_def)
  moreover have "slot_at (x 4) p k = Ok v" using E(1,2) b v len by (simp add: slot_at_def x_def)
  ultimately show "slot_set (fs_sb s) d k v c (c(b := new))" using set [of 4] by simp
qed

lemma slot_set_dirs:
  assumes "dirs_ok c s" "slot_set (fs_sb s) d k v c c'" "same_meta s s'"
  shows "dirs_ok c' s'"
proof (rule dirs_ok_cong [OF assms(1)])
  fix d' i k' assume i: "is_dir c (fs_sb s) d' i" "k' < dir_entries i"
  then have "slot_at c i k' = Ok (slot_entry c i k')" using assms(1) by (auto simp: dirs_ok_def dir_ok_def)
  then show "\<exists>e. slot_at c' i k' = Ok e" using assms(2) i by (auto simp: slot_set_def)
qed (use assms(2,3) in \<open>auto simp: slot_set_def same_meta_def fs_bit_def\<close>)

lemma slot_set_entry:
  assumes "slot_set sb d k v c c'" "is_dir c sb d' i" "k' < dir_entries i"
  shows "slot_entry c' i k' = (if d' = d \<and> k' = k then v else slot_entry c i k')"
  using assms by (simp add: slot_set_def slot_entry_def)

lemma slot_set_table: "slot_set sb d k v c c' \<Longrightarrow> inode_in c' sb d' = inode_in c sb d' \<and> is_dir c' sb = is_dir c sb"
  by (simp add: slot_set_def is_dir_def fun_eq_iff)

lemma slot_set_same:
  assumes "dirs_ok c s" "slot_set (fs_sb s) d k (slot_entry c p k) c c'" "is_dir c (fs_sb s) d p" "k < dir_entries p"
  shows "alters N F (fs_sb s) c c'"
proof (rule alters_same)
  fix d' i k' assume "is_dir c (fs_sb s) d' i" "k' < dir_entries i"
  moreover have "slot_at c p k = Ok (slot_entry c p k)" using assms by (auto simp: dirs_ok_def dir_ok_def)
  ultimately show "slot_at c' i k' = slot_at c i k'" using assms(2,3) by (auto simp: slot_set_def is_dir_def)
qed (use assms(2) in \<open>simp add: slot_set_def\<close>)

text \<open>Only the names of the entries before and after can change.\<close>

lemma slot_set_lookup:
  assumes set: "slot_set sb d k v c c'" and i: "is_dir c sb d' i"
    and ne: "\<And>e. d' = d \<Longrightarrow> k < dir_entries i \<Longrightarrow> slot_entry c i k = Some e \<or> v = Some e \<Longrightarrow> dirent_name e \<noteq> name"
  shows "lookup c' i name = lookup c i name"
proof -
  have same: "has_name c' i name j = has_name c i name j \<and> (has_name c i name j \<longrightarrow> slot_entry c' i j = slot_entry c i j)" if j: "j < dir_entries i" for j
  proof (cases "d' = d \<and> j = k")
    case True
    then have "\<not> has_name c' i name j" "\<not> has_name c i name j" using ne j slot_set_entry [OF set i j] by (auto simp: has_name_def split: option.splits)
    then show ?thesis by simp
  next
    case False
    then show ?thesis using slot_set_entry [OF set i j] by (auto simp: has_name_def)
  qed
  then have "find (has_name c' i name) [0..<dir_entries i] = find (has_name c i name) [0..<dir_entries i]" by (intro find_cong_upt) simp
  then show ?thesis using same by (auto simp: lookup_def find_Some_iff intro!: option.map_cong)
qed

lemma slot_set_alters:
  assumes set: "slot_set sb d k v c c'" and p: "is_dir c sb d p" and ne: "\<And>e. slot_entry c p k = Some e \<or> v = Some e \<Longrightarrow> dirent_name e = name"
  shows "alters {(d, name)} {} sb c c'"
proof (rule altersI)
  fix x i assume i: "inode_in c sb x = Ok i"
  have "lookup c' i n = lookup c i n" if "inode_kind i = Some Dir" "(x, n) \<notin> {(d, name)}" for n
    using that i p ne by (intro slot_set_lookup [OF set, of x]) (auto simp: is_dir_def)
  then show "\<exists>i'. inode_in c' sb x = Ok i' \<and> i_kind i' = i_kind i \<and>
      (if inode_kind i = Some Dir then \<forall>n. (x, n) \<notin> {(d, name)} \<longrightarrow> lookup c' i' n = lookup c i n else i' = i)"
    using slot_set_table [OF set] i by simp
qed (use slot_set_table [OF set] in simp)

text \<open>A new name in a free slot.\<close>

lemma slot_add:
  assumes set: "slot_set sb d k (Some e) c c'" and p: "is_dir c sb d p" "k < dir_entries p"
    and free: "slot_entry c p k = None" and new: "lookup c p (dirent_name e) = None"
  shows "alters {(d, dirent_name e)} {} sb c c'" "keeps T sb c c'" "lookup c' p (dirent_name e) = Some (k, d_ino e)"
proof -
  show A: "alters {(d, dirent_name e)} {} sb c c'" by (rule slot_set_alters [OF set p(1)]) (use free in auto)
  show "keeps T sb c c'" by (rule alters_keeps [OF A]) (use new p(1) in \<open>auto simp: is_dir_def\<close>)
  have "\<not> has_name c' p (dirent_name e) j" if "j < k" for j
    using new [unfolded lookup_None_iff] slot_set_entry [OF set p(1), of j] that p(2) by (auto simp: has_name_def)
  then show "lookup c' p (dirent_name e) = Some (k, d_ino e)"
    using slot_set_entry [OF set p] p(2) by (simp add: lookup_Some_iff)
qed

text \<open>A name erased.\<close>

lemma slot_erase:
  assumes set: "slot_set sb d k None c c'" and p: "is_dir c sb d p" and l: "lookup c p name = Some (k, x)"
  shows "is_dir c sb d' i \<Longrightarrow> (d', name') \<noteq> (d, name) \<Longrightarrow> lookup c' i name' = lookup c i name'" "keeps {x} sb c c'"
proof -
  note L = l [unfolded lookup_Some_iff]
  have other: "lookup c' i name' = lookup c i name'" if i: "is_dir c sb d' i" and ne: "(d', name') \<noteq> (d, name)" for d' i name'
    by (rule slot_set_lookup [OF set i]) (use L i p ne in \<open>auto simp: is_dir_def\<close>)
  then show "is_dir c sb d' i \<Longrightarrow> (d', name') \<noteq> (d, name) \<Longrightarrow> lookup c' i name' = lookup c i name'" .
  have "lookup c' i name' = Some (k', x')" if "is_dir c sb d' i" "lookup c i name' = Some (k', x')" "x' \<noteq> x" for d' i name' k' x'
    using other [OF that(1), of name'] that p l by (cases "(d', name') = (d, name)") (auto simp: is_dir_def)
  then show "keeps {x} sb c c'" unfolding keeps_def using slot_set_table [OF set] by (auto simp: is_dir_def)
qed

context block_device
begin

lemma write_entry_cases:
  assumes s: "volume_ok D ready s" and dirs: "dirs_ok (content (fs_dev s)) s" and p: "is_dir (content (fs_dev s)) (fs_sb s) d p"
    and k: "k < dir_entries p" and b: "i_direct p ! (k div per_block) \<noteq> 0" and name: "length name \<le> NAME_MAX" "ino = 0 \<or> name \<noteq> []"
    and run: "write_entry D p k ino name s = (r, s')"
  obtains v where "if ino = 0 then v = None else \<exists>e. v = Some e \<and> d_ino e = ino \<and> dirent_name e = name" "same_meta s s'"
    "slot_set (fs_sb s) d k v (content (fs_dev s)) (content (fs_dev s')) \<or>
     slot_set (fs_sb s) d k (slot_entry (content (fs_dev s)) p k) (content (fs_dev s)) (content (fs_dev s'))"
    "r = Ok () \<Longrightarrow> volume_ok D ready s' \<and> slot_set (fs_sb s) d k v (content (fs_dev s)) (content (fs_dev s'))"
proof -
  define c where "c = content (fs_dev s)"
  define q where "q = i_direct p ! (k div per_block)"
  define new where "new = entry_image k ino name (c q)"
  have g: "geometry (fs_sb s)" using s by (simp add: volume_ok_def)
  note m = dir_block_marked [OF dirs p k]
  have data: "in_data (fs_sb s) q" and q: "q \<noteq> 0" using m(2) b by (simp_all add: q_def)
  have lt: "q < total_blocks (fs_sb s)" using data by (simp add: in_data_def)
  have len: "length (c q) = BLOCK" using content_length [of "fs_dev s" q] s lt by (auto simp: volume_ok_def c_def)
  let ?o = "k mod per_block * DIRENT_SIZE"
  have "length (slice_at ?o DIRENT_SIZE (c q)) = DIRENT_SIZE" using len entry_slot_bound [of k] by simp
  then obtain v where v: "dirent_decode (entry_bytes ino name (slice_at ?o DIRENT_SIZE (c q))) = Ok v"
    "if ino = 0 then v = None else \<exists>e. v = Some e \<and> d_ino e = ino \<and> dirent_name e = name"
    using entry_decodes [OF _ name] by blast
  note W = slot_write [OF g dirs p k q_def [symmetric] q len [unfolded c_def] name(1) v(1) [unfolded c_def], folded c_def new_def]
  have run: "fs_bind (read_data_block D q) (\<lambda>blk. dev_write D q (entry_image k ino name blk)) s = (r, s')"
    using run q m(3) by (simp add: write_entry_def fs_bind_def [of "fs_return a" for a] block_ptr_def q_def)
  have same: "slot_set (fs_sb s) d k (slot_entry c p k) c c" using dirs p k by (auto simp: slot_set_def c_def is_dir_def dirs_ok_def dir_ok_def)
  from run show ?thesis
  proof (cases rule: fs_bind_cases)
    case (err e)
    note R = reads_asD [OF reads_data_block s err(1)]
    show ?thesis by (rule that [OF v(2) R(2)]) (use R(3) same err(2) in \<open>simp_all add: c_def\<close>)
  next
    case (ok blk s1)
    note R = reads_asD [OF reads_data_block s ok(1)]
    have blk: "blk = c q" using R(4) data by (simp add: data_in_def c_def)
    have lt1: "q < total_blocks (fs_sb s1)" using lt R(2) by (simp add: same_meta_def)
    have ln: "length new = BLOCK" unfolding new_def by (rule entry_slot(1) [OF len name(1)])
    show ?thesis
    proof (rule dev_write_cases [OF R(1) lt1 ln ok(2) [unfolded blk, folded new_def]])
      assume w: "r = Ok ()" "volume_ok D ready s'" "same_meta s1 s'" "content (fs_dev s') = (content (fs_dev s1))(q := new)"
      show ?thesis by (rule that [OF v(2) same_meta_trans [OF R(2) w(3)]]) (use W(1) w R(3) in \<open>simp_all add: c_def new_def\<close>)
    next
      fix t assume w: "r = Err Io" "same_meta s1 s'" "content (fs_dev s') = (content (fs_dev s1))(q := torn t new (content (fs_dev s1) q))"
      show ?thesis by (rule that [OF v(2) same_meta_trans [OF R(2) w(2)]]) (use W(2) [of t] w R(3) in \<open>simp_all add: c_def new_def\<close>)
    qed
  qed
qed

end

section \<open>Growing a directory\<close>

definition grown :: "inode \<Rightarrow> u64 \<Rightarrow> inode" where
  "grown p nb = p\<lparr>i_direct := (i_direct p)[dir_blocks p := nb], i_size := word_of_nat (Suc (dir_blocks p) * BLOCK), i_generation := i_generation p + 1\<rparr>"

lemma slot_at_cong:
  "(i_direct i ! (k div per_block) \<noteq> 0 \<Longrightarrow> c' (i_direct i ! (k div per_block)) = c (i_direct i ! (k div per_block))) \<Longrightarrow> slot_at c' i k = slot_at c i k"
  by (auto simp: slot_at_def Let_def)

lemma grown_entries:
  assumes "dir_blocks p < NDIRECT"
  shows "dir_blocks (grown p nb) = Suc (dir_blocks p)" "dir_entries (grown p nb) = Suc (dir_blocks p) * per_block"
    "unat (i_size (grown p nb)) mod BLOCK = 0"
proof -
  have "unat (word_of_nat (Suc (dir_blocks p) * BLOCK) :: u64) = Suc (dir_blocks p) * BLOCK" by (rule unat_word_of_nat_64) (use assms in simp)
  then have "unat (i_size (grown p nb)) = Suc (dir_blocks p) * 2048" by (simp add: grown_def)
  then show "dir_blocks (grown p nb) = Suc (dir_blocks p)" "dir_entries (grown p nb) = Suc (dir_blocks p) * per_block" "unat (i_size (grown p nb)) mod BLOCK = 0"
    by (simp_all add: dir_blocks_def dir_entries_def unat_div)
qed

lemma slice_zeros: "off + n \<le> m \<Longrightarrow> slice_at off n (replicate m 0) = replicate n 0"
  by (simp add: slice_at_def)

lemma grown_slot:
  assumes p: "dir_ok c s p" "length (i_direct p) = NDIRECT" "dir_blocks p < NDIRECT" and nb: "nb \<noteq> 0" "c' nb = replicate BLOCK 0"
    and same: "\<And>k. k < dir_entries p \<Longrightarrow> slot_at c' p k = slot_at c p k" and k: "k < dir_entries (grown p nb)"
  shows "slot_at c' (grown p nb) k = (if k < dir_entries p then slot_at c p k else Ok None)"
proof -
  note n = dir_entries_blocks [OF p(1)] and n' = grown_entries(2) [OF p(3), of nb]
  show ?thesis
  proof (cases "k < dir_entries p")
    case True
    then have "k div 32 \<noteq> dir_blocks p" using n by auto
    then have "slot_at c' (grown p nb) k = slot_at c' p k" by (simp add: slot_at_def grown_def)
    then show ?thesis using True same by simp
  next
    case False
    then have "k div 32 = dir_blocks p" using k n n' by (intro div_nat_eqI) simp_all
    then show ?thesis using False p(2,3) nb slice_zeros [OF entry_slot_bound [of k]] dirent_decode_zero by (simp add: slot_at_def grown_def)
  qed
qed

lemma find_append: "find P (xs @ ys) = (case find P xs of Some x \<Rightarrow> Some x | None \<Rightarrow> find P ys)"
  by (induction xs) simp_all

lemma grown_lookup:
  assumes p: "dir_ok c s p" "length (i_direct p) = NDIRECT" "dir_blocks p < NDIRECT" and nb: "nb \<noteq> 0" "c' nb = replicate BLOCK 0"
    and same: "\<And>k. k < dir_entries p \<Longrightarrow> slot_at c' p k = slot_at c p k"
  shows "lookup c' (grown p nb) name = lookup c p name"
proof -
  let ?n = "dir_entries p" and ?m = "dir_entries (grown p nb)"
  note slot = grown_slot [OF assms(1-5) same]
  have le: "?n \<le> ?m" using dir_entries_blocks [OF p(1)] grown_entries(2) [OF p(3), of nb] by simp
  have "find (has_name c' (grown p nb) name) [0..<?m] = find (has_name c p name) [0..<?n]"
  proof -
    have "[0..<?m] = [0..<?n] @ [?n..<?m]" using le upt_add_eq_append [of 0 ?n "?m - ?n"] by simp
    moreover have "find (has_name c' (grown p nb) name) [?n..<?m] = None" using slot by (auto simp: find_None_iff has_name_def slot_entry_def)
    moreover have "find (has_name c' (grown p nb) name) [0..<?n] = find (has_name c p name) [0..<?n]"
      using slot le by (intro find_cong_upt) (simp add: has_name_def slot_entry_def)
    ultimately show ?thesis by (simp add: find_append split: option.split)
  qed
  then show ?thesis using slot le by (auto simp: lookup_def slot_entry_def find_Some_iff intro!: option.map_cong)
qed

text \<open>The inode of directory \<open>d\<close> with the new block has been written.\<close>

definition grows :: "'d fs \<Rightarrow> u32 \<Rightarrow> inode \<Rightarrow> u64 \<Rightarrow> (u64 \<Rightarrow> u8 list) \<Rightarrow> (u64 \<Rightarrow> u8 list) \<Rightarrow> bool" where
  "grows s d p nb c c' \<longleftrightarrow>
     geometry (fs_sb s) \<and> dirs_ok c s \<and> is_dir c (fs_sb s) d p \<and> length (i_direct p) = NDIRECT \<and> dir_blocks p < NDIRECT \<and>
     in_data (fs_sb s) nb \<and> \<not> fs_bit s nb \<and> c nb = replicate BLOCK 0 \<and>
     table_kept (fs_sb s) d c c' \<and> inode_in c' (fs_sb s) d = Ok (grown p nb)"

lemma grows_facts:
  assumes "grows s d p nb c c'"
  shows "nb \<noteq> 0" "dir_ok c s p" "is_dir c' (fs_sb s) d' i \<longleftrightarrow> (if d' = d then i = grown p nb else is_dir c (fs_sb s) d' i)"
    "is_dir c (fs_sb s) d' i \<Longrightarrow> k < dir_entries i \<Longrightarrow> slot_at c' i k = slot_at c i k"
    "k < dir_entries (grown p nb) \<Longrightarrow> slot_at c' (grown p nb) k = (if k < dir_entries p then slot_at c p k else Ok None)"
    "lookup c' (grown p nb) name = lookup c p name"
proof -
  note A = assms [unfolded grows_def]
  have dirs: "dirs_ok c s" and p: "is_dir c (fs_sb s) d p" "length (i_direct p) = NDIRECT" "dir_blocks p < NDIRECT" using A by simp_all
  show nz: "nb \<noteq> 0" using A in_data_nonzero by blast
  have data: "c' b = c b" if "in_data (fs_sb s) b" for b using A that by (simp add: table_kept_def in_data_def)
  have slots: "slot_at c' i k = slot_at c i k" if "is_dir c (fs_sb s) d' i" "k < dir_entries i" for d' i k
    using dir_block_marked(2) [OF dirs that] data by (intro slot_at_cong) simp
  then show "is_dir c (fs_sb s) d' i \<Longrightarrow> k < dir_entries i \<Longrightarrow> slot_at c' i k = slot_at c i k" .
  show pok: "dir_ok c s p" using dirs p(1) by (auto simp: dirs_ok_def)
  have znb: "c' nb = replicate BLOCK 0" using data A by simp
  show "k < dir_entries (grown p nb) \<Longrightarrow> slot_at c' (grown p nb) k = (if k < dir_entries p then slot_at c p k else Ok None)"
    by (rule grown_slot [OF pok p(2,3) nz znb slots [OF p(1)]])
  show "lookup c' (grown p nb) name = lookup c p name" by (rule grown_lookup [OF pok p(2,3) nz znb slots [OF p(1)]])
  have "i_kind (grown p nb) = i_kind p" by (simp add: grown_def)
  then show "is_dir c' (fs_sb s) d' i \<longleftrightarrow> (if d' = d then i = grown p nb else is_dir c (fs_sb s) d' i)"
    using A inode_kind_cong [of "grown p nb" p] by (auto simp: table_kept_def is_dir_def)
qed

lemma grows_alters:
  assumes grow: "grows s d p nb c c'"
  shows "alters {} {} (fs_sb s) c c'"
proof (rule altersI)
  note F = grows_facts [OF grow] and A = grow [unfolded grows_def]
  have p: "inode_in c (fs_sb s) d = Ok p" "inode_kind p = Some Dir" "inode_in c' (fs_sb s) d = Ok (grown p nb)" "i_kind (grown p nb) = i_kind p"
    using A by (simp_all add: is_dir_def grown_def)
  have other: "inode_in c' (fs_sb s) x = inode_in c (fs_sb s) x" if "x \<noteq> d" for x using A that by (simp add: table_kept_def)
  fix x i assume i: "inode_in c (fs_sb s) x = Ok i"
  show "\<exists>i'. inode_in c' (fs_sb s) x = Ok i' \<and> i_kind i' = i_kind i \<and>
    (if inode_kind i = Some Dir then \<forall>name. (x, name) \<notin> {} \<longrightarrow> lookup c' i' name = lookup c i name else i' = i)"
  proof (cases "x = d")
    case True
    then show ?thesis using i p F(6) by simp
  next
    case False
    then show ?thesis using i other lookup_cong [of i c' c] F(4) [of x i] by (simp add: is_dir_def)
  qed
next
  note A = grow [unfolded grows_def]
  fix x e assume "inode_in c (fs_sb s) x = Err e"
  then show "inode_in c' (fs_sb s) x = Err e" using A by (cases "x = d") (auto simp: table_kept_def is_dir_def)
qed

lemma grows_slot:
  assumes "grows s d p nb c c'"
  shows "dir_entries p = dir_blocks p * per_block" "dir_entries (grown p nb) = dir_entries p + per_block"
    "slot_entry c' (grown p nb) (dir_entries p) = None" "i_direct (grown p nb) ! dir_blocks p = nb"
proof -
  show n: "dir_entries p = dir_blocks p * per_block" by (rule dir_entries_blocks [OF grows_facts(2) [OF assms]])
  moreover show "dir_entries (grown p nb) = dir_entries p + per_block"
    using n grown_entries(2) [of p nb] assms by (simp add: grows_def)
  ultimately show "slot_entry c' (grown p nb) (dir_entries p) = None" using grows_facts(5) [OF assms, of "dir_entries p"] by (simp add: slot_entry_def)
  show "i_direct (grown p nb) ! dir_blocks p = nb" using assms by (simp add: grows_def grown_def)
qed

lemma grows_dirs:
  assumes grow: "grows s d p nb c c'" and sb: "fs_sb s' = fs_sb s" and bit: "\<And>b. fs_bit s' b \<longleftrightarrow> b = nb \<or> fs_bit s b"
  shows "dirs_ok c' s'"
proof -
  note F = grows_facts [OF grow]
  have dirs: "dirs_ok c s" and p: "is_dir c (fs_sb s) d p" "length (i_direct p) = NDIRECT" "dir_blocks p < NDIRECT"
    and nb: "in_data (fs_sb s) nb" "\<not> fs_bit s nb" using grow by (simp_all add: grows_def)
  note n = grown_entries [OF p(3), of nb]
  have ok: "dir_ok c' s' i" if "is_dir c' (fs_sb s) d' i" for d' i
  proof (cases "d' = d")
    case True
    then have i: "i = grown p nb" using that F(3) by simp
    have "i_direct i ! j \<noteq> 0 \<longrightarrow> in_data (fs_sb s') (i_direct i ! j) \<and> fs_bit s' (i_direct i ! j)" if "j < dir_blocks i" for j
      using that F(2) nb(1) p(2,3) sb bit n(1) unfolding i by (auto simp: dir_ok_def grown_def nth_list_update)
    moreover have "slot_at c' i k = Ok (slot_entry c' i k)" if "k < dir_entries i" for k
      using F(5) [of k] that F(2) unfolding i by (auto simp: slot_entry_def dir_ok_def)
    ultimately show ?thesis using n p(3) by (simp add: dir_ok_def i)
  next
    case False
    then have i: "is_dir c (fs_sb s) d' i" using that F(3) by simp
    then have "dir_ok c s i" using dirs by (auto simp: dirs_ok_def)
    then show ?thesis using F(4) [OF i] sb bit by (simp add: dir_ok_def slot_entry_def)
  qed
  have old: "\<exists>i0. is_dir c (fs_sb s) d' i0 \<and> (i_direct i ! j = nb \<and> d' = d \<and> j = dir_blocks p \<or> i_direct i ! j = i_direct i0 ! j \<and> j < dir_blocks i0)"
    if "is_dir c' (fs_sb s) d' i" "j < dir_blocks i" for d' i j
    using that F(3) [of d' i] p n(1) by (cases "d' = d") (auto simp: grown_def nth_list_update)
  have unmarked: "i_direct i ! j \<noteq> nb" if "is_dir c (fs_sb s) d' i" "j < dir_blocks i" for d' i j
    using that dirs nb(2) F(1) by (auto simp: dirs_ok_def dir_ok_def)
  show ?thesis unfolding dirs_ok_def sb
  proof (intro conjI allI impI)
    fix d1 i1 d2 i2 j1 j2
    assume a: "is_dir c' (fs_sb s) d1 i1" "is_dir c' (fs_sb s) d2 i2" "j1 < dir_blocks i1" "j2 < dir_blocks i2" "i_direct i1 ! j1 = i_direct i2 ! j2" "i_direct i1 ! j1 \<noteq> 0"
    from old [OF a(1,3)] old [OF a(2,4)] obtain x1 x2 where
      x1: "is_dir c (fs_sb s) d1 x1" "i_direct i1 ! j1 = nb \<and> d1 = d \<and> j1 = dir_blocks p \<or> i_direct i1 ! j1 = i_direct x1 ! j1 \<and> j1 < dir_blocks x1" and
      x2: "is_dir c (fs_sb s) d2 x2" "i_direct i2 ! j2 = nb \<and> d2 = d \<and> j2 = dir_blocks p \<or> i_direct i2 ! j2 = i_direct x2 ! j2 \<and> j2 < dir_blocks x2" by blast
    from x1(2) x2(2) unmarked [OF x1(1), of j1] unmarked [OF x2(1), of j2] dirs_ok_blocks [OF dirs x1(1) x2(1), of j1 j2] a(5,6)
    show "d1 = d2" "j1 = j2" by auto
  qed (rule ok)
qed

section \<open>A free slot\<close>

text \<open>Changes outside the inode table and the blocks in use.\<close>

lemma dirs_ok_mono:
  assumes "dirs_ok c s" "fs_sb s' = fs_sb s" "\<And>b. fs_bit s b \<Longrightarrow> fs_bit s' b"
  shows "dirs_ok c s'"
proof (rule dirs_ok_cong [OF assms(1) refl assms(2,3)])
  fix d i k assume "is_dir c (fs_sb s) d i" "k < dir_entries i"
  then have "slot_at c i k = Ok (slot_entry c i k)" using assms(1) by (auto simp: dirs_ok_def dir_ok_def)
  then show "\<exists>e. slot_at c i k = Ok e" ..
qed

lemma names_same:
  assumes dirs: "dirs_ok c s" and t: "\<And>d. inode_in c' (fs_sb s) d = inode_in c (fs_sb s) d"
    and data: "\<And>b. in_data (fs_sb s) b \<Longrightarrow> fs_bit s b \<Longrightarrow> c' b = c b"
  shows "alters {} {} (fs_sb s) c c'" "dirs_ok c' s" "is_dir c' (fs_sb s) = is_dir c (fs_sb s)"
    "is_dir c (fs_sb s) d i \<Longrightarrow> k < dir_entries i \<Longrightarrow> slot_at c' i k = slot_at c i k" "is_dir c (fs_sb s) d i \<Longrightarrow> lookup c' i name = lookup c i name"
proof -
  have slots: "slot_at c' i k = slot_at c i k" if "is_dir c (fs_sb s) d i" "k < dir_entries i" for d i k
    using dir_block_marked(2) [OF dirs that] data by (intro slot_at_cong) simp
  then show "is_dir c (fs_sb s) d i \<Longrightarrow> k < dir_entries i \<Longrightarrow> slot_at c' i k = slot_at c i k" .
  show "alters {} {} (fs_sb s) c c'" by (rule alters_same [OF t slots])
  show "is_dir c' (fs_sb s) = is_dir c (fs_sb s)" using t by (simp add: is_dir_def fun_eq_iff)
  show "is_dir c (fs_sb s) d i \<Longrightarrow> lookup c' i name = lookup c i name" using slots by (intro lookup_cong)
  show "dirs_ok c' s"
  proof (rule dirs_ok_cong [OF dirs t refl])
    fix d i k assume i: "is_dir c (fs_sb s) d i" "k < dir_entries i"
    then have "slot_at c i k = Ok (slot_entry c i k)" using dirs by (auto simp: dirs_ok_def dir_ok_def)
    then show "\<exists>e. slot_at c' i k = Ok e" using slots [OF i] by simp
  qed
qed

lemma names_unused:
  assumes "dirs_ok c s" "geometry (fs_sb s)" "in_data (fs_sb s) b" "\<not> fs_bit s b"
  shows "alters {} {} (fs_sb s) c (c(b := x))" "dirs_ok (c(b := x)) s" "is_dir (c(b := x)) (fs_sb s) = is_dir c (fs_sb s)"
    "is_dir c (fs_sb s) d i \<Longrightarrow> lookup (c(b := x)) i name = lookup c i name"
proof -
  have T: "inode_in (c(b := x)) (fs_sb s) d' = inode_in c (fs_sb s) d'" for d'
    by (rule inode_in_kept [OF assms(2)]) (use assms(3) in \<open>auto simp: in_data_def\<close>)
  note N = names_same [OF assms(1), of "c(b := x)"]
  show "alters {} {} (fs_sb s) c (c(b := x))" "dirs_ok (c(b := x)) s" "is_dir (c(b := x)) (fs_sb s) = is_dir c (fs_sb s)"
    "is_dir c (fs_sb s) d i \<Longrightarrow> lookup (c(b := x)) i name = lookup c i name"
    by (rule N; use T assms(4) in auto)+
qed

lemma names_tail:
  assumes "dirs_ok c s" "geometry (fs_sb s)" "\<forall>b. inode_start (fs_sb s) \<le> b \<longrightarrow> c' b = c b"
  shows "alters {} {} (fs_sb s) c c'" "dirs_ok c' s" "is_dir c' (fs_sb s) = is_dir c (fs_sb s)"
    "is_dir c (fs_sb s) d i \<Longrightarrow> k < dir_entries i \<Longrightarrow> slot_at c' i k = slot_at c i k" "is_dir c (fs_sb s) d i \<Longrightarrow> lookup c' i name = lookup c i name"
proof -
  have T: "inode_in c' (fs_sb s) d = inode_in c (fs_sb s) d" "in_data (fs_sb s) b \<Longrightarrow> c' b = c b" for d b
    using tail_kept(2,3) [of "fs_sb s" c' c, OF assms(2)] assms(3) by simp_all
  note N = names_same [OF assms(1), of c']
  show "alters {} {} (fs_sb s) c c'" "dirs_ok c' s" "is_dir c' (fs_sb s) = is_dir c (fs_sb s)"
    "is_dir c (fs_sb s) d i \<Longrightarrow> k < dir_entries i \<Longrightarrow> slot_at c' i k = slot_at c i k" "is_dir c (fs_sb s) d i \<Longrightarrow> lookup c' i name = lookup c i name"
    by (rule N; use T in simp)+
qed

text \<open>What a search for a slot of directory \<open>d\<close> does: no name comes or goes, and the slot it returns is free.\<close>

definition slot_given :: "'d block_dev \<Rightarrow> ('d \<Rightarrow> bool) \<Rightarrow> ('d \<Rightarrow> u64 \<Rightarrow> u8 list) \<Rightarrow> 'd fs \<Rightarrow> u32 \<Rightarrow> inode \<Rightarrow>
    (fs_error, nat \<times> inode) result \<Rightarrow> 'd fs \<Rightarrow> bool" where
  "slot_given D ready content s d p r s' \<longleftrightarrow>
     (let c = content (fs_dev s); c' = content (fs_dev s'); sb = fs_sb s in
      fs_sb s' = sb \<and> alters {} {} sb c c' \<and> dirs_ok c' s' \<and>
      (\<forall>k p'. r = Ok (k, p') \<longrightarrow> volume_ok D ready s' \<and> is_dir c' sb d p' \<and> k < dir_entries p' \<and>
         slot_entry c' p' k = None \<and> i_direct p' ! (k div per_block) \<noteq> 0 \<and> (\<forall>name. lookup c' p' name = lookup c p name)))"

lemma slot_given_err: "fs_sb s' = fs_sb s \<Longrightarrow> alters {} {} (fs_sb s) (content (fs_dev s)) (content (fs_dev s')) \<Longrightarrow> dirs_ok (content (fs_dev s')) s' \<Longrightarrow> slot_given D ready content s d p (Err e) s'"
  by (simp add: slot_given_def Let_def)

lemma dir_extend_shape:
  assumes "dir_ok c s p" "dir_blocks p < NDIRECT"
  shows "dir_extend D d p = fs_bind alloc_block (\<lambda>nb. fs_bind (dev_write D nb (replicate BLOCK 0)) (\<lambda>_.
     fs_bind (write_inode D d (grown p nb)) (\<lambda>_. fs_bind (write_bitmap D) (\<lambda>_. fs_return (dir_entries p, grown p nb)))))"
  using assms(2) dir_entries_blocks [OF assms(1)] by (simp add: dir_extend_def Let_def grown_def algebra_simps)

lemma inode_in_wf: "inode_in c sb d = Ok i \<Longrightarrow> inode_wf i \<or> i = inode_free"
  by (auto simp: inode_in_def try_bind_Ok_iff dest!: inode_decode_wf)

lemma inode_wf_grown:
  assumes "is_dir c sb d p"
  shows "inode_wf (grown p nb) \<and> length (i_direct p) = NDIRECT"
proof -
  have "inode_kind p = Some Dir" "inode_wf p \<or> p = inode_free" using assms inode_in_wf by (auto simp: is_dir_def)
  then have "inode_wf p" by (auto simp: inode_kind_def inode_free_def)
  then show ?thesis by (simp add: inode_wf_def grown_def)
qed

context block_device
begin

lemma grow_inode:
  assumes s0: "geometry (fs_sb s0)" "dirs_ok c s0" "is_dir c (fs_sb s0) d p" "dir_blocks p < NDIRECT"
    and nb: "in_data (fs_sb s0) nb" "\<not> fs_bit s0 nb" "c nb = replicate BLOCK 0"
    and s: "volume_ok D ready s" "content (fs_dev s) = c" "fs_sb s = fs_sb s0" "\<And>b. fs_bit s b \<longleftrightarrow> b = nb \<or> fs_bit s0 b"
    and run: "write_inode D d (grown p nb) s = (q, s1)"
  shows "alters {} {} (fs_sb s) c (content (fs_dev s1))" "dirs_ok (content (fs_dev s1)) s1" "q = Ok () \<Longrightarrow> grows s0 d p nb c (content (fs_dev s1))"
proof -
  note wf = inode_wf_grown [OF s0(3), of nb]
  note W = write_inode_cases [OF s(1) _ run]
  have s1: "fs_sb s1 = fs_sb s0" "\<And>b. fs_bit s1 b \<longleftrightarrow> b = nb \<or> fs_bit s0 b" using W wf s(3,4) by (auto simp: same_meta_def fs_bit_def)
  have grow: "grows s0 d p nb c (content (fs_dev s1))" if "inode_in (content (fs_dev s1)) (fs_sb s) d = Ok (grown p nb)"
    using W wf s s0 nb that by (simp add: grows_def)
  then show "q = Ok () \<Longrightarrow> grows s0 d p nb c (content (fs_dev s1))" using W wf by simp
  have "alters {} {} (fs_sb s0) c (content (fs_dev s1)) \<and> dirs_ok (content (fs_dev s1)) s1"
  proof (cases "inode_in (content (fs_dev s1)) (fs_sb s) d = Ok (grown p nb)")
    case True
    then show ?thesis using grows_alters [OF grow] grows_dirs [OF grow s1] by simp
  next
    case False
    have "inode_in (content (fs_dev s1)) (fs_sb s0) x = inode_in c (fs_sb s0) x" "in_data (fs_sb s0) b \<Longrightarrow> content (fs_dev s1) b = c b" for x b
      using W wf s(2,3) False by (auto simp: table_kept_def in_data_def)
    note N = names_same [OF s0(2) this]
    show ?thesis using N(1) dirs_ok_mono [OF N(2) s1(1)] s1(2) by simp
  qed
  then show "alters {} {} (fs_sb s) c (content (fs_dev s1))" "dirs_ok (content (fs_dev s1)) s1" using s(3) by simp_all
qed

lemma grow_commit:
  assumes s0: "geometry (fs_sb s0)" "dirs_ok c s0" "is_dir c (fs_sb s0) d p" "dir_blocks p < NDIRECT"
    and nb: "in_data (fs_sb s0) nb" "\<not> fs_bit s0 nb" "c nb = replicate BLOCK 0"
    and s: "volume_ok D ready s" "content (fs_dev s) = c" "fs_sb s = fs_sb s0" "\<And>b. fs_bit s b \<longleftrightarrow> b = nb \<or> fs_bit s0 b"
    and run: "fs_bind (write_inode D d (grown p nb)) (\<lambda>_. fs_bind (write_bitmap D) (\<lambda>_. fs_return (dir_entries p, grown p nb))) s = (r, s')"
  shows "slot_given D ready content s d p r s'"
proof -
  note wf = inode_wf_grown [OF s0(3), of nb] and step = grow_inode [OF s0 nb s]
  from run show ?thesis
  proof (cases rule: fs_bind_cases)
    case (err e)
    then show ?thesis using step [OF err(1)] write_inode_cases [OF s(1) _ err(1)] wf s(2) by (simp add: slot_given_err same_meta_def)
  next
    case (ok u s1)
    note W = write_inode_cases [OF s(1) _ ok(1)]
    have s1: "volume_ok D ready s1" "fs_sb s1 = fs_sb s0" using W wf s(3) by (auto simp: same_meta_def)
    have g: "grows s0 d p nb c (content (fs_dev s1))" and k: "alters {} {} (fs_sb s) c (content (fs_dev s1))" and dirs1: "dirs_ok (content (fs_dev s1)) s1"
      using step [OF ok(1)] by auto
    obtain q where q: "write_bitmap D s1 = (q, s')" "\<forall>x. r = Ok x \<longrightarrow> q = Ok () \<and> x = (dir_entries p, grown p nb)"
      using ok(2) by (auto simp: fs_bind_def split: prod.splits sum.splits)
    note B = write_bitmap_result [OF s1(1) q(1)]
    have "\<forall>b. inode_start (fs_sb s1) \<le> b \<longrightarrow> content (fs_dev s') b = content (fs_dev s1) b" "geometry (fs_sb s1)" using B s1(2) s0(1) by simp_all
    note N = names_tail [OF dirs1 this(2,1)]
    have keep: "alters {} {} (fs_sb s) c (content (fs_dev s'))" using alters_none_trans [OF k] N(1) s1(2) s(3) by simp
    have dirs': "dirs_ok (content (fs_dev s')) s'" using N(2) dirs_ok_meta [of s1 s'] B by simp
    note S = grows_slot [OF g] and F = grows_facts [OF g]
    have d1: "is_dir (content (fs_dev s1)) (fs_sb s1) d (grown p nb)" using F(3) s1(2) by simp
    have "is_dir (content (fs_dev s')) (fs_sb s) d (grown p nb) \<and>
      dir_entries p < dir_entries (grown p nb) \<and> slot_entry (content (fs_dev s')) (grown p nb) (dir_entries p) = None \<and>
      i_direct (grown p nb) ! (dir_entries p div per_block) \<noteq> 0 \<and> (\<forall>name. lookup (content (fs_dev s')) (grown p nb) name = lookup c p name)"
      using N(3,5) d1 S F(1,6) N(4) [OF d1, of "dir_entries p"] s1(2) s(3) by (simp add: slot_entry_def)
    then show ?thesis using keep dirs' q(2) B s1(2) s(2,3) by (auto simp: slot_given_def Let_def same_meta_def)
  qed
qed

lemma slot_given_trans:
  assumes "slot_given D ready content s1 d p r s'" "fs_sb s1 = fs_sb s" "alters {} {} (fs_sb s) (content (fs_dev s)) (content (fs_dev s1))"
    "\<And>name. lookup (content (fs_dev s1)) p name = lookup (content (fs_dev s)) p name"
  shows "slot_given D ready content s d p r s'"
  using assms alters_none_trans [OF assms(3)] by (auto simp: slot_given_def Let_def)

lemma dir_extend_result:
  assumes s: "volume_ok D ready s" and dirs: "dirs_ok (content (fs_dev s)) s" and p: "is_dir (content (fs_dev s)) (fs_sb s) d p"
    and run: "dir_extend D d p s = (r, s')"
  shows "slot_given D ready content s d p r s'"
proof -
  define c where "c = content (fs_dev s)"
  have pok: "dir_ok c s p" and g: "geometry (fs_sb s)" using dirs p s by (auto simp: dirs_ok_def c_def volume_ok_def)
  show ?thesis
  proof (cases "dir_blocks p < NDIRECT")
    case True
    from run [unfolded dir_extend_shape [OF pok True]] show ?thesis
    proof (cases rule: fs_bind_cases)
      case (err e)
      then show ?thesis by (cases rule: alloc_block_cases [OF s err(1)]) (use dirs in \<open>auto intro!: slot_given_err\<close>)
    next
      case (ok nb s1)
      have a: "in_data (fs_sb s) nb" "\<not> fs_bit s nb" "fs_dev s1 = fs_dev s" "fs_sb s1 = fs_sb s" "\<forall>b. fs_bit s1 b \<longleftrightarrow> b = nb \<or> fs_bit s b" "volume_ok D ready s1"
        using s by (auto intro: alloc_block_cases [OF s ok(1)])
      have lt: "nb < total_blocks (fs_sb s1)" using a(1,4) by (simp add: in_data_def)
      note names = names_unused [OF dirs [folded c_def] g a(1,2)]
      from ok(2) show ?thesis
      proof (cases rule: fs_bind_cases)
        case (err e)
        obtain x where x: "same_meta s1 s'" "content (fs_dev s') = c(nb := x)"
          by (rule dev_write_cases [OF a(6) lt _ err(1)]) (use a(3) in \<open>auto simp: c_def\<close>)
        have sb: "fs_sb s' = fs_sb s" "fs_bit s b \<Longrightarrow> fs_bit s' b" for b using x(1) a(4,5) by (auto simp: same_meta_def fs_bit_def)
        show ?thesis unfolding err(2)
          by (rule slot_given_err) (use sb names(1) x(2) dirs_ok_mono [OF names(2) sb] in \<open>auto simp: c_def\<close>)
      next
        case (ok u s2)
        have s2: "volume_ok D ready s2" "same_meta s1 s2" "content (fs_dev s2) = c(nb := replicate BLOCK 0)"
          using a(3) by (auto intro: dev_write_cases [OF a(6) lt _ ok(1)] simp: c_def)
        have sb: "fs_sb s2 = fs_sb s" and bit: "fs_bit s2 b \<longleftrightarrow> b = nb \<or> fs_bit s b" for b using s2(2) a(4,5) by (auto simp: same_meta_def fs_bit_def)
        have "slot_given D ready content s2 d p r s'"
          by (rule grow_commit [OF g _ _ True a(1,2) _ s2(1,3) sb bit ok(2)]) (use names(2,3) p in \<open>simp_all add: c_def\<close>)
        then show ?thesis by (rule slot_given_trans [OF _ sb]) (use names(1) names(4) [OF p [folded c_def]] s2(3) in \<open>auto simp: c_def\<close>)
      qed
    qed
  next
    case False
    then show ?thesis using run dir_entries_blocks [OF pok] dirs by (auto simp: dir_extend_def intro!: slot_given_err)
  qed
qed

end

lemma visit_used:
  assumes "\<forall>k\<in>set ks. k div 8 < length used"
  shows "bm_bit (fst (visit used_visit (used_slots c i ks) used)) j \<longleftrightarrow> bm_bit used j \<or> j \<in> set ks \<and> slot_entry c i j \<noteq> None"
  using assms
proof (induction ks arbitrary: used)
  case (Cons k ks)
  show ?case
  proof (cases "slot_entry c i k")
    case (Some e)
    have "bm_bit (used[k div 8 := used ! (k div 8) OR push_bit (k mod 8) 1]) j \<longleftrightarrow> j = k \<or> bm_bit used j"
      using bm_bit_or [of k used j] Cons.prems by simp
    then show ?thesis using Cons.IH [of "used[k div 8 := used ! (k div 8) OR push_bit (k mod 8) 1]"] Cons.prems Some by (auto simp: used_visit_def)
  qed (use Cons in auto)
qed simp

lemma find_slot_result:
  assumes "\<forall>k\<in>set ks. k div per_block < NDIRECT"
  shows "find_slot D p used ks = fs_return (find (\<lambda>k. \<not> bm_bit used k \<and> i_direct p ! (k div per_block) \<noteq> 0) ks)"
  using assms
proof (induction ks)
  case (Cons k ks)
  have "(used ! (k div 8) AND push_bit (k mod 8) 1 = 0) = (\<not> bm_bit used k)" by (simp add: bm_bit_def bit_iff_and_push_bit_not_eq_0)
  then show ?case using Cons by (auto simp: block_ptr_def fs_bind_def fun_eq_iff)
qed simp

context block_device
begin

lemma dir_alloc_slot_result:
  assumes s: "volume_ok D ready s" and dirs: "dirs_ok (content (fs_dev s)) s" and p: "is_dir (content (fs_dev s)) (fs_sb s) d p"
    and run: "dir_alloc_slot D d p s = (r, s')"
  shows "slot_given D ready content s d p r s'"
proof -
  define c where "c = content (fs_dev s)"
  let ?ks = "[0..<dir_entries p]"
  have pok: "dir_ok c s p" using dirs p by (auto simp: dirs_ok_def c_def)
  from run [unfolded dir_alloc_slot_def] show ?thesis
  proof (cases rule: fs_bind_cases)
    case (err e)
    note F = for_each_spec [OF s pok [unfolded c_def] err(1)]
    have "dirs_ok (content (fs_dev s')) s'" using F(3) dirs dirs_ok_meta [OF F(2)] by simp
    then show ?thesis unfolding err(2) by (intro slot_given_err) (use F(2,3) in \<open>simp_all add: same_meta_def\<close>)
  next
    case (ok used s1)
    note F = for_each_spec [OF s pok [unfolded c_def] ok(1)]
    have c1: "content (fs_dev s1) = c" and sb: "fs_sb s1 = fs_sb s" using F(2,3) by (simp_all add: c_def same_meta_def)
    have d1: "dirs_ok (content (fs_dev s1)) s1" "is_dir (content (fs_dev s1)) (fs_sb s1) d p" using dirs p F(2) dirs_ok_meta [OF F(2)] c1 sb by (simp_all add: c_def)
    have lt: "k div per_block < NDIRECT" if "k < dir_entries p" for k using dir_block_marked(3) [OF dirs p that] .
    then have small: "\<forall>k\<in>set ?ks. k div 8 < length (replicate 1072 (0 :: u8))" by fastforce
    from visit_used [OF small, of c p] have bit: "bm_bit used k \<longleftrightarrow> slot_entry c p k \<noteq> None" if "k < dir_entries p" for k
      using F(4) that small by (simp add: c_def bm_bit_def)
    let ?found = "find (\<lambda>k. \<not> bm_bit used k \<and> i_direct p ! (k div per_block) \<noteq> 0) ?ks"
    have run2: "(case ?found of Some i \<Rightarrow> fs_return (i, p) | None \<Rightarrow> dir_extend D d p) s1 = (r, s')"
      using ok(2) find_slot_result [of ?ks D p used] lt by (simp add: fs_bind_def)
    have "slot_given D ready content s1 d p r s'"
    proof (cases ?found)
      case None
      then show ?thesis using run2 dir_extend_result [OF F(1) d1] by simp
    next
      case (Some k)
      then have "k < dir_entries p" "\<not> bm_bit used k" "i_direct p ! (k div per_block) \<noteq> 0" by (auto simp: find_Some_iff)
      then show ?thesis using run2 Some F(1) d1 bit [of k] c1 by (auto simp: slot_given_def Let_def)
    qed
    then show ?thesis by (rule slot_given_trans [OF _ sb]) (use c1 in \<open>simp_all add: c_def\<close>)
  qed
qed

end

end
