(* ===== verification/Nexofs_Rename.thy ===== *)
theory Nexofs_Rename
  imports Nexofs_Slots
begin

text \<open>
  Paths on a disk that changes: a path resolves as before where the names it goes through are kept. A rename writes the new
  name before it erases the old one, so the object always has one of them, whatever write fails.
\<close>

section \<open>Routes\<close>

text \<open>The end of a path that goes through no object of \<open>T\<close>.\<close>

fun route :: "u32 set \<Rightarrow> (u64 \<Rightarrow> u8 list) \<Rightarrow> superblock \<Rightarrow> u32 \<Rightarrow> inode \<Rightarrow> u8 list list \<Rightarrow> (u32 \<times> inode) option" where
  "route T c sb d i [] = Some (d, i)"
| "route T c sb d i (part # parts) =
     (if inode_kind i \<noteq> Some Dir then None
      else case lookup c i part of
             None \<Rightarrow> None
           | Some (k, nxt) \<Rightarrow>
               if nxt \<in> T then None
               else (case inode_in c sb nxt of
                       Inl e \<Rightarrow> None
                     | Inr i' \<Rightarrow> if i_kind i' = 0 then None else route T c sb nxt i' parts))"

definition reach :: "u32 set \<Rightarrow> (u64 \<Rightarrow> u8 list) \<Rightarrow> superblock \<Rightarrow> u8 list list \<Rightarrow> (u32 \<times> inode) option" where
  "reach T c sb parts =
     (case inode_in c sb ROOT_INO of
        Inl e \<Rightarrow> None
      | Inr i \<Rightarrow> if inode_kind i = Some Dir then route T c sb ROOT_INO i parts else None)"

lemma reach_iff: "reach T c sb parts = Some x \<longleftrightarrow> (\<exists>i. inode_in c sb ROOT_INO = Ok i \<and> inode_kind i = Some Dir \<and> route T c sb ROOT_INO i parts = Some x)"
  by (auto simp: reach_def split: sum.splits)

lemma route_step:
  "route T c sb d i (part # parts) = Some x \<longleftrightarrow> inode_kind i = Some Dir \<and>
     (\<exists>k nxt i'. lookup c i part = Some (k, nxt) \<and> nxt \<notin> T \<and> inode_in c sb nxt = Ok i' \<and> i_kind i' \<noteq> 0 \<and> route T c sb nxt i' parts = Some x)"
  by (auto split: option.splits sum.splits)

lemma walk_step:
  "walk c sb d i (part # parts) = Ok x \<longleftrightarrow> inode_kind i = Some Dir \<and>
     (\<exists>k nxt i'. lookup c i part = Some (k, nxt) \<and> inode_in c sb nxt = Ok i' \<and> i_kind i' \<noteq> 0 \<and> walk c sb nxt i' parts = Ok x)"
  by (auto simp: try_bind_Ok_iff split: option.splits)

lemma walk_route: "walk c sb d i parts = Ok x \<longleftrightarrow> route {} c sb d i parts = Some x"
proof (induction parts arbitrary: d i)
  case (Cons part parts)
  then show ?case unfolding walk_step route_step by simp
qed simp

lemma resolve_reach: "resolve_in c sb path = Ok x \<longleftrightarrow> reach {} c sb (components path) = Some x"
  by (auto simp: resolve_in_def reach_def try_bind_Ok_iff walk_route split: sum.splits)

lemma route_append: "route T c sb d i (ps @ qs) = (case route T c sb d i ps of None \<Rightarrow> None | Some (x, ix) \<Rightarrow> route T c sb x ix qs)"
  by (induction T c sb d i ps rule: route.induct) (auto split: option.splits sum.splits)

lemma reach_snoc:
  "reach T c sb (ps @ [part]) = Some (x, ix) \<longleftrightarrow>
     (\<exists>d p k. reach T c sb ps = Some (d, p) \<and> inode_kind p = Some Dir \<and> lookup c p part = Some (k, x) \<and> x \<notin> T \<and> inode_in c sb x = Ok ix \<and> i_kind ix \<noteq> 0)"
proof -
  have "route T c sb d i (ps @ [part]) = Some (x, ix) \<longleftrightarrow> (\<exists>d' p k. route T c sb d i ps = Some (d', p) \<and> inode_kind p = Some Dir \<and>
      lookup c p part = Some (k, x) \<and> x \<notin> T \<and> inode_in c sb x = Ok ix \<and> i_kind ix \<noteq> 0)" for d i
    unfolding route_append by (auto simp: route_step simp del: route.simps(2) split: option.splits)
  then show ?thesis by (auto simp: reach_def split: sum.splits)
qed

lemma route_inode: "route T c sb d i parts = Some (x, ix) \<Longrightarrow> inode_in c sb d = Ok i \<Longrightarrow> i_kind i \<noteq> 0 \<Longrightarrow> inode_in c sb x = Ok ix \<and> i_kind ix \<noteq> 0"
proof (induction parts arbitrary: d i)
  case (Cons part parts)
  then show ?case unfolding route_step by blast
qed simp

lemma dir_kind_nonzero: "inode_kind i = Some k \<Longrightarrow> i_kind i \<noteq> 0"
  by (auto simp: inode_kind_def split: if_splits)

lemma reach_inode: "reach T c sb parts = Some (x, ix) \<Longrightarrow> inode_in c sb x = Ok ix \<and> i_kind ix \<noteq> 0"
  unfolding reach_iff using route_inode dir_kind_nonzero by blast

lemma route_mono: "route U c sb d i parts = Some x \<Longrightarrow> T \<subseteq> U \<Longrightarrow> route T c sb d i parts = Some x"
proof (induction parts arbitrary: d i)
  case (Cons part parts)
  then show ?case unfolding route_step by blast
qed simp

lemma reach_mono: "reach U c sb parts = Some x \<Longrightarrow> T \<subseteq> U \<Longrightarrow> reach T c sb parts = Some x"
  unfolding reach_iff using route_mono by blast

lemma keeps_kind:
  assumes "keeps T sb c c'" "inode_in c sb d = Ok i" "i_kind i \<noteq> 0"
  shows "\<exists>i'. inode_in c' sb d = Ok i' \<and> i_kind i' = i_kind i \<and> inode_kind i' = inode_kind i"
  by (rule keepsD [OF assms]) simp

lemma keeps_lookup:
  assumes "keeps T sb c c'" "inode_in c sb d = Ok i" "inode_kind i = Some Dir" "lookup c i name = Some (k, x)" "x \<notin> T" "inode_in c' sb d = Ok i'"
  shows "lookup c' i' name = Some (k, x)"
  by (rule keepsD [OF assms(1,2) dir_kind_nonzero [OF assms(3)]]) (use assms in simp)

text \<open>A path through names that are kept leads to the same object.\<close>

lemma route_keeps:
  assumes keep: "keeps T sb c c'" and TU: "T \<subseteq> U"
  shows "route U c sb d i parts = Some (x, ix) \<Longrightarrow> inode_in c sb d = Ok i \<Longrightarrow> i_kind i \<noteq> 0 \<Longrightarrow> inode_in c' sb d = Ok i' \<Longrightarrow>
    \<exists>ix'. route U c' sb d i' parts = Some (x, ix')"
proof (induction parts arbitrary: d i i')
  case (Cons part parts)
  from Cons.prems(1) obtain k nxt j where n: "inode_kind i = Some Dir" "lookup c i part = Some (k, nxt)" "nxt \<notin> U" "inode_in c sb nxt = Ok j" "i_kind j \<noteq> 0"
    "route U c sb nxt j parts = Some (x, ix)" unfolding route_step by blast
  from keeps_kind [OF keep n(4,5)] obtain j' where j': "inode_in c' sb nxt = Ok j'" "i_kind j' = i_kind j" by blast
  have "inode_kind i' = Some Dir" "lookup c' i' part = Some (k, nxt)"
    using keeps_kind [OF keep Cons.prems(2,3)] keeps_lookup [OF keep Cons.prems(2) n(1,2) _ Cons.prems(4)] n(1,3) Cons.prems(4) TU by auto
  then show ?case using Cons.IH [OF n(6,4,5) j'(1)] n(3,5) j' unfolding route_step by auto
qed simp

lemma reach_keeps:
  assumes "keeps T sb c c'" "T \<subseteq> U" "reach U c sb parts = Some (x, ix)"
  obtains ix' where "reach U c' sb parts = Some (x, ix')" "inode_in c' sb x = Ok ix'" "i_kind ix' = i_kind ix"
proof -
  from assms(3) obtain i where i: "inode_in c sb ROOT_INO = Ok i" "inode_kind i = Some Dir" "route U c sb ROOT_INO i parts = Some (x, ix)"
    unfolding reach_iff by blast
  note nz = dir_kind_nonzero [OF i(2)]
  from keeps_kind [OF assms(1) i(1) nz] i(2) obtain i' where i': "inode_in c' sb ROOT_INO = Ok i'" "inode_kind i' = Some Dir" by auto
  from route_keeps [OF assms(1,2) i(3,1) nz i'(1)] obtain ix' where r: "route U c' sb ROOT_INO i' parts = Some (x, ix')" by blast
  have x: "inode_in c sb x = Ok ix" "i_kind ix \<noteq> 0" using reach_inode [OF assms(3)] by auto
  have x': "inode_in c' sb x = Ok ix'" using route_inode [OF r i'(1)] dir_kind_nonzero [OF i'(2)] by simp
  have "i_kind ix' = i_kind ix" using keeps_kind [OF assms(1) x] x' by auto
  then show ?thesis using that [of ix'] r i' x' by (simp add: reach_iff)
qed

section \<open>Parent and name\<close>

lemma split_path_sep: "split_path (xs @ 0x2f # ys) = split_path xs @ split_path ys"
proof (induction xs)
  case (Cons x xs)
  have "split_path xs \<noteq> []" by (induction xs) (auto split: list.splits)
  then show ?case using Cons by (auto split: list.splits)
qed simp

lemma split_path_name: "0x2f \<notin> set xs \<Longrightarrow> split_path xs = [xs]"
  by (induction xs) auto

lemma components_sep: "components (xs @ 0x2f # ys) = components xs @ components ys"
  by (simp add: components_def split_path_sep)

lemma components_trim: "components (trim_end path) = components path"
proof -
  have "components (xs @ replicate n 0x2f) = components xs" for xs n
  proof (induction n arbitrary: xs)
    case (Suc n)
    then show ?case using components_sep [of xs "replicate n 0x2f"] Suc [of "[]"] by (simp add: components_def)
  qed simp
  moreover have "path = trim_end path @ replicate (length (takeWhile (\<lambda>c. c = 0x2f) (rev path))) 0x2f"
  proof -
    have "takeWhile (\<lambda>c. c = 0x2f) (rev path) = replicate (length (takeWhile (\<lambda>c. c = 0x2f) (rev path))) 0x2f"
      by (rule replicate_length_same [symmetric]) (auto dest: set_takeWhileD)
    then have "rev path = replicate (length (takeWhile (\<lambda>c. c = 0x2f) (rev path))) 0x2f @ dropWhile (\<lambda>c. c = 0x2f) (rev path)"
      by (metis takeWhile_dropWhile_id)
    then show ?thesis unfolding trim_end_def by (metis rev_append rev_rev_ident rev_replicate)
  qed
  ultimately show ?thesis by metis
qed

lemma rposition_SomeD:
  assumes "rposition P xs = Some i"
  shows "i < length xs" "P (xs ! i)"
  using assms by (auto simp: rposition_def find_Some_iff rev_nth)

lemma valid_nameD: "valid_name name = Ok u \<Longrightarrow> name \<noteq> [] \<and> length name \<le> NAME_MAX \<and> 0x2f \<notin> set name \<and> name \<noteq> [0x2e]"
  by (auto simp: valid_name_def split: if_splits)

lemma split_parent_components:
  assumes "split_parent path = Ok (parent, name)"
  shows "components path = components parent @ [name]" "name \<noteq> []" "length name \<le> NAME_MAX"
proof -
  have v: "name \<noteq> [] \<and> length name \<le> NAME_MAX \<and> 0x2f \<notin> set name \<and> name \<noteq> [0x2e]"
    using assms valid_nameD by (auto simp: split_parent_def Let_def try_bind_Ok_iff split: prod.splits)
  then show "name \<noteq> []" "length name \<le> NAME_MAX" by simp_all
  have one: "components name = [name]" using v split_path_name [of name] by (simp add: components_def)
  show "components path = components parent @ [name]"
  proof (cases "rposition (\<lambda>c. c = 0x2f) (trim_end path)")
    case None
    then have "parent = []" "name = trim_end path" using assms by (auto simp: split_parent_def Let_def try_bind_Ok_iff)
    then show ?thesis using one components_trim [of path] by (simp add: components_def)
  next
    case (Some i)
    then have "parent = take i (trim_end path)" "name = drop (i + 1) (trim_end path)" using assms by (auto simp: split_parent_def Let_def try_bind_Ok_iff)
    then have "trim_end path = parent @ 0x2f # name" using rposition_SomeD [OF Some] id_take_nth_drop [of i "trim_end path"] by simp
    then show ?thesis using components_sep [of parent name] one components_trim [of path] by simp
  qed
qed

lemma resolve_split:
  assumes "split_parent path = Ok (parent, name)"
  shows "resolve_in c sb path = Ok (x, ix) \<longleftrightarrow>
    (\<exists>d p k. resolve_in c sb parent = Ok (d, p) \<and> inode_kind p = Some Dir \<and> lookup c p name = Some (k, x) \<and> inode_in c sb x = Ok ix \<and> i_kind ix \<noteq> 0)"
  unfolding resolve_reach split_parent_components(1) [OF assms] reach_snoc by simp

lemma resolve_inode: "resolve_in c sb path = Ok (x, ix) \<Longrightarrow> inode_in c sb x = Ok ix"
  using reach_inode unfolding resolve_reach by blast

lemma resolve_keeps:
  assumes "keeps {} sb c c'" "resolve_in c sb path = Ok (x, ix)"
  shows "\<exists>ix'. resolve_in c' sb path = Ok (x, ix') \<and> i_kind ix' = i_kind ix"
  using reach_keeps [OF assms(1) empty_subsetI assms(2) [unfolded resolve_reach]] unfolding resolve_reach by blast

section \<open>Moving below itself\<close>

text \<open>A path to a directory does not go through a file.\<close>

lemma route_no_file:
  assumes "inode_in c sb t = Ok it" "inode_kind it \<noteq> Some Dir"
  shows "route {} c sb d i parts = Some (x, ix) \<Longrightarrow> inode_kind ix = Some Dir \<Longrightarrow> route {t} c sb d i parts = Some (x, ix)"
proof (induction parts arbitrary: d i)
  case (Cons part parts)
  from Cons.prems(1) obtain k nxt j where n: "inode_kind i = Some Dir" "lookup c i part = Some (k, nxt)" "inode_in c sb nxt = Ok j" "i_kind j \<noteq> 0"
    "route {} c sb nxt j parts = Some (x, ix)" unfolding route_step by blast
  have "nxt \<noteq> t"
  proof
    assume "nxt = t"
    then have "inode_kind j \<noteq> Some Dir" using n(3) assms by simp
    then show False using n(5) Cons.prems(2) by (cases parts) auto
  qed
  then show ?case unfolding route_step using n Cons.IH [OF n(5) Cons.prems(2)] by blast
qed simp

definition reads_only :: "'d block_dev \<Rightarrow> ('d \<Rightarrow> bool) \<Rightarrow> ('d \<Rightarrow> u64 \<Rightarrow> u8 list) \<Rightarrow> ('d, 'a) fsm \<Rightarrow> bool" where
  "reads_only D ready content m \<longleftrightarrow>
     (\<forall>s r s'. volume_ok D ready s \<longrightarrow> m s = (r, s') \<longrightarrow> volume_ok D ready s' \<and> same_meta s s' \<and> content (fs_dev s') = content (fs_dev s))"

lemma reads_onlyD:
  assumes "reads_only D ready content m" "volume_ok D ready s" "m s = (r, s')"
  shows "volume_ok D ready s'" "same_meta s s'" "content (fs_dev s') = content (fs_dev s)"
  using assms unfolding reads_only_def by blast+

lemma reads_only_bind:
  assumes "reads_only D ready content m" "\<And>a. reads_only D ready content (f a)"
  shows "reads_only D ready content (fs_bind m f)"
  unfolding reads_only_def
proof (intro allI impI)
  fix s r s' assume s: "volume_ok D ready s" and run: "fs_bind m f s = (r, s')"
  from run show "volume_ok D ready s' \<and> same_meta s s' \<and> content (fs_dev s') = content (fs_dev s)"
  proof (cases rule: fs_bind_cases)
    case (err e)
    then show ?thesis using reads_onlyD [OF assms(1) s err(1)] by simp
  next
    case (ok a s1)
    note one = reads_onlyD [OF assms(1) s ok(1)] and two = reads_onlyD [OF assms(2) reads_onlyD(1) [OF assms(1) s ok(1)] ok(2)]
    then show ?thesis using same_meta_trans [OF one(2) two(2)] by simp
  qed
qed

lemma reads_only_as: "reads_as D ready content m v \<Longrightarrow> reads_only D ready content m"
  unfolding reads_as_def reads_only_def by blast

lemma reads_only_return: "reads_only D ready content (fs_return a)" "reads_only D ready content (fs_fail e)"
  by (simp_all add: reads_only_def)

context block_device
begin

lemma reads_only_find: "reads_only D ready content (find_in_dir D i name)"
  unfolding find_in_dir_def for_each_entry_def by (rule reads_only_as [OF reads_for_each])

lemma reads_only_guard: "reads_only D ready content (rename_guard D ino parts cur)"
proof (induction parts arbitrary: cur)
  case (Cons part parts)
  have "reads_only D ready content (case found of None \<Rightarrow> fs_fail NotFound
      | Some (slot, nxt) \<Rightarrow> if nxt = ino then fs_fail InvalidArgs else fs_bind (read_inode D nxt) (rename_guard D ino parts))" for found
    using reads_only_bind [OF reads_only_as [OF reads_inode] Cons.IH] reads_only_return(2) by (auto split: option.split)
  from reads_only_bind [OF reads_only_find this, of cur part "\<lambda>found. found"] show ?case using Cons.IH [of cur] by simp
qed (simp only: rename_guard.simps reads_only_return)

text \<open>What the check of a rename says: the way to the destination does not go through the directory that is moved.\<close>

lemma guard_avoids:
  assumes dirs: "dirs_ok c s0" and "volume_ok D ready s" "same_meta s0 s" "content (fs_dev s) = c"
    and "inode_in c (fs_sb s0) d = Ok cur" "route {} c (fs_sb s0) d cur (filter (\<lambda>part. \<not> (part = [] \<or> part = [0x2e])) parts) = Some (x, ix)"
    and "rename_guard D t parts cur s = (Ok (), s')"
  shows "route {t} c (fs_sb s0) d cur (filter (\<lambda>part. \<not> (part = [] \<or> part = [0x2e])) parts) = Some (x, ix)"
  using assms(2-)
proof (induction parts arbitrary: d cur s)
  case (Cons part parts)
  show ?case
  proof (cases "part = [] \<or> part = [0x2e]")
    case True
    then show ?thesis using Cons by auto
  next
    case False
    let ?rest = "filter (\<lambda>part. \<not> (part = [] \<or> part = [0x2e])) parts"
    have f: "filter (\<lambda>part. \<not> (part = [] \<or> part = [0x2e])) (part # parts) = part # ?rest" using False by simp
    from Cons.prems(5) [unfolded f] obtain k nxt j where n: "inode_kind cur = Some Dir" "lookup c cur part = Some (k, nxt)" "inode_in c (fs_sb s0) nxt = Ok j" "i_kind j \<noteq> 0"
      "route {} c (fs_sb s0) nxt j ?rest = Some (x, ix)" unfolding route_step by blast
    have "fs_bind (find_in_dir D cur part) (\<lambda>found. case found of None \<Rightarrow> fs_fail NotFound
        | Some (slot, nxt) \<Rightarrow> if nxt = t then fs_fail InvalidArgs else fs_bind (read_inode D nxt) (rename_guard D t parts)) s = (Ok (), s')"
      using Cons.prems(6) False by simp
    then show ?thesis
    proof (cases rule: fs_bind_cases)
      case (ok found s1)
      have cur: "dir_ok c s0 cur" by (rule dirs_okD [OF dirs Cons.prems(4) n(1)])
      note F = finds_run [OF finds_lookup [OF cur] Cons.prems(1-3) ok(1)]
      then have ne: "nxt \<noteq> t" and run: "fs_bind (read_inode D nxt) (rename_guard D t parts) s1 = (Ok (), s')" using ok(2) n(2) by (auto split: if_splits)
      from run show ?thesis
      proof (cases rule: fs_bind_cases)
        case (ok j' s2)
        note R = finds_run [OF reads_as_finds [OF reads_inode, where c = c] F(1-3) ok(1)]
        then have "j' = j" using n(3) by simp
        then have "route {t} c (fs_sb s0) nxt j ?rest = Some (x, ix)" using Cons.IH [OF R(1-3) n(3,5)] ok(2) by simp
        then show ?thesis unfolding f route_step using n ne by blast
      qed simp
    qed simp
  qed
qed simp

end

section \<open>Rename\<close>

text \<open>A path still leads to the object \<open>t\<close>, which is of kind \<open>k\<close>.\<close>

definition leads :: "(u64 \<Rightarrow> u8 list) \<Rightarrow> superblock \<Rightarrow> u8 list list \<Rightarrow> u32 \<Rightarrow> u32 \<Rightarrow> bool" where
  "leads c sb parts t k \<longleftrightarrow> (\<exists>i. reach {} c sb parts = Some (t, i) \<and> i_kind i = k)"

lemma leads_keeps: "keeps {} sb c c' \<Longrightarrow> leads c sb parts t k \<Longrightarrow> leads c' sb parts t k"
  unfolding leads_def by (metis reach_keeps empty_subsetI)

lemma leadsI:
  "reach T c sb ps = Some (d, p) \<Longrightarrow> inode_kind p = Some Dir \<Longrightarrow> lookup c p name = Some (k, t) \<Longrightarrow> inode_in c sb t = Ok it \<Longrightarrow> i_kind it \<noteq> 0 \<Longrightarrow>
   leads c sb (ps @ [name]) t (i_kind it)"
  unfolding leads_def reach_snoc using reach_mono [of T c sb ps "(d, p)" "{}"] by blast

lemma lookup_slot:
  assumes "lookup c p name = Some (k, x)"
  shows "k < dir_entries p" "i_direct p ! (k div per_block) \<noteq> 0"
  using assms by (auto simp: lookup_Some_iff slot_entry_def slot_at_def)

lemma dirs_stop: "dirs_ok c s \<Longrightarrow> same_meta s s' \<Longrightarrow> dirs_ok c s'"
  using dirs_ok_meta [of s s' c] by simp

context block_device
begin

lemma entry_erased:
  assumes s: "volume_ok D ready s" and dirs: "dirs_ok (content (fs_dev s)) s" and p: "is_dir (content (fs_dev s)) (fs_sb s) d p"
    and l: "lookup (content (fs_dev s)) p name = Some (k, x)" and run: "write_entry D p k 0 [] s = (r, s')"
  shows "dirs_ok (content (fs_dev s')) s'"
    "keeps {} (fs_sb s) (content (fs_dev s)) (content (fs_dev s')) \<and> r \<noteq> Ok () \<or> slot_set (fs_sb s) d k None (content (fs_dev s)) (content (fs_dev s'))"
  by (rule write_entry_cases [OF s dirs p lookup_slot [OF l] _ _ run];
      auto intro: slot_set_dirs [OF dirs] alters_none_keeps slot_set_same [OF dirs _ p lookup_slot(1) [OF l]])+

lemma rename_erase_result:
  assumes s: "volume_ok D ready s" and dirs: "dirs_ok (content (fs_dev s)) s" and c: "c = content (fs_dev s)" and sb: "sb = fs_sb s"
    and src: "resolve_in c sb sp = Ok (sd, p)" "inode_kind p = Some Dir" "lookup c p sn = Some (k, t)"
    and dst: "reach {t} c sb ps = Some (dd, q)" "inode_kind q = Some Dir" "lookup c q dn = Some (k2, t)" "(dd, dn) \<noteq> (sd, sn)"
    and t: "inode_in c sb t = Ok it" "i_kind it \<noteq> 0" and run: "rename_erase D sp sn s = (r, s')"
  shows "dirs_ok (content (fs_dev s')) s' \<and> leads (content (fs_dev s')) sb (ps @ [dn]) t (i_kind it)"
proof -
  have now: "leads c sb (ps @ [dn]) t (i_kind it)" by (rule leadsI [OF dst(1-3) t])
  have sd: "is_dir c sb sd p" using src(2) resolve_inode [OF src(1)] by (simp add: is_dir_def)
  have dd: "is_dir c sb dd q" using dst(2) reach_inode [OF dst(1)] by (simp add: is_dir_def)
  note dirs = dirs [folded c]
  have pok: "dir_ok c s p" using dirs sd sb by (auto simp: dirs_ok_def)
  from finds_resolve [OF dirs] s same_meta_refl c [symmetric] run [unfolded rename_erase_def] show ?thesis
  proof (cases rule: finds_step)
    case (go x s1)
    then have "fs_bind (find_in_dir D p sn) (\<lambda>found. case found of None \<Rightarrow> fs_fail NotFound | Some (sslot, _) \<Rightarrow> write_entry D p sslot 0 []) s1 = (r, s')"
      using src(1) sb by simp
    from finds_lookup [OF pok] go(2-4) this show ?thesis
    proof (cases rule: finds_step)
      case (go found s2)
      have d2: "dirs_ok (content (fs_dev s2)) s2" "fs_sb s2 = sb" using dirs_ok_meta [OF go(3)] dirs go(3,4) sb by (simp_all add: same_meta_def)
      have w: "write_entry D p k 0 [] s2 = (r, s')" using go(1,5) src(3) by auto
      have E: "dirs_ok (content (fs_dev s')) s'" "keeps {} sb c (content (fs_dev s')) \<or> slot_set sb sd k None c (content (fs_dev s'))"
        using entry_erased [OF go(2) d2(1) _ _ w, of sd sn t] sd src(3) d2(2) go(4) by auto
      from E(2) have "leads (content (fs_dev s')) sb (ps @ [dn]) t (i_kind it)"
      proof
        assume set: "slot_set sb sd k None c (content (fs_dev s'))"
        note E = slot_erase [OF set sd src(3)]
        obtain q' where q': "reach {t} (content (fs_dev s')) sb ps = Some (dd, q')" "inode_in (content (fs_dev s')) sb dd = Ok q'"
          by (rule reach_keeps [OF E(2) subset_refl dst(1)])
        have "q' = q" using q'(2) dd slot_set_table [OF set] by (simp add: is_dir_def)
        then show ?thesis using q'(1) dst E(1) [OF dd dst(4)] slot_set_table [OF set, of t] t by (intro leadsI) auto
      qed (rule leads_keeps [OF _ now])
      with E(1) show ?thesis by simp
    qed (use now dirs_stop [OF dirs] in simp)
  qed (use now dirs_stop [OF dirs] in simp)
qed

text \<open>A new name for \<open>t\<close> has been written, or the write failed.\<close>

lemma entry_added:
  assumes s: "volume_ok D ready s" and dirs: "dirs_ok (content (fs_dev s)) s" and q: "is_dir (content (fs_dev s)) (fs_sb s) d q"
    and k: "k < dir_entries q" "slot_entry (content (fs_dev s)) q k = None" "i_direct q ! (k div per_block) \<noteq> 0"
    and new: "lookup (content (fs_dev s)) q name = None" and name: "name \<noteq> []" "length name \<le> NAME_MAX" and t: "t \<noteq> 0"
    and run: "write_entry D q k t name s = (r, s')"
  defines "c \<equiv> content (fs_dev s)" and "c' \<equiv> content (fs_dev s')" and "sb \<equiv> fs_sb s"
  shows "fs_sb s' = sb" "dirs_ok c' s'" "inode_in c' sb x = inode_in c sb x" "alters {(d, name)} {} sb c c'" "keeps {} sb c c'"
    "lookup c' q name = None \<or> lookup c' q name = Some (k, t)" "r = Ok () \<Longrightarrow> volume_ok D ready s' \<and> lookup c' q name = Some (k, t)"
proof -
  obtain v where v: "if t = 0 then v = None else \<exists>e. v = Some e \<and> d_ino e = t \<and> dirent_name e = name" and m: "same_meta s s'"
    and set: "slot_set sb d k v c c' \<or> slot_set sb d k (slot_entry c q k) c c'" and fin: "r = Ok () \<Longrightarrow> volume_ok D ready s' \<and> slot_set sb d k v c c'"
    by (rule write_entry_cases [OF s dirs q k(1,3) name(2) _ run]) (use name in \<open>auto simp: c_def c'_def sb_def\<close>)
  note here = dirs [folded c_def] q [folded c_def sb_def] k(1) k(2) [folded c_def] new [folded c_def]
  from v t obtain e where e: "v = Some e" "d_ino e = t" "dirent_name e = name" by auto
  have add: "alters {(d, name)} {} sb c c'" "lookup c' q name = Some (k, t)" if "slot_set sb d k v c c'"
    using slot_add(1,3) [OF _ here(2-4), of e] here(5) that e by auto
  have same: "alters N F sb c c'" "lookup c' q name = None" if "slot_set sb d k (slot_entry c q k) c c'" for N F
    using slot_set_same [OF here(1) that [unfolded sb_def] here(2,3) [unfolded sb_def]] slot_set_lookup [OF that here(2), of name] here(4,5)
    by (auto simp: sb_def)
  show "fs_sb s' = sb" using m by (simp add: sb_def same_meta_def)
  show "dirs_ok c' s'" using set slot_set_dirs [OF here(1) _ m] by (auto simp: sb_def)
  show "inode_in c' sb x = inode_in c sb x" using set slot_set_table by blast
  show A: "alters {(d, name)} {} sb c c'" using set add(1) same(1) by blast
  show "keeps {} sb c c'" by (rule alters_keeps [OF A]) (use here(2,5) in \<open>auto simp: is_dir_def\<close>)
  show "lookup c' q name = None \<or> lookup c' q name = Some (k, t)" using set add(2) same(2) by blast
  show "r = Ok () \<Longrightarrow> volume_ok D ready s' \<and> lookup c' q name = Some (k, t)" using fin add(2) by blast
qed

lemma rename_link:
  assumes s: "volume_ok D ready s" and dirs: "dirs_ok (content (fs_dev s)) s" and c: "c = content (fs_dev s)" and sb: "sb = fs_sb s"
    and src: "resolve_in c sb sp = Ok (sd, p)" "inode_kind p = Some Dir" "lookup c p sn = Some (k, t)" and t: "inode_in c sb t = Ok it" "i_kind it \<noteq> 0"
    and dst: "reach {t} c sb ps = Some (dd, q)" "inode_kind q = Some Dir" "lookup c q dn = None" and name: "dn \<noteq> []" "length dn \<le> NAME_MAX"
    and run: "fs_bind (dir_alloc_slot D dd q) (\<lambda>(slot, q). fs_bind (write_entry D q slot t dn) (\<lambda>_. rename_erase D sp sn)) s = (r, s')"
  shows "dirs_ok (content (fs_dev s')) s' \<and>
    (leads (content (fs_dev s')) sb (ps @ [dn]) t (i_kind it) \<or> r \<noteq> Ok () \<and> leads (content (fs_dev s')) sb (components sp @ [sn]) t (i_kind it))"
proof -
  have now: "leads c sb (components sp @ [sn]) t (i_kind it)" using src(1) leadsI [OF _ src(2,3) t] by (simp add: resolve_reach)
  have t0: "t \<noteq> 0" using t(1) by (auto simp: inode_in_def inode_pos_def try_bind_Ok_iff)
  have dd: "is_dir c sb dd q" using dst reach_inode [OF dst(1)] by (simp add: is_dir_def)
  have ne: "(dd, dn) \<noteq> (sd, sn)" using dst(3) src(3) dd resolve_inode [OF src(1)] by (auto simp: is_dir_def)
  from run show ?thesis
  proof (cases rule: fs_bind_cases)
    case (err e)
    then show ?thesis using dir_alloc_slot_result [OF s dirs dd [unfolded c sb] err(1)] leads_keeps [OF alters_none_keeps now] c sb
      by (simp add: slot_given_def Let_def)
  next
    case (ok x s1)
    obtain slot q1 where x: "x = (slot, q1)" by (cases x)
    have G: "fs_sb s1 = sb" "alters {} {} sb c (content (fs_dev s1))" "volume_ok D ready s1" "dirs_ok (content (fs_dev s1)) s1" "is_dir (content (fs_dev s1)) sb dd q1"
      "slot < dir_entries q1" "slot_entry (content (fs_dev s1)) q1 slot = None" "i_direct q1 ! (slot div per_block) \<noteq> 0" "lookup (content (fs_dev s1)) q1 dn = None"
      using dir_alloc_slot_result [OF s dirs dd [unfolded c sb] ok(1)] x dst(3) c sb by (simp_all add: slot_given_def Let_def)
    from ok(2) have run1: "fs_bind (write_entry D q1 slot t dn) (\<lambda>_. rename_erase D sp sn) s1 = (r, s')" using x by simp
    note A = entry_added [OF G(3,4) G(5) [folded G(1)] G(6-9) name t0, unfolded G(1)]
    note keep = keeps_trans [OF alters_none_keeps [OF G(2)] A(5)]
    from run1 show ?thesis
    proof (cases rule: fs_bind_cases)
      case (err e)
      then show ?thesis using leads_keeps [OF keep [OF err(1)] now] A(2) [OF err(1)] by simp
    next
      case (ok u s2)
      define c2 where "c2 = content (fs_dev s2)"
      have keep: "keeps {} sb c c2" unfolding c2_def by (rule keep [OF ok(1)])
      have A2: "volume_ok D ready s2" "dirs_ok c2 s2" "inode_in c2 sb dd = Ok q1" "lookup c2 q1 dn = Some (slot, t)" "fs_sb s2 = sb"
        using A(1-3,7) [OF ok(1)] G(5) by (simp_all add: c2_def is_dir_def)
      obtain p2 where p2: "resolve_in c2 sb sp = Ok (sd, p2)" "i_kind p2 = i_kind p" using resolve_keeps [OF keep src(1)] by blast
      obtain it2 where it2: "inode_in c2 sb t = Ok it2" "i_kind it2 = i_kind it" using keeps_kind [OF keep t] by blast
      obtain q2 where q2: "reach {t} c2 sb ps = Some (dd, q2)" "inode_in c2 sb dd = Ok q2" "i_kind q2 = i_kind q" by (rule reach_keeps [OF keep empty_subsetI dst(1)])
      have "lookup c2 p2 sn = Some (k, t)"
        by (rule keeps_lookup [OF keep resolve_inode [OF src(1)] src(2,3) _ resolve_inode [OF p2(1)]]) simp
      then have "dirs_ok (content (fs_dev s')) s' \<and> leads (content (fs_dev s')) sb (ps @ [dn]) t (i_kind it2)"
        using rename_erase_result [OF A2(1) A2(2) [unfolded c2_def] c2_def A2(5) [symmetric] p2(1) _ _ q2(1) _ _ ne it2(1) _ ok(2)]
          inode_kind_cong [OF p2(2)] inode_kind_cong [OF q2(3)] src(2) dst(2) q2(2) A2(3,4) it2(2) t(2) by simp
      then show ?thesis using it2(2) by simp
    qed
  qed
qed

lemma rename_move_result:
  assumes s: "volume_ok D ready s" and dirs: "dirs_ok (content (fs_dev s)) s" and c: "c = content (fs_dev s)" and sb: "sb = fs_sb s"
    and src: "resolve_in c sb sp = Ok (sd, p)" "inode_kind p = Some Dir" "lookup c p sn = Some (k, t)" and t: "inode_in c sb t = Ok it" "i_kind it \<noteq> 0"
    and avoid: "\<And>d q. resolve_in c sb dp = Ok (d, q) \<Longrightarrow> inode_kind q = Some Dir \<Longrightarrow> reach {t} c sb (components dp) = Some (d, q)"
    and name: "dn \<noteq> []" "length dn \<le> NAME_MAX" and run: "rename_move D t sp sn dp dn s = (r, s')"
  shows "dirs_ok (content (fs_dev s')) s' \<and>
    (leads (content (fs_dev s')) sb (components dp @ [dn]) t (i_kind it) \<or> r \<noteq> Ok () \<and> leads (content (fs_dev s')) sb (components sp @ [sn]) t (i_kind it))"
proof -
  have now: "leads c sb (components sp @ [sn]) t (i_kind it)" using src(1) leadsI [OF _ src(2,3) t] by (simp add: resolve_reach)
  note dirs = dirs [folded c]
  from finds_resolve [OF dirs] s same_meta_refl c [symmetric] run [unfolded rename_move_def] show ?thesis
  proof (cases rule: finds_step)
    case (go x s1)
    note R = go(2-4)
    obtain dd q where x: "x = (dd, q)" by (cases x)
    have dst: "resolve_in c sb dp = Ok (dd, q)" using go(1) sb x by simp
    show ?thesis
    proof (cases "inode_kind q = Some Dir")
      case True
      have dd: "is_dir c sb dd q" using True resolve_inode [OF dst] by (simp add: is_dir_def)
      have qok: "dir_ok c s q" using dirs dd sb by (auto simp: dirs_ok_def)
      have "fs_bind (find_in_dir D q dn) (\<lambda>found. if found \<noteq> None then fs_fail Exists
          else fs_bind (dir_alloc_slot D dd q) (\<lambda>(slot, dparent). fs_bind (write_entry D dparent slot t dn) (\<lambda>_. rename_erase D sp sn))) s1 = (r, s')"
        using go(5) x True by simp
      from finds_lookup [OF qok] R this show ?thesis
      proof (cases rule: finds_step)
        case (go found s2)
        have s2: "dirs_ok (content (fs_dev s2)) s2" "fs_sb s2 = sb" using dirs_ok_meta [OF go(3)] dirs go(3,4) sb by (simp_all add: same_meta_def)
        show ?thesis
        proof (cases "lookup c q dn")
          case None
          then have run2: "fs_bind (dir_alloc_slot D dd q) (\<lambda>(slot, dparent). fs_bind (write_entry D dparent slot t dn) (\<lambda>_. rename_erase D sp sn)) s2 = (r, s')"
            using go(1,5) by auto
          show ?thesis
            by (rule rename_link [OF go(2) s2(1) go(4) [symmetric] s2(2) [symmetric] src t avoid [OF dst True] True None name run2])
        next
          case (Some y)
          then have "found = Some y" using go(1) by simp
          then show ?thesis using go(3-5) now dirs_stop [OF dirs go(3)] by auto
        qed
      qed (use now dirs_stop [OF dirs] in simp)
    next
      case False
      then show ?thesis using go(3-5) x now dirs_stop [OF dirs go(3)] by auto
    qed
  qed (use now dirs_stop [OF dirs] in simp)
qed

lemma guard_result:
  assumes s: "volume_ok D ready s" and dirs: "dirs_ok (content (fs_dev s)) s" and c: "c = content (fs_dev s)" and sb: "sb = fs_sb s" and t: "inode_in c sb t = Ok it"
    and run: "(if inode_kind it = Some Dir then fs_bind (read_inode D ROOT_INO) (rename_guard D t (split_path dp)) else fs_return ()) s = (r, s')"
  shows "volume_ok D ready s'" "same_meta s s'" "content (fs_dev s') = c"
    "r = Ok () \<Longrightarrow> resolve_in c sb dp = Ok (d, q) \<Longrightarrow> inode_kind q = Some Dir \<Longrightarrow> reach {t} c sb (components dp) = Some (d, q)"
proof -
  have ro: "reads_only D ready content (if inode_kind it = Some Dir then fs_bind (read_inode D ROOT_INO) (rename_guard D t (split_path dp)) else fs_return ())"
    using reads_only_bind [OF reads_only_as [OF reads_inode] reads_only_guard] by (simp add: reads_only_return)
  from reads_onlyD [OF ro s run] show "volume_ok D ready s'" "same_meta s s'" "content (fs_dev s') = c" using c by simp_all
  assume r: "r = Ok ()" and dst: "resolve_in c sb dp = Ok (d, q)" and q: "inode_kind q = Some Dir"
  from dst obtain i where i: "inode_in c sb ROOT_INO = Ok i" "inode_kind i = Some Dir" "route {} c sb ROOT_INO i (components dp) = Some (d, q)"
    unfolding resolve_reach reach_iff by blast
  show "reach {t} c sb (components dp) = Some (d, q)"
  proof (cases "inode_kind it = Some Dir")
    case True
    then have "fs_bind (read_inode D ROOT_INO) (rename_guard D t (split_path dp)) s = (Ok (), s')" using run r by simp
    then show ?thesis
    proof (cases rule: fs_bind_cases)
      case (ok j s1)
      note R = reads_asD [OF reads_inode s ok(1)]
      have j: "j = i" using R(4) i(1) c sb by simp
      have "route {t} c sb ROOT_INO i (components dp) = Some (d, q)" unfolding sb components_def
        by (rule guard_avoids [OF dirs [folded c] R(1-2) R(3) [folded c] _ _ ok(2) [unfolded j]]) (use i sb in \<open>simp_all add: components_def\<close>)
      then show ?thesis using i by (simp add: reach_iff)
    qed simp
  next
    case False
    then show ?thesis using route_no_file [OF t False i(3) q] i by (simp add: reach_iff)
  qed
qed

lemma rename_steps:
  assumes s: "volume_ok D ready s" and dirs: "dirs_ok (content (fs_dev s)) s" and c: "c = content (fs_dev s)" and sb: "sb = fs_sb s"
    and sp: "split_parent src = Ok (sp, sn)" and dp: "split_parent dst = Ok (dp, dn)"
    and src: "resolve_in c sb sp = Ok (sd, p)" "inode_kind p = Some Dir" "lookup c p sn = Some (k, t)" "inode_in c sb t = Ok it"
    and run: "fs_rename D src dst s = (r, s')"
  obtains (stop) e where "r = Err e" "same_meta s s'" "content (fs_dev s') = c"
  | (go) s1 where "volume_ok D ready s1" "same_meta s s1" "content (fs_dev s1) = c"
      "fs_bind (if inode_kind it = Some Dir then fs_bind (read_inode D ROOT_INO) (rename_guard D t (split_path dp)) else fs_return ())
         (\<lambda>_. rename_move D t sp sn dp dn) s1 = (r, s')"
proof -
  define move where "move it = fs_bind (if inode_kind it = Some Dir then fs_bind (read_inode D ROOT_INO) (rename_guard D t (split_path dp)) else fs_return ())
    (\<lambda>_. rename_move D t sp sn dp dn)" for it
  have pok: "dir_ok c s p" using dirs_okD [OF dirs [folded c] resolve_inode [OF src(1), unfolded sb] src(2)] .
  note run = run [unfolded fs_rename_def, simplified fs_bind_def [of "fs_lift f" for f] fs_simps sp dp prod.case sum.case]
  from finds_resolve [OF dirs] s same_meta_refl refl run show thesis
  proof (cases rule: finds_step)
    case (go x s1)
    then have "x = (sd, p)" using src(1) c sb by simp
    then have run: "fs_bind (find_in_dir D p sn) (\<lambda>found. case found of None \<Rightarrow> fs_fail NotFound | Some (_, ino) \<Rightarrow>
        fs_bind (read_inode D ino) (\<lambda>i. fs_bind (if inode_kind i = Some Dir then fs_bind (read_inode D ROOT_INO) (rename_guard D ino (split_path dp)) else fs_return ())
          (\<lambda>_. rename_move D ino sp sn dp dn))) s1 = (r, s')" using go(5) src(2) by simp
    from finds_lookup [OF pok] go(2,3) go(4) [folded c] run show ?thesis
    proof (cases rule: finds_step)
      case (go found s2)
      then have "found = Some (k, t)" using src(3) by simp
      then have "fs_bind (read_inode D t) move s2 = (r, s')" using go(5) by (simp add: move_def [abs_def])
      from reads_as_finds [OF reads_inode] go(2-4) this show ?thesis
      proof (cases rule: finds_step)
        case (go j s3)
        then have "j = it" using src(4) sb by simp
        then show ?thesis using that(2) [OF go(2-4)] go(5) by (simp add: move_def)
      qed (use that(1) in blast)
    qed (use that(1) in blast)
  qed (use that(1) c in blast)
qed

lemma rename_outcome:
  assumes s: "volume_ok D ready s" and dirs: "dirs_ok (content (fs_dev s)) s" and c: "c = content (fs_dev s)" and sb: "sb = fs_sb s"
    and src: "resolve_in c sb src = Ok (t, it)" and run: "fs_rename D src dst s = (r, s')"
  shows "dirs_ok (content (fs_dev s')) s' \<and>
    (leads (content (fs_dev s')) sb (components dst) t (i_kind it) \<or> r \<noteq> Ok () \<and> leads (content (fs_dev s')) sb (components src) t (i_kind it))"
proof -
  have now: "leads c sb (components src) t (i_kind it)" using src by (simp add: leads_def resolve_reach)
  show ?thesis
  proof (cases "\<exists>sp sn dp dn. split_parent src = Ok (sp, sn) \<and> split_parent dst = Ok (dp, dn)")
    case True
    then obtain sp sn dp dn where sp: "split_parent src = Ok (sp, sn)" and dp: "split_parent dst = Ok (dp, dn)" by blast
    note cs = split_parent_components [OF sp] and cd = split_parent_components [OF dp]
    from src [unfolded resolve_split [OF sp]] obtain sd p k where
      p: "resolve_in c sb sp = Ok (sd, p)" "inode_kind p = Some Dir" "lookup c p sn = Some (k, t)" "inode_in c sb t = Ok it" "i_kind it \<noteq> 0" by blast
    from s dirs c sb sp dp p(1-4) run show ?thesis
    proof (cases rule: rename_steps)
      case (go s1)
      have s1: "dirs_ok (content (fs_dev s1)) s1" "c = content (fs_dev s1)" "sb = fs_sb s1"
        using dirs_ok_meta [OF go(2)] dirs go(2,3) c sb by (simp_all add: same_meta_def)
      from go(4) show ?thesis
      proof (cases rule: fs_bind_cases)
        case (err e)
        then show ?thesis using guard_result(2,3) [OF go(1) s1 p(4) err(1)] now dirs_stop [OF s1(1)] s1(2) by simp
      next
        case (ok u s2)
        note G = guard_result [OF go(1) s1 p(4) ok(1)]
        have s2: "dirs_ok (content (fs_dev s2)) s2" "c = content (fs_dev s2)" "sb = fs_sb s2"
          using dirs_ok_meta [OF G(2)] s1 G(2,3) by (simp_all add: same_meta_def)
        have "Ok u = Ok ()" by simp
        then show ?thesis using rename_move_result [OF G(1) s2 p G(4) cd(2,3) ok(2)] cs(1) cd(1) by simp
      qed
    qed (use now dirs_stop [OF dirs] c in simp)
  next
    case False
    then have "\<exists>e. r = Err e \<and> s' = s"
      using run by (cases "split_parent src"; cases "split_parent dst") (auto simp: fs_rename_def fs_bind_def [of "fs_lift f" for f])
    then show ?thesis using now c dirs by auto
  qed
qed

end

section \<open>Property\<close>

text \<open>
  C2. A rename never loses the object: whatever device access fails in the middle of it, and however a write is torn, the
  object that the old path named is found on the disk under the old path or under the new one, as the same inode; a rename
  that succeeds leaves it under the new one. The directories stay sound in every case, so all of their entries can be read.
\<close>

theorem rename_never_loses:
  assumes "block_device D ready content" "volume_ok D ready s" "dirs_ok (content (fs_dev s)) s"
    "resolve_in (content (fs_dev s)) (fs_sb s) src = Ok (ino, i)" "fs_rename D src dst s = (r, s')"
  shows "dirs_ok (content (fs_dev s')) s' \<and>
    (case r of
       Inr _ \<Rightarrow> (\<exists>i'. resolve_in (content (fs_dev s')) (fs_sb s) dst = Ok (ino, i') \<and> i_kind i' = i_kind i)
     | Inl _ \<Rightarrow> (\<exists>path\<in>{src, dst}. \<exists>i'. resolve_in (content (fs_dev s')) (fs_sb s) path = Ok (ino, i') \<and> i_kind i' = i_kind i))"
  using block_device.rename_outcome [OF assms(1-3) refl refl assms(4,5)] by (auto simp: leads_def resolve_reach split: sum.splits)

section \<open>A volume with one name\<close>

definition names_root :: inode where
  "names_root = \<lparr>i_kind = 2, i_size = 2048, i_direct = 3 # replicate 11 0, i_indirect = 0, i_generation = 1\<rparr>"

definition names_table :: "u8 list" where
  "names_table = copy_at 128 (inode_encode names_root (replicate 128 0)) demo_table"

definition names_block :: "u8 list" where
  "names_block = copy_at 0 (dirent_encode 2 [0x61] (replicate 64 0)) (replicate 2048 0)"

definition names_fs :: "(nat \<times> nat) option \<Rightarrow> mem_disk fs" where
  "names_fs failure = \<lparr>fs_dev = \<lparr>disk_data = replicate 4096 0 @ names_table @ names_block @ replicate 8192 0, disk_writes = 0, disk_cut = failure\<rparr>,
     fs_sb = demo_sb, fs_bitmap = 8 # replicate 8191 0, fs_repairs = 0\<rparr>"

lemma names_lengths: "length names_table = 2048" "length names_block = 2048"
  using length_dirent_encode [of "replicate 64 0" "[0x61]" 2] by (simp_all add: names_table_def names_block_def names_root_def length_demo_table)

lemma names_blocks:
  "mem_content (fs_dev (names_fs failure)) 2 = names_table" "mem_content (fs_dev (names_fs failure)) 3 = names_block" "fs_sb (names_fs failure) = demo_sb"
  by (simp_all add: mem_content_def names_fs_def slice_at_def names_lengths)

lemma names_inodes:
  "inode_in (mem_content (fs_dev (names_fs failure))) demo_sb 1 = Ok names_root" "inode_in (mem_content (fs_dev (names_fs failure))) demo_sb 2 = Ok demo_inode"
  "inode_in (mem_content (fs_dev (names_fs failure))) demo_sb 3 = Ok demo_inode"
proof -
  have enc: "length (inode_encode names_root (replicate 128 0)) = 128" by (simp add: names_root_def)
  have dec: "inode_decode (inode_encode names_root (replicate 128 0)) = Ok names_root"
    by (rule inode_roundtrip) (simp_all add: inode_wf_def names_root_def)
  have "slice_at 128 128 names_table = inode_encode names_root (replicate 128 0)" "slice_at 256 128 names_table = slice_at 256 128 demo_table" "slice_at 384 128 names_table = slice_at 384 128 demo_table"
    by (simp_all add: names_table_def enc slice_copy_same slice_copy_other length_demo_table)
  moreover have "mem_content (fs_dev (demo_fs failure)) 2 = demo_table" by (simp add: mem_content_def demo_fs_def slice_at_def length_demo_table)
  ultimately show "inode_in (mem_content (fs_dev (names_fs failure))) demo_sb 1 = Ok names_root" "inode_in (mem_content (fs_dev (names_fs failure))) demo_sb 2 = Ok demo_inode"
    "inode_in (mem_content (fs_dev (names_fs failure))) demo_sb 3 = Ok demo_inode"
    using dec demo_inodes [of 2 failure] demo_inodes [of 3 failure] names_blocks [of failure] by (simp_all add: inode_in_def inode_pos_def demo_sb_def demo_fs_def word_le_nat_alt)
qed

lemma names_only_root: "is_dir (mem_content (fs_dev (names_fs failure))) demo_sb d i \<longleftrightarrow> d = 1 \<and> i = names_root"
proof
  assume a: "is_dir (mem_content (fs_dev (names_fs failure))) demo_sb d i"
  then have d: "d \<noteq> 0" "d < 4" by (auto simp: is_dir_def inode_in_def inode_pos_def demo_sb_def try_bind_Ok_iff split: if_splits)
  then have "d = 1 \<or> d = 2 \<or> d = 3" by (auto simp: word_less_nat_alt word_unat_eq_iff)
  then show "d = 1 \<and> i = names_root" using a names_inodes [of failure] demo_kind by (auto simp: is_dir_def)
qed (use names_inodes in \<open>simp add: is_dir_def names_root_def inode_kind_def\<close>)

lemma names_slots:
  "\<exists>e. slot_at (mem_content (fs_dev (names_fs failure))) names_root 0 = Ok (Some e) \<and> d_ino e = 2 \<and> dirent_name e = [0x61]"
  "0 < k \<Longrightarrow> k < 32 \<Longrightarrow> slot_at (mem_content (fs_dev (names_fs failure))) names_root k = Ok None"
proof -
  have len: "length (dirent_encode 2 [0x61] (replicate 64 0)) = 64" by (simp add: length_dirent_encode)
  have ptr: "k < 32 \<Longrightarrow> slot_at (mem_content (fs_dev (names_fs failure))) names_root k = dirent_decode (slice_at (k * 64) 64 names_block)" for k
    using names_blocks(2) by (simp add: slot_at_def names_root_def)
  have "slice_at 0 64 names_block = dirent_encode 2 [0x61] (replicate 64 0)" unfolding names_block_def using len by (intro slice_copy_same) simp_all
  then show "\<exists>e. slot_at (mem_content (fs_dev (names_fs failure))) names_root 0 = Ok (Some e) \<and> d_ino e = 2 \<and> dirent_name e = [0x61]"
    using ptr [of 0] dirent_roundtrip [of "replicate 64 0" 2 "[0x61]"] by simp
  assume k: "0 < k" "k < 32"
  have "slice_at (k * 64) 64 names_block = slice_at (k * 64) 64 (replicate 2048 0)" unfolding names_block_def using len k by (intro slice_copy_other) auto
  also have "\<dots> = replicate 64 0" using k by (intro slice_zeros) simp
  finally show "slot_at (mem_content (fs_dev (names_fs failure))) names_root k = Ok None" using ptr [OF k(2)] dirent_decode_zero by simp
qed

lemma names_dirs: "dirs_ok (mem_content (fs_dev (names_fs failure))) (names_fs failure)"
proof -
  have n: "dir_entries names_root = 32" "dir_blocks names_root = 1" by (simp_all add: dir_entries_def dir_blocks_def names_root_def)
  have "slot_at (mem_content (fs_dev (names_fs failure))) names_root k = Ok (slot_entry (mem_content (fs_dev (names_fs failure))) names_root k)" if "k < 32" for k
    using names_slots [where failure = failure] that by (cases "k = 0") (auto simp: slot_entry_def)
  then have "dir_ok (mem_content (fs_dev (names_fs failure))) (names_fs failure) names_root"
    using n by (auto simp: dir_ok_def names_root_def in_data_def fs_bit_def names_fs_def demo_sb_def)
  then show ?thesis using names_only_root n names_blocks(3) by (auto simp: dirs_ok_def)
qed

definition names_crash :: "mem_disk fs" where
  "names_crash = names_fs (Some (1, 2))"

lemma names_crash_facts: "fs_sb names_crash = demo_sb" "volume_ok mem_dev mem_ready names_crash" "dirs_ok (mem_content (fs_dev names_crash)) names_crash"
  "resolve_in (mem_content (fs_dev names_crash)) demo_sb [0x2f, 0x61] = Ok (2, demo_inode)"
proof -
  let ?c = "mem_content (fs_dev names_crash)"
  show sb: "fs_sb names_crash = demo_sb" by (simp add: names_crash_def names_blocks)
  show "volume_ok mem_dev mem_ready names_crash" using demo_geometry
    by (simp add: names_crash_def volume_ok_def names_fs_def mem_dev_def mem_ready_def mem_block_count_def names_lengths demo_sb_def)
  show "dirs_ok ?c names_crash" by (simp only: names_crash_def names_dirs)
  obtain e where "slot_entry ?c names_root 0 = Some e" "d_ino e = 2" "dirent_name e = [0x61]"
    using names_slots(1) [of "Some (1, 2)"] by (auto simp: names_crash_def slot_entry_def)
  then have "lookup ?c names_root [0x61] = Some (0, 2)" by (simp add: lookup_Some_iff dir_entries_def names_root_def)
  then show "resolve_in ?c demo_sb [0x2f, 0x61] = Ok (2, demo_inode)"
    using names_inodes [of "Some (1, 2)"] by (simp add: resolve_in_def components_def names_crash_def inode_kind_def) (simp add: names_root_def demo_inode_def)
qed

lemma rename_never_loses_witness:
  "case fs_rename mem_dev [0x2f, 0x61] [0x2f, 0x62] names_crash of
     (Inr _, s') \<Rightarrow> (\<exists>i'. resolve_in (mem_content (fs_dev s')) demo_sb [0x2f, 0x62] = Ok (2, i') \<and> i_kind i' = 1)
   | (Inl _, s') \<Rightarrow> (\<exists>path\<in>{[0x2f, 0x61], [0x2f, 0x62]}. \<exists>i'. resolve_in (mem_content (fs_dev s')) demo_sb path = Ok (2, i') \<and> i_kind i' = 1)"
proof -
  obtain r s' where run: "fs_rename mem_dev [0x2f, 0x61] [0x2f, 0x62] names_crash = (r, s')" by force
  show ?thesis
    using rename_never_loses [OF mem.block_device_axioms names_crash_facts(2,3) _ run, of 2 demo_inode] names_crash_facts(1,4)
    by (simp add: run demo_inode_def split: sum.splits)
qed

end
