(* ===== verification/Nexofs_Create.thy ===== *)
theory Nexofs_Create
  imports Nexofs_Rename
begin

text \<open>
  Creating files and directories when the device may fail at any access: a free inode is written before the entry that
  names it, every path that led somewhere still leads there, no other name appears, and after success the new path leads to the new object.
\<close>

section \<open>A free inode\<close>

lemma free_inode_inD:
  assumes "free_inode_in sb blk buf = Some ino" "length buf = BLOCK" "blk < 2 ^ 20"
  shows "ROOT_INO < ino" "ino < inode_count sb" "unat ino div 16 = blk" "u32_at buf (unat ino mod 16 * INODE_SIZE) = 0"
proof -
  from assms(1) obtain i where i: "i < 16" "ino = word_of_nat (blk * 16 + i)" "\<not> (ino \<le> ROOT_INO \<or> ino \<ge> inode_count sb)" "u32_at buf (i * INODE_SIZE) = 0"
    by (auto simp: free_inode_in_def Let_def find_Some_iff)
  have "unat ino = blk * 16 + i" unfolding i(2) unat_of_nat using i(1) assms(3) by (simp add: take_bit_nat_eq_self del: of_nat_add of_nat_mult)
  then have "unat ino div 16 = blk" "unat ino mod 16 = i" using i(1) by simp_all
  then show "ROOT_INO < ino" "ino < inode_count sb" "unat ino div 16 = blk" "u32_at buf (unat ino mod 16 * INODE_SIZE) = 0" using i(3,4) by (simp_all add: not_le)
qed

lemma inode_decode_kind0: "u32_at b 0 = 0 \<Longrightarrow> inode_decode b = Ok inode_free"
  by (simp add: inode_decode_def Let_def)

lemma u32_at_part: "off + n \<le> length b \<Longrightarrow> 4 \<le> n \<Longrightarrow> u32_at (slice_at off n b) 0 = u32_at b off"
  by (simp add: u32_at_def slice_at_def min_def)

context block_device
begin

lemma alloc_inode_loop_result:
  assumes "volume_ok D ready s" "set blks \<subseteq> {..<unat (inode_blocks (fs_sb s))}" "alloc_inode_loop D blks s = (r, s')"
  shows "volume_ok D ready s' \<and> same_meta s s' \<and> content (fs_dev s') = content (fs_dev s) \<and>
    (\<forall>ino. r = Ok ino \<longrightarrow> ino \<noteq> 0 \<and> inode_in (content (fs_dev s)) (fs_sb s) ino = Ok inode_free)"
  using assms
proof (induction blks arbitrary: s)
  case (Cons blk blks)
  have g: "geometry (fs_sb s)" using Cons.prems(1) by (simp add: volume_ok_def)
  note G = geometry_bounds [OF g]
  have blk: "blk < unat (inode_blocks (fs_sb s))" using Cons.prems(2) by simp
  define b where "b = inode_start (fs_sb s) + word_of_nat blk"
  have "unat (word_of_nat blk :: u64) = blk" using blk G by (intro unat_word_of_nat_64) (simp add: word_less_nat_alt)
  then have ub: "unat b = unat (inode_start (fs_sb s)) + blk" and small: "blk < 2 ^ 20"
    using blk G by (simp_all add: b_def unat_add_no_overflow word_less_nat_alt)
  then have lt: "b < total_blocks (fs_sb s)" using blk G by (simp add: word_less_nat_alt)
  from Cons.prems(3) have "fs_bind (dev_read D b) (\<lambda>buf s. case free_inode_in (fs_sb s) blk buf of Some ino \<Rightarrow> (Ok ino, s) | None \<Rightarrow> alloc_inode_loop D blks s) s = (r, s')"
    by (simp add: b_def)
  then show ?case
  proof (cases rule: fs_bind_cases)
    case (err e)
    then show ?thesis using dev_read_spec [OF Cons.prems(1) lt err(1)] by simp
  next
    case (ok buf s1)
    note R = dev_read_spec [OF Cons.prems(1) lt ok(1)]
    have len: "length buf = BLOCK" using R content_length [of "fs_dev s" b] Cons.prems(1) lt by (auto simp: volume_ok_def)
    show ?thesis
    proof (cases "free_inode_in (fs_sb s1) blk buf")
      case None
      then have run: "alloc_inode_loop D blks s1 = (r, s')" using ok(2) by simp
      have sb: "fs_sb s1 = fs_sb s" using R by (simp add: same_meta_def)
      show ?thesis using Cons.IH [OF _ _ run] R Cons.prems(2) sb same_meta_trans [of s s1 s'] by auto
    next
      case (Some ino)
      have F: "ROOT_INO < ino" "ino < inode_count (fs_sb s)" "unat ino div 16 = blk" "u32_at buf (unat ino mod 16 * INODE_SIZE) = 0"
        using free_inode_inD [OF Some len small] R by (simp_all add: same_meta_def)
      have "ino \<noteq> 0" using F(1) by auto
      then obtain blk' off where p: "inode_pos (fs_sb s) ino = Ok (blk', off)" using F(2) by (simp add: inode_pos_def Let_def not_le [symmetric])
      note P = inode_pos_bounds [OF g p]
      have "blk' = b" using P(7) F(3) ub by (simp add: word_unat_eq_iff)
      moreover have "u32_at (slice_at off INODE_SIZE buf) 0 = 0" using u32_at_part [of off INODE_SIZE buf] P(3,8) F(4) len by simp
      ultimately have "inode_in (content (fs_dev s)) (fs_sb s) ino = Ok inode_free"
        using p R inode_decode_kind0 by (simp add: inode_in_def)
      then show ?thesis using ok(2) Some R \<open>ino \<noteq> 0\<close> by auto
    qed
  qed
qed auto

lemma alloc_inode_result:
  assumes "volume_ok D ready s" "alloc_inode D s = (r, s')"
  shows "volume_ok D ready s'" "same_meta s s'" "content (fs_dev s') = content (fs_dev s)"
    "r = Ok ino \<Longrightarrow> ino \<noteq> 0 \<and> inode_in (content (fs_dev s)) (fs_sb s) ino = Ok inode_free"
  using alloc_inode_loop_result [OF assms(1) _ assms(2) [unfolded alloc_inode_def]] by (auto simp: atLeast0LessThan)

end

text \<open>A free place of the table, with a new inode in it or still free.\<close>

lemma table_new:
  assumes dirs: "dirs_ok c s" and free: "inode_in c (fs_sb s) ino = Ok inode_free" and tab: "table_kept (fs_sb s) ino c c'"
  shows "is_dir c (fs_sb s) d i \<Longrightarrow> j < dir_entries i \<Longrightarrow> slot_at c' i j = slot_at c i j" "is_dir c (fs_sb s) d i \<Longrightarrow> is_dir c' (fs_sb s) d i"
    "alters {} {ino} (fs_sb s) c c'"
proof -
  have other: "inode_in c' (fs_sb s) d = inode_in c (fs_sb s) d" if "d \<noteq> ino" for d using tab that by (simp add: table_kept_def)
  have slots: "slot_at c' i j = slot_at c i j" if "is_dir c (fs_sb s) d i" "j < dir_entries i" for d i j
    using dir_block_marked(2) [OF dirs that] tab by (intro slot_at_cong) (simp add: table_kept_def in_data_def)
  then show "is_dir c (fs_sb s) d i \<Longrightarrow> j < dir_entries i \<Longrightarrow> slot_at c' i j = slot_at c i j" .
  have "inode_kind inode_free = None" by (simp add: inode_free_def inode_kind_def)
  then show "is_dir c (fs_sb s) d i \<Longrightarrow> is_dir c' (fs_sb s) d i" using other free by (cases "d = ino") (auto simp: is_dir_def)
  show "alters {} {ino} (fs_sb s) c c'"
    by (rule altersI) (use other lookup_cong [of _ c' c] slots in \<open>auto simp: is_dir_def\<close>)
qed

lemma table_new_dirs:
  assumes dirs: "dirs_ok c s" and free: "inode_in c (fs_sb s) ino = Ok inode_free" and tab: "table_kept (fs_sb s) ino c c'"
    and new: "inode_in c' (fs_sb s) ino = Ok (new_inode k) \<or> inode_in c' (fs_sb s) ino = Ok inode_free" and m: "same_meta s s'"
  shows "dirs_ok c' s'"
proof -
  have sb: "fs_sb s' = fs_sb s" using m by (simp add: same_meta_def)
  have "inode_kind inode_free = None" by (simp add: inode_free_def inode_kind_def)
  then have old: "is_dir c (fs_sb s) d i \<or> i = new_inode k" if "is_dir c' (fs_sb s) d i" for d i
    using that tab new by (cases "d = ino") (auto simp: is_dir_def table_kept_def)
  have empty: "dir_blocks (new_inode k) = 0" "dir_entries (new_inode k) = 0" by (simp_all add: dir_blocks_def dir_entries_def new_inode_def)
  show ?thesis unfolding dirs_ok_def sb
  proof (intro conjI allI impI)
    fix d i assume i: "is_dir c' (fs_sb s) d i"
    show "dir_ok c' s' i"
    proof (cases "is_dir c (fs_sb s) d i")
      case True
      then have "dir_ok c s' i" using dirs dir_ok_meta [OF m] by (auto simp: dirs_ok_def)
      then show ?thesis using table_new(1) [OF dirs free tab True] by (simp add: dir_ok_def slot_entry_def)
    next
      case False
      then show ?thesis using old [OF i] empty by (simp add: dir_ok_def new_inode_def)
    qed
  next
    fix d1 i1 d2 i2 j1 j2
    assume a: "is_dir c' (fs_sb s) d1 i1" "is_dir c' (fs_sb s) d2 i2" "j1 < dir_blocks i1" "j2 < dir_blocks i2" "i_direct i1 ! j1 = i_direct i2 ! j2" "i_direct i1 ! j1 \<noteq> 0"
    then have "is_dir c (fs_sb s) d1 i1" "is_dir c (fs_sb s) d2 i2" using old empty(1) by fastforce+
    from dirs_ok_blocks [OF dirs this a(3-6)] show "d1 = d2" "j1 = j2" by simp_all
  qed
qed

section \<open>One new name\<close>

text \<open>
  At most one inode that was free is now an empty object, and at most the entry \<open>name\<close> of directory \<open>d\<close> is new; if it is
  there, it names that object.
\<close>

definition created :: "u32 \<Rightarrow> u8 list \<Rightarrow> kind \<Rightarrow> u32 option \<Rightarrow> superblock \<Rightarrow> (u64 \<Rightarrow> u8 list) \<Rightarrow> (u64 \<Rightarrow> u8 list) \<Rightarrow> bool" where
  "created d name k new sb c c' \<longleftrightarrow>
     alters {(d, name)} (set_option new) sb c c' \<and>
     (\<forall>x\<in>set_option new. inode_in c sb x = Ok inode_free \<and> (inode_in c' sb x = Ok (new_inode k) \<or> inode_in c' sb x = Ok inode_free)) \<and>
     (\<forall>p j x. inode_in c' sb d = Ok p \<longrightarrow> lookup c' p name = Some (j, x) \<longrightarrow> new = Some x \<and> inode_in c' sb x = Ok (new_inode k))"

lemma created_none:
  assumes A: "alters {} {} sb c c'" and p: "is_dir c sb d p" "lookup c p name = None"
  shows "created d name k None sb c c'"
  using altersD(2) [OF A, of d p] alters_trans [OF A alters_refl [of "{(d, name)}" "{}"]] p by (auto simp: created_def is_dir_def)

lemma alters_free: "alters {} {} sb c c' \<Longrightarrow> inode_in c' sb x = Ok inode_free \<Longrightarrow> inode_in c sb x = Ok inode_free"
  using altersD [of "{}" "{}" sb c c' x] by (cases "inode_in c sb x") (fastforce simp: inode_free_def inode_kind_def)+

lemma created_inode:
  assumes A: "alters {} {} sb c c1" and p: "is_dir c sb d p" "lookup c p name = None" and free: "inode_in c1 sb ino = Ok inode_free"
    and B: "alters {} {ino} sb c1 c'" and new: "inode_in c' sb ino = Ok (new_inode k) \<or> inode_in c' sb ino = Ok inode_free"
  shows "created d name k (Some ino) sb c c'"
proof -
  have AB: "alters {} {ino} sb c c'" using alters_trans [OF A B] by simp
  have f: "inode_in c sb ino = Ok inode_free" by (rule alters_free [OF A free])
  then have "d \<noteq> ino" using p(1) by (auto simp: is_dir_def inode_free_def inode_kind_def)
  then have "lookup c' p' name = None" if "inode_in c' sb d = Ok p'" for p' using altersD(2) [OF AB, of d p] p that by (auto simp: is_dir_def)
  then show ?thesis using alters_trans [OF AB alters_refl [of "{(d, name)}" "{}"]] f new by (simp add: created_def)
qed

lemma created_entry:
  assumes C: "created d name k (Some ino) sb c c1" and ino: "inode_in c1 sb ino = Ok (new_inode k)"
    and A: "alters {(d, name)} {} sb c1 c'" and same: "\<And>x. inode_in c' sb x = inode_in c1 sb x"
    and q: "inode_in c1 sb d = Ok q" "lookup c' q name = None \<or> lookup c' q name = Some (j, ino)"
  shows "created d name k (Some ino) sb c c'"
  using C alters_trans [OF _ A, of "{(d, name)}" "{ino}" c] same ino q by (auto simp: created_def)

text \<open>Every path to an object led to it before, or the object is the new one.\<close>

lemma route_back:
  assumes C: "created d name k new sb c c'"
  shows "route {} c' sb y i' parts = Some (x, ix') \<Longrightarrow> inode_in c sb y = Ok i \<Longrightarrow> i_kind i \<noteq> 0 \<Longrightarrow> inode_in c' sb y = Ok i' \<Longrightarrow>
    (\<exists>ix. route {} c sb y i parts = Some (x, ix)) \<or> new = Some x \<and> ix' = new_inode k"
proof (induction parts arbitrary: y i i')
  case (Cons part parts)
  have A: "alters {(d, name)} (set_option new) sb c c'" and free: "\<And>x. new = Some x \<Longrightarrow> inode_in c sb x = Ok inode_free"
    using C by (simp_all add: created_def)
  from Cons.prems(1) obtain kk nxt j' where n: "inode_kind i' = Some Dir" "lookup c' i' part = Some (kk, nxt)" "inode_in c' sb nxt = Ok j'" "i_kind j' \<noteq> 0"
    "route {} c' sb nxt j' parts = Some (x, ix')" unfolding route_step by blast
  have "y \<notin> set_option new" using free Cons.prems(2,3) by (auto simp: inode_free_def)
  from altersD(2) [OF A this Cons.prems(2)] Cons.prems(4) have i: "i_kind i' = i_kind i"
    "if inode_kind i = Some Dir then \<forall>n. (y, n) \<notin> {(d, name)} \<longrightarrow> lookup c' i' n = lookup c i n else i' = i" by auto
  have dir: "inode_kind i = Some Dir" using n(1) inode_kind_cong [OF i(1)] by simp
  show ?case
  proof (cases "new = Some nxt")
    case True
    then have "inode_in c' sb nxt = Ok (new_inode k) \<or> inode_in c' sb nxt = Ok inode_free" using C by (simp add: created_def)
    then have j': "j' = new_inode k" using n(3,4) by (auto simp: inode_free_def)
    have "lookup c' (new_inode k) part' = None" for part' by (simp add: lookup_def dir_entries_def new_inode_def)
    then have "parts = []" using n(5) unfolding j' by (cases parts) (auto simp del: route.simps(2) simp: route_step)
    then show ?thesis using n(5) j' True by simp
  next
    case False
    then have "(y, part) \<noteq> (d, name)" using C n(2) Cons.prems(4) by (auto simp: created_def)
    then have l: "lookup c i part = Some (kk, nxt)" using i(2) dir n(2) by simp
    have nn: "nxt \<notin> set_option new" using False by (cases new) auto
    obtain j where j: "inode_in c sb nxt = Ok j"
      using altersD(1) [OF A nn] n(3) by (cases "inode_in c sb nxt") auto
    moreover have "i_kind j \<noteq> 0" using altersD(2) [OF A nn j] n(3,4) by auto
    ultimately show ?thesis using Cons.IH [OF n(5) j _ n(3)] dir l unfolding route_step by blast
  qed
qed simp

lemma resolve_back:
  assumes C: "created d name k new sb c c'" and root: "resolve_in c sb q0 = Ok y0" and r: "resolve_in c' sb q = Ok (x, i')"
  shows "(\<exists>i. resolve_in c sb q = Ok (x, i)) \<or> new = Some x \<and> i' = new_inode k"
proof -
  obtain i where i: "inode_in c sb ROOT_INO = Ok i" "inode_kind i = Some Dir" using root unfolding resolve_reach reach_iff by blast
  obtain j where j: "inode_in c' sb ROOT_INO = Ok j" "route {} c' sb ROOT_INO j (components q) = Some (x, i')" using r unfolding resolve_reach reach_iff by blast
  from route_back [OF C j(2) i(1) dir_kind_nonzero [OF i(2)] j(1)] show ?thesis unfolding resolve_reach reach_iff using i by blast
qed

lemma resolve_created:
  assumes C: "created d name k new sb c c'" and p: "is_dir c sb d p" "lookup c p name = None" and r: "resolve_in c sb q = Ok (x, i)"
  shows "\<exists>i'. resolve_in c' sb q = Ok (x, i') \<and> i_kind i' = i_kind i \<and> (inode_kind i = Some Dir \<or> i' = i)"
proof -
  have A: "alters {(d, name)} (set_option new) sb c c'" and F: "\<forall>x\<in>set_option new. inode_in c sb x = Ok inode_free" using C by (simp_all add: created_def)
  have "keeps {} sb c c'" by (rule alters_keeps [OF A F]) (use p in \<open>auto simp: is_dir_def\<close>)
  from resolve_keeps [OF this r] obtain i' where i': "resolve_in c' sb q = Ok (x, i')" "i_kind i' = i_kind i" by blast
  have i: "inode_in c sb x = Ok i" "i_kind i \<noteq> 0" using r reach_inode unfolding resolve_reach by blast+
  then have "x \<notin> set_option new" using F by (auto simp: inode_free_def)
  then show ?thesis using altersD(2) [OF A _ i(1)] i' resolve_inode [OF i'(1)] by (auto split: if_splits)
qed

section \<open>Create\<close>

lemma walk_append: "walk c sb d i (ps @ qs) = try_bind (walk c sb d i ps) (\<lambda>(x, ix). walk c sb x ix qs)"
  by (induction c sb d i ps rule: walk.induct) (auto simp: try_bind_def split: option.splits sum.splits)

lemma resolve_missing:
  assumes "split_parent path = Ok (parent, name)" "resolve_in c sb parent = Ok (d, p)" "inode_kind p = Some Dir" "lookup c p name = None"
  shows "resolve_in c sb path = Err NotFound"
  using assms(2-) by (auto simp: resolve_in_def split_parent_components(1) [OF assms(1)] walk_append try_bind_def split: sum.splits if_splits)

text \<open>The directory and the name that a path stands for.\<close>

definition entry_of :: "(u64 \<Rightarrow> u8 list) \<Rightarrow> superblock \<Rightarrow> u8 list \<Rightarrow> (u32 \<times> u8 list) set" where
  "entry_of c sb path = {(d, name). \<exists>parent p. split_parent path = Ok (parent, name) \<and> resolve_in c sb parent = Ok (d, p)}"

context block_device
begin

text \<open>The inode is written, and then the entry in a slot that is free.\<close>

lemma create_in_slot:
  assumes s: "volume_ok D ready s" and dirs: "dirs_ok (content (fs_dev s)) s" and p: "is_dir (content (fs_dev s)) (fs_sb s) d p" "lookup (content (fs_dev s)) p name = None"
    and slot: "slot < dir_entries p" "slot_entry (content (fs_dev s)) p slot = None" "i_direct p ! (slot div per_block) \<noteq> 0"
    and name: "name \<noteq> []" "length name \<le> NAME_MAX" and ino: "inode_in (content (fs_dev s)) (fs_sb s) ino = Ok inode_free" "ino \<noteq> 0"
    and run: "fs_bind (write_inode D ino (new_inode k)) (\<lambda>_. fs_bind (write_entry D p slot ino name) (\<lambda>_. fs_return ino)) s = (r, s')"
  defines "c \<equiv> content (fs_dev s)" and "c' \<equiv> content (fs_dev s')" and "sb \<equiv> fs_sb s"
  assumes before: "alters {} {} sb c0 c" "is_dir c0 sb d p0" "lookup c0 p0 name = None"
  shows "dirs_ok c' s' \<and> (\<exists>new. created d name k new sb c0 c') \<and> (\<forall>x. r = Ok x \<longrightarrow> (\<exists>p' j. inode_in c' sb d = Ok p' \<and> lookup c' p' name = Some (j, x)))"
proof -
  note here = dirs [folded c_def] p [folded c_def sb_def] slot(2) [folded c_def] ino(1) [folded c_def sb_def]
  have wf: "inode_wf (new_inode k)" by (cases k) (simp_all add: inode_wf_def new_inode_def)
  obtain q s3 where w: "write_inode D ino (new_inode k) s = (q, s3)" by force
  define c3 where "c3 = content (fs_dev s3)"
  have W: "same_meta s s3" "table_kept sb ino c c3" "inode_in c3 sb ino = Ok (new_inode k) \<or> inode_in c3 sb ino = Ok inode_free"
    "q = Ok () \<Longrightarrow> volume_ok D ready s3 \<and> inode_in c3 sb ino = Ok (new_inode k)"
    using write_inode_cases [OF s _ w] wf here(5) by (auto simp: c3_def c_def sb_def)
  note T = table_new [OF here(1) here(5) [unfolded sb_def] W(2) [unfolded sb_def], folded sb_def]
  have d3: "dirs_ok c3 s3" "fs_sb s3 = sb" using table_new_dirs [OF here(1) here(5) [unfolded sb_def] W(2,3) [unfolded sb_def] W(1)] W(1) by (simp_all add: same_meta_def sb_def)
  have C: "created d name k (Some ino) sb c0 c3" by (rule created_inode [OF before here(5) T(3) W(3)])
  from run show ?thesis
  proof (cases rule: fs_bind_cases)
    case (err e)
    then show ?thesis using w C d3(1) by (auto simp: c'_def c3_def)
  next
    case (ok u s4)
    then have q: "q = Ok ()" "s4 = s3" using w by simp_all
    have same: "slot_at c3 p j = slot_at c p j" if "j < dir_entries p" for j by (rule T(1) [OF here(2) that])
    have f3: "slot_entry c3 p slot = None" "lookup c3 p name = None" using same [OF slot(1)] here(3,4) lookup_cong [of p, OF same] by (simp_all add: slot_entry_def)
    have p3: "is_dir c3 sb d p" by (rule T(2) [OF here(2)])
    have v3: "volume_ok D ready s3" "inode_in c3 sb ino = Ok (new_inode k)" using W(4) q by simp_all
    obtain q4 where e: "write_entry D p slot ino name s3 = (q4, s')" "\<forall>x. r = Ok x \<longrightarrow> q4 = Ok () \<and> x = ino"
      using ok(2) q(2) by (auto simp: fs_bind_def split: prod.splits sum.splits)
    note E = entry_added [OF v3(1) d3(1) [unfolded c3_def] p3 [folded d3(2), unfolded c3_def] slot(1) f3(1) [unfolded c3_def] slot(3) f3(2) [unfolded c3_def] name ino(2) e(1),
        folded c3_def c'_def, unfolded d3(2)]
    have "created d name k (Some ino) sb c0 c'" by (rule created_entry [OF C v3(2) E(4) E(3) _ E(6)]) (use p3 in \<open>simp add: is_dir_def\<close>)
    moreover have "\<exists>p' j. inode_in c' sb d = Ok p' \<and> lookup c' p' name = Some (j, x)" if "r = Ok x" for x
      using e(2) that E(3) [of d] E(7) p3 by (auto simp: is_dir_def)
    ultimately show ?thesis using E(2) by blast
  qed
qed

lemma create_link:
  assumes s: "volume_ok D ready s" and dirs: "dirs_ok (content (fs_dev s)) s" and p: "is_dir (content (fs_dev s)) (fs_sb s) d p" "lookup (content (fs_dev s)) p name = None"
    and name: "name \<noteq> []" "length name \<le> NAME_MAX"
    and run: "fs_bind (dir_alloc_slot D d p) (\<lambda>(slot, p). fs_bind (alloc_inode D) (\<lambda>ino. fs_bind (write_inode D ino (new_inode k)) (\<lambda>_.
        fs_bind (write_entry D p slot ino name) (\<lambda>_. fs_return ino)))) s = (r, s')"
  defines "c \<equiv> content (fs_dev s)" and "c' \<equiv> content (fs_dev s')" and "sb \<equiv> fs_sb s"
  shows "dirs_ok c' s' \<and> (\<exists>new. created d name k new sb c c') \<and> (\<forall>ino. r = Ok ino \<longrightarrow> (\<exists>p' j. inode_in c' sb d = Ok p' \<and> lookup c' p' name = Some (j, ino)))"
proof -
  note p = p [folded c_def sb_def]
  from run show ?thesis
  proof (cases rule: fs_bind_cases)
    case (err e)
    have "dirs_ok c' s'" "alters {} {} sb c c'"
      using dir_alloc_slot_result [OF s dirs p(1) [unfolded c_def sb_def] err(1)] by (simp_all add: slot_given_def Let_def c_def c'_def sb_def)
    then show ?thesis using created_none [OF _ p] err(2) by blast
  next
    case (ok x s1)
    obtain slot p1 where x: "x = (slot, p1)" by (cases x)
    have G: "fs_sb s1 = sb" "alters {} {} sb c (content (fs_dev s1))" "volume_ok D ready s1" "dirs_ok (content (fs_dev s1)) s1" "is_dir (content (fs_dev s1)) sb d p1"
      "slot < dir_entries p1" "slot_entry (content (fs_dev s1)) p1 slot = None" "i_direct p1 ! (slot div per_block) \<noteq> 0" "lookup (content (fs_dev s1)) p1 name = None"
      using dir_alloc_slot_result [OF s dirs p(1) [unfolded c_def sb_def] ok(1)] x p(2) by (simp_all add: slot_given_def Let_def c_def sb_def)
    from ok(2) [unfolded x prod.case] show ?thesis
    proof (cases rule: fs_bind_cases)
      case (err e)
      note A = alloc_inode_result [OF G(3) err(1)]
      have "dirs_ok c' s'" "alters {} {} sb c c'" using A(3) G(2) dirs_stop [OF G(4) A(2)] by (simp_all add: c'_def)
      then show ?thesis using created_none [OF _ p] err(2) by blast
    next
      case (ok ino s2)
      note A = alloc_inode_result [OF G(3) ok(1)]
      have s2: "dirs_ok (content (fs_dev s2)) s2" "fs_sb s2 = sb" using A(2,3) G(1) dirs_stop [OF G(4) A(2)] by (simp_all add: same_meta_def)
      show ?thesis unfolding c'_def
        by (rule create_in_slot [OF A(1) s2(1) _ _ G(6) _ G(8) name _ _ ok(2), unfolded s2(2)]) (use G A(3,4) p in simp_all)
    qed
  qed
qed

lemma create_outcome:
  assumes s: "volume_ok D ready s" and dirs: "dirs_ok (content (fs_dev s)) s" and run: "fs_create D path k s = (r, s')"
  defines "c \<equiv> content (fs_dev s)" and "c' \<equiv> content (fs_dev s')" and "sb \<equiv> fs_sb s"
  shows "dirs_ok c' s' \<and> ((\<exists>e. r = Err e) \<and> c' = c \<or>
    (\<exists>parent name d p new. split_parent path = Ok (parent, name) \<and> resolve_in c sb parent = Ok (d, p) \<and> inode_kind p = Some Dir \<and> lookup c p name = None \<and>
      created d name k new sb c c' \<and> (\<forall>ino. r = Ok ino \<longrightarrow> (\<exists>p' j. inode_in c' sb d = Ok p' \<and> lookup c' p' name = Some (j, ino)))))"
proof (cases "split_parent path")
  case (Inl e)
  then show ?thesis using run dirs by (auto simp: fs_create_def fs_bind_def c_def c'_def)
next
  case (Inr x)
  then obtain pp name where pp: "split_parent path = Ok (pp, name)" by (cases x) auto
  note cp = split_parent_components [OF pp]
  note dirs = dirs [folded c_def]
  note run = run [unfolded fs_create_def, simplified fs_bind_def [of "fs_lift f" for f] fs_simps pp prod.case sum.case]
  have c: "content (fs_dev s) = c" by (simp add: c_def)
  from finds_resolve [OF dirs] s same_meta_refl c run show ?thesis
  proof (cases rule: finds_step)
    case (go y s1)
    obtain d p where y: "y = (d, p)" by (cases y)
    have res: "resolve_in c sb pp = Ok (d, p)" using go(1) y by (simp add: sb_def)
    show ?thesis
    proof (cases "inode_kind p = Some Dir")
      case True
      have d: "is_dir c sb d p" using True resolve_inode [OF res] by (simp add: is_dir_def)
      have pok: "dir_ok c s p" using dirs d by (auto simp: dirs_ok_def sb_def)
      have "fs_bind (find_in_dir D p name) (\<lambda>found. if found \<noteq> None then fs_fail Exists else fs_bind (dir_alloc_slot D d p) (\<lambda>(slot, p).
          fs_bind (alloc_inode D) (\<lambda>ino. fs_bind (write_inode D ino (new_inode k)) (\<lambda>_. fs_bind (write_entry D p slot ino name) (\<lambda>_. fs_return ino))))) s1 = (r, s')"
        using go(5) y True by simp
      from finds_lookup [OF pok] go(2-4) this show ?thesis
      proof (cases rule: finds_step)
        case (go found s2)
        have s2: "dirs_ok (content (fs_dev s2)) s2" "fs_sb s2 = sb" using dirs_stop [OF dirs go(3)] go(3,4) by (simp_all add: same_meta_def sb_def)
        show ?thesis
        proof (cases "lookup c p name")
          case None
          then have run2: "fs_bind (dir_alloc_slot D d p) (\<lambda>(slot, p). fs_bind (alloc_inode D) (\<lambda>ino. fs_bind (write_inode D ino (new_inode k)) (\<lambda>_.
              fs_bind (write_entry D p slot ino name) (\<lambda>_. fs_return ino)))) s2 = (r, s')" using go(1,5) by auto
          note L = create_link [OF go(2) s2(1) _ _ cp(2,3) run2, unfolded s2(2) go(4), folded c'_def]
          then show ?thesis using d None pp res True by blast
        next
          case (Some z)
          then have "found = Some z" using go(1) by simp
          then have "(\<exists>e. r = Err e) \<and> s' = s2" using go(5) by auto
          then show ?thesis using s2(1) go(4) by (auto simp: c'_def)
        qed
      qed (use dirs_stop [OF dirs] in \<open>auto simp: c'_def\<close>)
    next
      case False
      then have "(\<exists>e. r = Err e) \<and> s' = s1" using go(5) y by auto
      then show ?thesis using dirs_stop [OF dirs go(3)] go(4) by (auto simp: c'_def)
    qed
  qed (use dirs_stop [OF dirs] in \<open>auto simp: c'_def\<close>)
qed

end

section \<open>Property\<close>

text \<open>
  C33. Creating adds one name and nothing else. Whatever device access fails, and however a write is torn, the directories stay
  sound; the only inode that may change from free to used, and the only directory entry that may be new, are those of the new
  object, and everything else (the inodes of files, and which names the directories have and for what) is as before. So every
  path to an object still leads to it, and a path that leads to an object now led to it before or leads to the new one, which is
  empty and of the kind that was asked for. A call succeeds only on a path that named nothing, and makes it name the inode it
  returns.
\<close>

theorem create_adds_name:
  assumes "block_device D ready content" "volume_ok D ready s" "dirs_ok (content (fs_dev s)) s" "fs_create D path k s = (r, s')"
  shows "let c = content (fs_dev s); c' = content (fs_dev s'); sb = fs_sb s in
    dirs_ok c' s' \<and>
    (\<exists>new. alters (entry_of c sb path) (set_option new) sb c c' \<and> (\<forall>x\<in>set_option new. inode_in c sb x = Ok inode_free)) \<and>
    (\<forall>q x i. resolve_in c sb q = Ok (x, i) \<longrightarrow> (\<exists>i'. resolve_in c' sb q = Ok (x, i') \<and> i_kind i' = i_kind i \<and> (inode_kind i = Some Dir \<or> i' = i))) \<and>
    (\<forall>q x i'. resolve_in c' sb q = Ok (x, i') \<longrightarrow> (\<exists>i. resolve_in c sb q = Ok (x, i)) \<or> inode_in c sb x = Ok inode_free \<and> i' = new_inode k) \<and>
    (\<forall>ino. r = Ok ino \<longrightarrow> resolve_in c sb path = Err NotFound \<and> resolve_in c' sb path = Ok (ino, new_inode k))"
proof -
  let ?c = "content (fs_dev s)" and ?c' = "content (fs_dev s')" and ?sb = "fs_sb s"
  note O = block_device.create_outcome [OF assms]
  show ?thesis
  proof (cases "\<exists>e. r = Err e \<and> ?c' = ?c")
    case True
    then show ?thesis using O by (auto simp: Let_def)
  next
    case False
    with O obtain parent name d p new where pp: "split_parent path = Ok (parent, name)"
      and p: "resolve_in ?c ?sb parent = Ok (d, p)" "inode_kind p = Some Dir" "lookup ?c p name = None" and C: "created d name k new ?sb ?c ?c'"
      and ok: "\<forall>ino. r = Ok ino \<longrightarrow> (\<exists>p' j. inode_in ?c' ?sb d = Ok p' \<and> lookup ?c' p' name = Some (j, ino))" by blast
    have d: "is_dir ?c ?sb d p" using p(2) resolve_inode [OF p(1)] by (simp add: is_dir_def)
    have new: "inode_in ?c ?sb x = Ok inode_free" if "new = Some x" for x using C that by (simp add: created_def)
    have "entry_of ?c ?sb path = {(d, name)}" using pp p(1) by (auto simp: entry_of_def)
    then have A: "alters (entry_of ?c ?sb path) (set_option new) ?sb ?c ?c'" using C by (simp add: created_def)
    have T: "resolve_in ?c' ?sb path = Ok (ino, new_inode k)" if r: "r = Ok ino" for ino
    proof -
      obtain p' j where l: "inode_in ?c' ?sb d = Ok p'" "lookup ?c' p' name = Some (j, ino)" using ok r by blast
      obtain p'' where p'': "resolve_in ?c' ?sb parent = Ok (d, p'')" "i_kind p'' = i_kind p" using resolve_created [OF C d p(3,1)] by blast
      have "inode_in ?c' ?sb ino = Ok (new_inode k)" using C l by (auto simp: created_def)
      then show ?thesis unfolding resolve_split [OF pp] using p'' l resolve_inode [OF p''(1)] inode_kind_cong [OF p''(2)] p(2)
        by (auto simp: new_inode_def split: kind.splits)
    qed
    show ?thesis unfolding Let_def
    proof (intro conjI allI impI)
      show "\<exists>new. alters (entry_of ?c ?sb path) (set_option new) ?sb ?c ?c' \<and> (\<forall>x\<in>set_option new. inode_in ?c ?sb x = Ok inode_free)"
        using A new by (intro exI [of _ new]) simp
      fix q x i' assume "resolve_in ?c' ?sb q = Ok (x, i')"
      from resolve_back [OF C p(1) this] show "(\<exists>i. resolve_in ?c ?sb q = Ok (x, i)) \<or> inode_in ?c ?sb x = Ok inode_free \<and> i' = new_inode k" using new by blast
    qed (use O T resolve_created [OF C d p(3)] resolve_missing [OF pp p] in simp_all)
  qed
qed

lemma create_adds_name_witness:
  "case fs_create mem_dev [0x2f, 0x62] Dir names_crash of (r, s') \<Rightarrow>
     dirs_ok (mem_content (fs_dev s')) s' \<and> resolve_in (mem_content (fs_dev s')) demo_sb [0x2f, 0x61] = Ok (2, demo_inode) \<and>
     (case r of Inr ino \<Rightarrow> resolve_in (mem_content (fs_dev s')) demo_sb [0x2f, 0x62] = Ok (ino, new_inode Dir) | Inl _ \<Rightarrow> True)"
proof -
  obtain r s' where run: "fs_create mem_dev [0x2f, 0x62] Dir names_crash = (r, s')" by force
  note C = create_adds_name [OF mem.block_device_axioms names_crash_facts(2,3) run, unfolded names_crash_facts(1) Let_def]
  have "inode_kind demo_inode \<noteq> Some Dir" by (simp add: demo_inode_def inode_kind_def)
  then have "resolve_in (mem_content (fs_dev s')) demo_sb [0x2f, 0x61] = Ok (2, demo_inode)" using C names_crash_facts(4) by blast
  then show ?thesis using C by (simp add: run split: sum.splits)
qed

end
