(* ===== verification/Nexofs_List.thy ===== *)
theory Nexofs_List
  imports Nexofs_Create
begin

text \<open>
  Listing a directory: the loop that fills an array of 64 items, looks their inodes up and goes on after the last one gives
  the same answer as one pass over the entries.
\<close>

section \<open>One pass\<close>

fun stats_in :: "(u64 \<Rightarrow> u8 list) \<Rightarrow> superblock \<Rightarrow> (nat \<times> dirent) list \<Rightarrow> (fs_error, (u8 list \<times> stat) list) result" where
  "stats_in c sb [] = Ok []"
| "stats_in c sb ((k, e) # xs) =
     try_bind (inode_in c sb (d_ino e)) (\<lambda>i.
       case inode_kind i of
         None \<Rightarrow> Err (Corrupted ''entrada para inode livre'')
       | Some kd \<Rightarrow> try_bind (stats_in c sb xs) (\<lambda>out. Ok ((dirent_name e, \<lparr>st_ino = d_ino e, st_kind = kd, st_size = i_size i\<rparr>) # out)))"

definition listing_in :: "(u64 \<Rightarrow> u8 list) \<Rightarrow> superblock \<Rightarrow> u8 list \<Rightarrow> (fs_error, nat \<times> (u8 list \<times> stat) list) result" where
  "listing_in c sb path =
     try_bind (resolve_in c sb path) (\<lambda>(_, dir).
       if inode_kind dir \<noteq> Some Dir then Err NotDir
       else try_bind (stats_in c sb (used_slots c dir [0..<dir_entries dir])) (\<lambda>out. Ok (length out, out)))"

lemma stats_append: "stats_in c sb (xs @ ys) = try_bind (stats_in c sb xs) (\<lambda>a. try_bind (stats_in c sb ys) (\<lambda>b. Ok (a @ b)))"
  by (induction c sb xs rule: stats_in.induct) (auto simp: try_bind_def split: sum.splits option.splits)

section \<open>Batches\<close>

definition item :: "nat \<times> dirent \<Rightarrow> u32 \<times> u8 list" where
  "item x = (d_ino (snd x), dirent_name (snd x))"

lemma used_slots_range: "(k, e) \<in> set (used_slots c i [a..<b]) \<Longrightarrow> a \<le> k \<and> k < b"
  by (auto simp: used_slots_def map_filter_def)

lemma used_slots_fst: "x \<in> set (used_slots c i [a..<b]) \<Longrightarrow> a \<le> fst x \<and> fst x < b"
  using used_slots_range [of "fst x" "snd x"] by simp

lemma visit_skip: "(\<forall>x\<in>set xs. fst x < start) \<Longrightarrow> length items < 64 \<Longrightarrow> visit list_visit xs (start, items) = ((start, items), True)"
  by (induction xs) (auto simp: list_visit_def)

text \<open>From the first slot that counts on, items are taken until there are 64.\<close>

lemma visit_take:
  assumes "sorted (map fst xs)" "distinct (map fst xs)" "\<forall>x\<in>set xs. start \<le> fst x" "length items < 64"
  shows "fst (visit list_visit xs (start, items)) =
    (if xs = [] then start else Suc (fst (last (take (64 - length items) xs))), items @ map item (take (64 - length items) xs))"
  using assms
proof (induction xs arbitrary: start items)
  case (Cons x xs)
  obtain k e where x: "x = (k, e)" by force
  have step: "list_visit k e (start, items) = ((Suc k, items @ [item x]), Suc (length items) < 64)" using Cons.prems x by (simp add: list_visit_def item_def)
  show ?case
  proof (cases "Suc (length items) < 64")
    case True
    have "\<forall>y\<in>set xs. Suc k \<le> fst y" using Cons.prems(1,2) x by (force simp: Suc_le_eq order_le_less)
    then have IH: "fst (visit list_visit xs (Suc k, items @ [item x])) =
      (if xs = [] then Suc k else Suc (fst (last (take (64 - Suc (length items)) xs))), (items @ [item x]) @ map item (take (64 - Suc (length items)) xs))"
      using Cons.IH [of "Suc k" "items @ [item x]"] Cons.prems(1,2) True by simp
    have "64 - length items = Suc (64 - Suc (length items))" using True by simp
    then show ?thesis using IH step True x by (auto simp: last_ConsR)
  next
    case False
    then have "64 - length items = 1" using Cons.prems(4) by simp
    then show ?thesis using step False x by simp
  qed
qed simp

lemma used_slots_sorted: "sorted (map fst (used_slots c i [a..<b])) \<and> distinct (map fst (used_slots c i [a..<b]))"
proof (induction b)
  case (Suc b)
  then show ?case using used_slots_range [of _ _ c i a b] by (fastforce simp: sorted_append split: option.splits)
qed simp

lemma used_slots_from:
  assumes "a \<le> b" "b \<le> n"
  shows "used_slots c i [a..<n] = used_slots c i [a..<b] @ used_slots c i [b..<n]"
  using upt_add_eq_append [of a b "n - b"] assms by simp

lemma sorted_last: "sorted (map fst zs) \<Longrightarrow> x \<in> set zs \<Longrightarrow> fst x \<le> fst (last zs)"
  by (induction zs) auto

lemma take_upto:
  assumes "sorted (map fst xs)" "distinct (map fst xs)" "take n xs \<noteq> []"
  shows "filter (\<lambda>x. fst x \<le> fst (last (take n xs))) xs = take n xs"
proof -
  let ?l = "last (take n xs)"
  have xs: "xs = take n xs @ drop n xs" by simp
  have l: "?l \<in> set (take n xs)" using assms(3) by simp
  have s: "sorted (map fst (take n xs) @ map fst (drop n xs))" "distinct (map fst (take n xs) @ map fst (drop n xs))"
    using assms by (simp_all only: map_append [symmetric] append_take_drop_id)
  have "fst x \<le> fst ?l" if "x \<in> set (take n xs)" for x using sorted_last [OF _ that] s(1) by (simp add: sorted_append)
  moreover have "fst ?l < fst x" if "x \<in> set (drop n xs)" for x
  proof -
    have "fst ?l \<le> fst x" using s(1) l that by (simp add: sorted_append)
    moreover have "fst ?l \<noteq> fst x" using s(2) l that by (force simp: distinct_append)
    ultimately show ?thesis by simp
  qed
  ultimately have "filter (\<lambda>x. fst x \<le> fst ?l) (take n xs) = take n xs" "filter (\<lambda>x. fst x \<le> fst ?l) (drop n xs) = []"
    by (simp add: filter_id_conv, fastforce simp: filter_empty_conv)
  then show ?thesis by (subst xs) (simp only: filter_append append_Nil2)
qed

text \<open>One batch: the next 64 slots in use, or all that are left.\<close>

lemma list_batch:
  assumes xs: "xs = used_slots c i [start..<n]" and n: "start \<le> n" and nx: "nx = (if xs = [] then start else Suc (fst (last (take 64 xs))))"
  shows "fst (visit list_visit (used_slots c i [0..<n]) (start, [])) = (nx, map item (take 64 xs))"
    "nx \<le> n" "used_slots c i [nx..<n] = drop 64 xs"
proof -
  have "used_slots c i [0..<n] = used_slots c i [0..<start] @ xs" using used_slots_from [of 0 start n] xs n by simp
  moreover have "visit list_visit (used_slots c i [0..<start]) (start, []) = ((start, []), True)" by (rule visit_skip) (auto dest: used_slots_range)
  moreover have "\<forall>x\<in>set xs. start \<le> fst x" using used_slots_range xs by force
  ultimately show "fst (visit list_visit (used_slots c i [0..<n]) (start, [])) = (nx, map item (take 64 xs))"
    using visit_take [of xs start "[]"] used_slots_sorted [of c i start n] xs nx by (simp add: visit_append)
  show "nx \<le> n" "used_slots c i [nx..<n] = drop 64 xs"
  proof -
    consider "xs = []" | "xs \<noteq> []" by blast
    then have "nx \<le> n \<and> used_slots c i [nx..<n] = drop 64 xs"
    proof cases
      case 2
      obtain k where kd: "fst (last (take 64 xs)) = k" by simp
      have "last (take 64 xs) \<in> set xs" using 2 last_in_set [of "take 64 xs"] set_take_subset [of 64 xs] by auto
      then have k: "start \<le> k" "k < n" using used_slots_range [of k "snd (last (take 64 xs))" c i start n] xs kd by auto
      let ?a = "used_slots c i [start..<Suc k]" and ?b = "used_slots c i [Suc k..<n]"
      have split: "xs = ?a @ ?b" unfolding xs by (rule used_slots_from) (use k in simp_all)
      have "\<forall>x\<in>set ?a. fst x \<le> k" "\<forall>x\<in>set ?b. \<not> fst x \<le> k"
        using used_slots_fst [of _ c i start "Suc k"] used_slots_fst [of _ c i "Suc k" n] by (meson less_Suc_eq_le not_less_eq_eq)+
      then have "filter (\<lambda>x. fst x \<le> k) (?a @ ?b) = ?a" by (simp only: filter_append filter_True filter_False append_Nil2)
      moreover have "filter (\<lambda>x. fst x \<le> k) xs = take 64 xs" unfolding kd [symmetric]
        by (rule take_upto) (use 2 used_slots_sorted [of c i start n, folded xs] in simp_all)
      ultimately have a: "?a = take 64 xs" unfolding split [symmetric] by (rule trans [OF sym])
      have "take 64 xs @ ?b = take 64 xs @ drop 64 xs" using split unfolding a append_take_drop_id by (rule sym)
      then have "?b = drop 64 xs" by (rule same_append_eq [THEN iffD1])
      then show ?thesis using 2 nx k kd by simp
    qed (use nx n xs in simp)
    then show "nx \<le> n" "used_slots c i [nx..<n] = drop 64 xs" by simp_all
  qed
qed

section \<open>The loop\<close>

context block_device
begin

lemma finds_stats: "finds D ready content s0 c (list_stats D (map item xs)) (stats_in c (fs_sb s0) xs)"
proof (induction xs)
  case (Cons x xs)
  obtain k e where x: "x = (k, e)" by force
  have step: "finds D ready content s0 c (case inode_kind i of None \<Rightarrow> fs_fail (Corrupted ''entrada para inode livre'')
       | Some kd \<Rightarrow> fs_bind (list_stats D (map item xs)) (\<lambda>out. fs_return ((dirent_name e, \<lparr>st_ino = d_ino e, st_kind = kd, st_size = i_size i\<rparr>) # out)))
     (case inode_kind i of None \<Rightarrow> Err (Corrupted ''entrada para inode livre'')
       | Some kd \<Rightarrow> try_bind (stats_in c (fs_sb s0) xs) (\<lambda>out. Ok ((dirent_name e, \<lparr>st_ino = d_ino e, st_kind = kd, st_size = i_size i\<rparr>) # out)))" for i
  proof (cases "inode_kind i")
    case None
    then show ?thesis using finds_fail by simp
  next
    case (Some kd)
    then show ?thesis using finds_bind [OF Cons.IH finds_return] by simp
  qed
  have it: "map item (x # xs) = (d_ino e, dirent_name e) # map item xs" using x by (simp add: item_def)
  show ?case unfolding it unfolding x list_stats.simps stats_in.simps by (rule finds_bind [OF reads_as_finds [OF reads_inode] step])
qed (simp add: finds_def)

lemma list_loop_spec:
  assumes i: "dir_ok c s0 i" and "volume_ok D ready s" "same_meta s0 s" "content (fs_dev s) = c" "start \<le> dir_entries i" "list_loop D i start s = (r, s')"
  shows "volume_ok D ready s' \<and> same_meta s0 s' \<and> content (fs_dev s') = c \<and> (r = Err Io \<or> r = stats_in c (fs_sb s0) (used_slots c i [start..<dir_entries i]))"
  using assms(2-)
proof (induction "dir_entries i - start" arbitrary: start s r s' rule: less_induct)
  case less
  let ?xs = "used_slots c i [start..<dir_entries i]" and ?sb = "fs_sb s0"
  define nx where "nx = (if ?xs = [] then start else Suc (fst (last (take 64 ?xs))))"
  note B = list_batch [OF refl less.prems(4) nx_def]
  obtain q s1 where q: "for_each_entry D i list_visit (start, []) s = (q, s1)" by force
  have iok: "dir_ok (content (fs_dev s)) s i" using i dir_ok_meta [OF less.prems(2)] less.prems(3) by simp
  note F = for_each_spec [OF less.prems(1) iok q]
  have s1: "same_meta s0 s1" "content (fs_dev s1) = c" using same_meta_trans [OF less.prems(2) F(2)] F(3) less.prems(3) by simp_all
  show ?case
  proof (cases q)
    case (Inl e)
    then have "r = Err e" "s' = s1" "e = Io" using less.prems(5) q F(4) by (auto simp: list_loop.simps [of D i start s])
    then show ?thesis using F(1) s1 by simp
  next
    case (Inr y)
    then have y: "y = (nx, map item (take 64 ?xs))" using F(4) B(1) less.prems(3) by simp
    obtain t s2 where t: "list_stats D (map item (take 64 ?xs)) s1 = (t, s2)" by force
    note S = finds_run [OF finds_stats F(1) s1 t]
    have run: "(case t of Inl e \<Rightarrow> (Inl e, s2) | Inr out \<Rightarrow> if length ?xs < 64 then (Ok out, s2)
        else (case list_loop D i nx s2 of (Inl e, s3) \<Rightarrow> (Inl e, s3) | (Inr rest, s3) \<Rightarrow> (Ok (out @ rest), s3))) = (r, s')"
      using less.prems(5) q Inr y t by (cases t) (auto simp: list_loop.simps [of D i start s])
    have app: "stats_in c ?sb ?xs = try_bind (stats_in c ?sb (take 64 ?xs)) (\<lambda>a. try_bind (stats_in c ?sb (drop 64 ?xs)) (\<lambda>b. Ok (a @ b)))"
      using stats_append [of c ?sb "take 64 ?xs" "drop 64 ?xs"] by simp
    show ?thesis
    proof (cases t)
      case (Inl e)
      then have "r = Err e" "s' = s2" using run by simp_all
      moreover have "e = Io \<or> stats_in c ?sb (take 64 ?xs) = Err e" using S(4) Inl by auto
      ultimately show ?thesis using S(1-3) app by (auto simp: try_bind_def)
    next
      case (Inr out)
      then have out: "stats_in c ?sb (take 64 ?xs) = Ok out" using S(4) by simp
      show ?thesis
      proof (cases "length ?xs < 64")
        case True
        then show ?thesis using run S Inr out by auto
      next
        case False
        then have "take 64 ?xs \<noteq> []" "?xs \<noteq> []" by auto
        then have "start < nx" using used_slots_fst [of "last (take 64 ?xs)" c i start "dir_entries i"] last_in_set [of "take 64 ?xs"]
            set_take_subset [of 64 ?xs] by (fastforce simp: nx_def)
        then have m: "dir_entries i - nx < dir_entries i - start" using B(2) by simp
        obtain u s3 where u: "list_loop D i nx s2 = (u, s3)" by force
        note IH = less.hyps [OF m S(1-3) B(2) u]
        show ?thesis using run Inr False u IH B(3) app out by (auto simp: try_bind_def split: sum.splits)
      qed
    qed
  qed
qed

lemma finds_list:
  assumes "dirs_ok c s0"
  shows "finds D ready content s0 c (fs_list D path) (listing_in c (fs_sb s0) path)"
proof -
  have step: "finds D ready content s0 c
      (if inode_kind dir \<noteq> Some Dir then fs_fail NotDir else fs_bind (list_loop D dir 0) (\<lambda>out. fs_return (length out, out)))
      (if inode_kind dir \<noteq> Some Dir then Err NotDir else try_bind (stats_in c (fs_sb s0) (used_slots c dir [0..<dir_entries dir])) (\<lambda>out. Ok (length out, out)))"
    if "resolve_in c (fs_sb s0) path = Ok (d, dir)" for d dir
  proof (rule finds_if)
    assume "\<not> inode_kind dir \<noteq> Some Dir"
    then have i: "dir_ok c s0 dir" using dirs_okD [OF assms resolve_inode [OF that]] by simp
    have "finds D ready content s0 c (list_loop D dir 0) (stats_in c (fs_sb s0) (used_slots c dir [0..<dir_entries dir]))"
      unfolding finds_def using list_loop_spec [OF i] by blast
    then show "finds D ready content s0 c (fs_bind (list_loop D dir 0) (\<lambda>out. fs_return (length out, out)))
        (try_bind (stats_in c (fs_sb s0) (used_slots c dir [0..<dir_entries dir])) (\<lambda>out. Ok (length out, out)))"
      by (rule finds_bind) (rule finds_return)
  qed (rule finds_fail)
  show ?thesis unfolding fs_list_def listing_in_def by (rule finds_bind [OF finds_resolve [OF assms]]) (use step in auto)
qed

end

section \<open>Property\<close>

text \<open>
  C34. Listing in batches of 64 is listing: unless the device fails, a call gives what one pass over the entries gives (the
  error of the path, or for every entry in use, in the order of the slots, its name and what its inode says, with their
  count), no entry twice and none left out at the end of a batch; and it changes nothing of the volume.
\<close>

theorem list_complete:
  assumes "block_device D ready content" "volume_ok D ready s" "dirs_ok (content (fs_dev s)) s" "fs_list D path s = (r, s')"
  shows "content (fs_dev s') = content (fs_dev s) \<and> same_meta s s' \<and> (r = Err Io \<or> r = listing_in (content (fs_dev s)) (fs_sb s) path)"
  using finds_run [OF block_device.finds_list [OF assms(1,3)] assms(2) _ refl assms(4)] same_meta_refl by blast

lemma names_listing: "listing_in (mem_content (fs_dev names_crash)) demo_sb [0x2f] = Ok (1, [([0x61], \<lparr>st_ino = 2, st_kind = File, st_size = 0\<rparr>)])"
proof -
  let ?c = "mem_content (fs_dev names_crash)"
  obtain e where e: "slot_entry ?c names_root 0 = Some e" "d_ino e = 2" "dirent_name e = [0x61]"
    using names_slots(1) [of "Some (1, 2)"] by (auto simp: names_crash_def slot_entry_def)
  have k: "inode_kind names_root = Some Dir" "inode_kind demo_inode = Some File" "i_size demo_inode = 0"
    by (simp_all add: inode_kind_def names_root_def demo_inode_def)
  note inodes = names_inodes [of "Some (1, 2)", folded names_crash_def]
  have none: "slot_entry ?c names_root k = None" if "k \<in> set [1..<32]" for k
    using names_slots(2) [of k "Some (1, 2)"] that by (simp add: names_crash_def slot_entry_def)
  have "used_slots ?c names_root [1..<32] = []" using none by (auto simp: used_slots_def map_filter_def filter_empty_conv)
  moreover have "[0..<32] = 0 # [1..<32]" by (subst upt_conv_Cons) simp_all
  ultimately have "used_slots ?c names_root [0..<32] = [(0, e)]" using e by (simp only: used_slots_simps) simp
  moreover have "dir_entries names_root = 32" by (simp add: dir_entries_def names_root_def)
  moreover have "resolve_in ?c demo_sb [0x2f] = Ok (1, names_root)"
    using inodes k by (simp add: resolve_in_def components_def)
  ultimately show ?thesis using e inodes k by (simp add: listing_in_def)
qed

lemma list_complete_witness:
  "case fs_list mem_dev [0x2f] names_crash of (r, s') \<Rightarrow>
     mem_content (fs_dev s') = mem_content (fs_dev names_crash) \<and>
     (case r of Inl e \<Rightarrow> e = Io | Inr x \<Rightarrow> x = (1, [([0x61], \<lparr>st_ino = 2, st_kind = File, st_size = 0\<rparr>)]))"
proof -
  obtain r s' where run: "fs_list mem_dev [0x2f] names_crash = (r, s')" by force
  show ?thesis
    using list_complete [OF mem.block_device_axioms names_crash_facts(2,3) run, unfolded names_crash_facts(1) names_listing] by (auto simp: run)
qed

end
