(* ===== verification/Spec2Isabelle.thy ===== *)
theory Spec2Isabelle
  imports Kernel_Heap Kernel_Caps Proto_Fs Svc_Dep Firewall Nexofs_List
begin

text \<open>
  \<^bold>\<open>A verification of parts of Nexo OS.\<close> Nexo OS is a microkernel system in Rust: a UEFI loader hands a memory map and
  page tables to a kernel that manages frames, address spaces, handles and messages; everything else (drivers, file systems,
  network, windows, the service manager) is programs that talk over channels in typed protocols. This development models the
  memory management and capability core of the kernel, the wire format of the protocols with the one of the file system in
  full, the start order of services, the network policy and the file system NexoFS, and proves what each part promises.

  \<^bold>\<open>Conventions.\<close> Theory \<open>Nexo_Prelude\<close> has the machine integers (\<open>'n word\<close>, which wraps as a release build does), results
  (\<open>Err\<close> and \<open>Ok\<close> of a sum type, \<open>try_bind\<close> for the operator \<^verbatim>\<open>?\<close>) and the operations of the standard library that the
  code calls. A struct is a record, an enum a datatype, a loop a recursive function, a global an argument that is returned
  updated. Every definition that models code is executable. \<^verbatim>\<open>usize\<close> is \<open>nat\<close> where the values are far from the limit, and a word where
  the code may wrap. Locks, log lines and statistics that no result depends on are left out.

  \<^bold>\<open>Frames.\<close> \<open>Mm_Addr\<close> (\<^verbatim>\<open>kernel/lib/mm/src/addr.rs\<close>) has the addresses; \<open>Memory_Map\<close> (\<^verbatim>\<open>map.rs\<close>, memory regions of
  \<^verbatim>\<open>abi/boot/src/lib.rs\<close>) the normalisation of the map of the loader as the code runs it: cut points, insertion sort,
  sweep; \<open>Frame_Bitmap\<close> (\<^verbatim>\<open>bitmap.rs\<close>) the allocator with its two bitmaps; \<open>Phys_Mem\<close> (\<^verbatim>\<open>kernel/src/mm/phys.rs\<close>) how boot
  builds it. The theorems: the normalised map is sorted, disjoint and gives each byte the kind of highest priority; the
  allocator hands out distinct free frames and refuses wrong releases; after boot no frame that is handed out overlaps a
  reserved region. The contract of an allocator is the locale \<open>frame_allocator\<close>, and \<open>frame_pool\<close> of \<open>Frame_Pool\<close>, which also
  counts what is taken; both are interpreted on the bitmap allocator, on the global one and on the recording one of a process.

  \<^bold>\<open>Heap.\<close> \<open>Kernel_Heap\<close> (\<^verbatim>\<open>kernel/lib/heap/src/lib.rs\<close>) has the free list as words in memory. Blocks tile the region along
  every run; allocation is first fit and fails only when no free block has a place for the request; a release gives back exactly
  its block, and after all releases the region is one block again. A lemma exhibits the wrap-around of a 1 GiB request, which
  the bounds of the allocation theorem exclude.

  \<^bold>\<open>Page tables and address spaces.\<close> \<open>Paging\<close> (\<^verbatim>\<open>arch/x86_64/src/paging.rs\<close>) has the four levels over a memory of tables, for
  any \<open>frame_allocator\<close>, with the footprint of an operation as \<open>pt_step\<close>; \<open>Addr_Space\<close> (\<^verbatim>\<open>kernel/src/mm/virt.rs\<close>, \<^verbatim>\<open>kernel/src/process.rs\<close>) the kernel mappings and the
  address spaces of processes. Mapping changes exactly the page it names, unmapping undoes it, processes cannot reach each
  other's private frames, destroying the spaces gives back every frame, and the frames that a kernel mapping takes are its page
  and new page tables, on errors as well.

  \<^bold>\<open>Handles and messages.\<close> \<open>Syscall_Abi\<close> (\<^verbatim>\<open>abi/syscall/src/lib.rs\<close>) has the numbers and codes; \<open>Ipc\<close> (\<^verbatim>\<open>kernel/src/ipc.rs\<close>)
  handle tables, channels and events, with the contract of a table of slots as the locale \<open>slot_table\<close>; \<open>Kernel_Ipc\<close>
  (\<^verbatim>\<open>kernel/src/x86/syscall.rs\<close>) the system calls on them and on memory objects over the state of all processes; \<open>Kernel_Caps\<close>
  the step relation of those calls. A run of system calls never gives rights over an object that no holder had, and never
  multiplies handles without the right to duplicate; channels are queues; an automatic event wakes once per signal.

  \<^bold>\<open>Protocols.\<close> \<open>Le_Bytes\<close> has little-endian encodings and buffers; \<open>Proto_Wire\<close> (\<^verbatim>\<open>abi/proto/src/lib.rs\<close>) the header and the
  shapes of generated code; \<open>Proto_Fs\<close> (\<^verbatim>\<open>abi/proto/src/generated/fs.rs\<close>) all messages of \<^verbatim>\<open>nexo.fs\<close>, each an interpretation
  of the locale \<open>message_codec\<close>. What is encoded is decoded as sent, handles apart that travel outside of the payload, and what is decoded has exactly the
  bytes of its encoding.

  \<^bold>\<open>Services and network policy.\<close> \<open>Svc_Dep\<close> (\<^verbatim>\<open>libraries/svcdep/src/lib.rs\<close>) orders services by their dependencies: every
  answer is right, be it an order or an error. \<open>Firewall\<close> (\<^verbatim>\<open>libraries/net/src/firewall.rs\<close>) allows
  exactly what the declared policy allows; of the reasons of a denial the theorem says what their documentation says.

  \<^bold>\<open>NexoFS\<close> (\<^verbatim>\<open>libraries/nexofs/src/lib.rs\<close>). \<open>Nexofs_Format\<close> has the records on the disk with their checksums, encoders and
  decoders; \<open>Nexofs_Dev\<close> the trait of devices, its contract as the locale \<open>block_device\<close> (a write that fails may leave the
  block torn at a sector) and the device of the crash tests, which is its interpretation; \<open>Nexofs_Core\<close> the mounted volume,
  bitmap, inode table and reading; \<open>Nexofs_Write\<close> writing and truncating; \<open>Nexofs_Dir\<close> directories, paths, create, rename,
  unlink and list. Operations are functions on the volume that return a result and the volume after it, composed with
  \<open>fs_bind\<close>. What the disk says is a function of the contents of its blocks (\<open>inode_in\<close>, \<open>contents\<close>, \<open>lookup\<close>, \<open>resolve_in\<close>);
  \<open>reads_as\<close> and \<open>finds\<close> link operations that only read to it. \<open>Nexofs_Crash\<close>: a write leaves the old file or the new one,
  whatever access fails, and no other file changes. \<open>Nexofs_Total\<close>: on a device that does not fail (locale \<open>reliable_device\<close>) a
  write with enough free blocks succeeds and can be read back. \<open>Nexofs_Names\<close> says what the directories name and when an
  operation keeps it (\<open>keeps\<close>) or changes nothing else (\<open>alters\<close>), \<open>Nexofs_Slots\<close> that single entries are written whole or not at
  all and that a directory grows by empty entries; \<open>Nexofs_Rename\<close>: a rename never loses the object; \<open>Nexofs_Create\<close>: creating
  adds one name and nothing else; both keep the directories sound at every failure; \<open>Nexofs_List\<close>: listing in batches is one
  pass over the entries. The theorems on writes are for ranges within the
  direct blocks (24 KiB); the indirect block is modelled but written in place, so a crash there may mix old and new data.

  \<^bold>\<open>Bounds.\<close> No definition uses fuel. Loops end by a measure, except for the walks along the free list of the heap, which are
  \<open>partial_function (option)\<close> because the list lives in memory; the theorems say that they return. Fixed sizes (528 regions, 256 handles, 64 messages, 12 direct
  blocks) are those of the code.

  \<^bold>\<open>Not modelled.\<close> Assembly and device access (the rest of \<^verbatim>\<open>arch/x86_64\<close>, \<^verbatim>\<open>kernel/src/x86\<close> apart from the calls above, the
  drivers under \<^verbatim>\<open>services\<close>): what they do is the behaviour of hardware that the sources do not describe. The loader calls
  firmware. Scheduling, timers and locks interleave on several processors, for which this development has no memory model.
  The other generated protocols repeat the shapes of \<open>Proto_Wire\<close>. Graphics, fonts, user interfaces and the window system
  draw pixels. The remaining libraries that compute on data (FAT reader, packages, installation, TCP, ELF, ACPI) have no
  model yet. Formatting a NexoFS volume and the check at mount, which
  repairs what a crash left, are not modelled either; unlink, truncate and the indirect block are modelled but have no theorem
  of their own.
\<close>

end
